(* ===== verification/Fio_Prelude.thy ===== *)
theory Fio_Prelude
  imports Main "HOL-Library.Word"
begin

text \<open>
  Shared vocabulary of the development.  It holds the machine integer types of the
  C sources (an LP64 target: \<open>unsigned int\<close> is 32 bits wide, \<open>unsigned long\<close> and
  \<open>uint64_t\<close> are 64 bits wide), the error values that stand for what C leaves undefined
  or aborts on, bounds-checked array access, and the generic lemmas on words, lists and
  results that the component theories share.
\<close>

unbundle bit_operations_syntax

section \<open>Machine integers\<close>

type_synonym u8 = "8 word"
type_synonym u16 = "16 word"
type_synonym u32 = "32 word"
type_synonym u64 = "64 word"

section \<open>Errors as values\<close>

text \<open>
  What a C statement can do besides computing a value: read or write outside an object,
  fail an \<open>assert\<close>, follow a null pointer, pass an indeterminate pointer to \<open>free\<close> or use
  it otherwise, divide by zero, leave the range of a signed type, convert a floating-point value to an integer type
  that cannot hold it.
\<close>

datatype c_error =
    Out_of_bounds
  | Assert_failed
  | Null_deref
  | Uninit_free
  | Uninit_use
  | Div_by_zero
  | Signed_overflow
  | Float_range

type_synonym 'a res = "c_error + 'a"

definition bindr :: "'a res \<Rightarrow> ('a \<Rightarrow> 'b res) \<Rightarrow> 'b res" where
  "bindr m k = (case m of Inl e \<Rightarrow> Inl e | Inr x \<Rightarrow> k x)"

definition assertr :: "bool \<Rightarrow> 'a res \<Rightarrow> 'a res" where
  "assertr b m = (if b then m else Inl Assert_failed)"

text \<open>Bounds-checked array reads and writes.\<close>

definition rd :: "'a list \<Rightarrow> nat \<Rightarrow> 'a res" where
  "rd xs i = (if i < length xs then Inr (xs ! i) else Inl Out_of_bounds)"

definition wr :: "'a list \<Rightarrow> nat \<Rightarrow> 'a \<Rightarrow> 'a list res" where
  "wr xs i v = (if i < length xs then Inr (xs[i := v]) else Inl Out_of_bounds)"

lemma bindr_simps [simp]:
  "bindr (Inl e) k = Inl e"
  "bindr (Inr x) k = k x"
  by (simp_all add: bindr_def)

lemma bindr_Inr_right [simp]: "bindr x Inr = x"
  by (cases x) simp_all

lemma bindr_assoc: "bindr (bindr m f) g = bindr m (\<lambda>x. bindr (f x) g)"
  by (cases m) simp_all

lemma bindr_Inr_iff: "bindr m k = Inr y \<longleftrightarrow> (\<exists>x. m = Inr x \<and> k x = Inr y)"
  by (auto simp: bindr_def split: sum.splits)

lemma assertr_simps [simp]:
  "assertr True m = m"
  "assertr False m = Inl Assert_failed"
  by (simp_all add: assertr_def)

lemma rd_in [simp]: "i < length xs \<Longrightarrow> rd xs i = Inr (xs ! i)"
  by (simp add: rd_def)

lemma rd_out [simp]: "length xs \<le> i \<Longrightarrow> rd xs i = Inl Out_of_bounds"
  by (simp add: rd_def)

lemma wr_in [simp]: "i < length xs \<Longrightarrow> wr xs i v = Inr (xs[i := v])"
  by (simp add: wr_def)

lemma wr_out [simp]: "length xs \<le> i \<Longrightarrow> wr xs i v = Inl Out_of_bounds"
  by (simp add: wr_def)

section \<open>A result that may not exist\<close>

text \<open>\<open>None\<close> is a computation that does not return.\<close>

type_synonym 'a comp = "'a res option"

definition bindc :: "'a comp \<Rightarrow> ('a \<Rightarrow> 'b comp) \<Rightarrow> 'b comp" where
  "bindc m k = Option.bind m (\<lambda>r. case r of Inl e \<Rightarrow> Some (Inl e) | Inr x \<Rightarrow> k x)"

abbreviation retc :: "'a \<Rightarrow> 'a comp" where
  "retc x \<equiv> Some (Inr x)"

lemma bindc_simps [simp]:
  "bindc None k = None"
  "bindc (Some (Inl e)) k = Some (Inl e)"
  "bindc (retc x) k = k x"
  by (simp_all add: bindc_def)

lemma bindc_eq_retc: "bindc m k = retc y \<longleftrightarrow> (\<exists>x. m = retc x \<and> k x = retc y)"
  by (cases m rule: option.exhaust [case_names None Some]) (auto simp: bindc_def split: sum.splits)

definition udiv :: "'a::len word \<Rightarrow> 'a word \<Rightarrow> 'a word res" where
  "udiv a b = (if b = 0 then Inl Div_by_zero else Inr (a div b))"

definition umod :: "'a::len word \<Rightarrow> 'a word \<Rightarrow> 'a word res" where
  "umod a b = (if b = 0 then Inl Div_by_zero else Inr (a mod b))"

section \<open>Arithmetic\<close>

lemma mod_add_below: "a mod m + b < m \<Longrightarrow> (a + b) mod m = a mod m + b" for a b m :: nat
  by (metis mod_add_left_eq mod_less)

section \<open>Words\<close>

named_theorems word_nat \<open>reading word operations as operations on natural numbers\<close>

lemma unat_drop_bit [word_nat]: "unat (drop_bit n w) = unat w div 2 ^ n"
  for w :: "'a::len word"
  by (simp only: unat_drop_bit_eq) (simp only: drop_bit_eq_div)

lemma unat_and_mask [word_nat]: "unat (w AND mask n) = unat w mod 2 ^ n"
  for w :: "'a::len word"
  by (simp only: take_bit_eq_mask [symmetric] unsigned_take_bit_eq) (simp add: take_bit_eq_mod)

lemma unat_and_127 [word_nat]: "unat (w AND 127) = unat w mod 128"
  for w :: "'a::len word"
  using unat_and_mask [of w 7] by (simp add: mask_numeral)

lemma unat_and_63 [word_nat]: "unat (w AND 63) = unat w mod 64"
  for w :: "'a::len word"
  using unat_and_mask [of w 6] by (simp add: mask_numeral)

lemma unat_ucast [word_nat]: "unat (ucast w :: 'b::len word) = unat w mod 2 ^ LENGTH('b)"
  for w :: "'a::len word"
  by (simp add: unsigned_ucast_eq take_bit_eq_mod)

lemma unat_u64_less: "unat (w :: u64) < 2 ^ 64"
  by (rule order_less_le_trans [OF unsigned_less]) simp

lemma unat_u32_less: "unat (w :: u32) < 2 ^ 32"
  by (rule order_less_le_trans [OF unsigned_less]) simp

lemma unat_u64_max: "unat (-1 :: u64) = 2 ^ 64 - 1"
  by (simp add: unsigned_minus_1_eq_mask mask_eq_exp_minus_1)

lemma unat_u32_max: "unat (-1 :: u32) = 2 ^ 32 - 1"
  by (simp add: unsigned_minus_1_eq_mask mask_eq_exp_minus_1)

lemma u64_max_not_less [simp]: "\<not> (-1 :: u64) < w"
  by (simp add: not_less)

lemma unat_ucast_u32_u64 [simp]: "unat (ucast (w :: u32) :: u64) = unat w"
proof -
  have "unat w < 2 ^ 64" using unat_u32_less [of w] by simp
  then show ?thesis by (simp add: unat_ucast)
qed

lemma unat_add_no_wrap: "unat a + unat b < 2 ^ LENGTH('a) \<Longrightarrow> unat (a + b) = unat a + unat b"
  for a b :: "'a::len word"
  by (simp add: unat_word_ariths)

lemma unat_mult_no_wrap: "unat a * unat b < 2 ^ LENGTH('a) \<Longrightarrow> unat (a * b) = unat a * unat b"
  for a b :: "'a::len word"
  by (simp add: unat_word_ariths)

lemma unat_sub_no_wrap: "b \<le> a \<Longrightarrow> unat (a - b) = unat a - unat b"
  for a b :: "'a::len word"
  by (simp add: unat_sub)

lemma unat_push_bit_no_wrap:
  "unat w * 2 ^ n < 2 ^ LENGTH('a) \<Longrightarrow> unat (push_bit n w) = unat w * 2 ^ n"
  for w :: "'a::len word"
  by (simp only: unsigned_push_bit_eq) (simp only: push_bit_eq_mult take_bit_eq_mod mod_less)

lemma word_eq_bits: "v = w \<longleftrightarrow> (\<forall>i<LENGTH('a). bit v i = bit w i)"
  for v w :: "'a::len word"
  by (auto simp: bit_eq_iff)

lemma all_ones_iff: "w = -1 \<longleftrightarrow> (\<forall>i<LENGTH('a). bit w i)"
  for w :: "'a::len word"
  by (auto simp: bit_eq_iff)

lemma not_all_ones_ex: "w \<noteq> -1 \<Longrightarrow> \<exists>i<LENGTH('a). \<not> bit w i"
  for w :: "'a::len word"
  by (simp add: all_ones_iff)


lemma unat_of_nat_u64: "x < 2 ^ 64 \<Longrightarrow> unat (of_nat x :: u64) = x"
  by (simp add: unsigned_of_nat take_bit_nat_eq_self)

lemma card_less_u64: "card {b :: u64. b < n} = unat n"
proof -
  have "unat ` {b. b < n} = {..<unat n}"
  proof (intro set_eqI iffI)
    fix x assume "x \<in> {..<unat n}"
    then have "unat (of_nat x :: u64) = x" using unat_u64_less [of n] by (intro unat_of_nat_u64) simp
    with \<open>x \<in> {..<unat n}\<close> show "x \<in> unat ` {b. b < n}"
      by (intro image_eqI [of _ _ "of_nat x"]) (simp_all add: word_less_nat_alt)
  qed (auto simp: word_less_nat_alt)
  moreover have "inj_on unat {b. b < n}" by (simp add: inj_on_def word_unat_eq_iff)
  ultimately show ?thesis by (metis card_image card_lessThan)
qed

section \<open>First index with a property\<close>

lemma find_upt_Some:
  assumes "find P [a..<b] = Some n"
  shows "a \<le> n" "n < b" "P n" "a \<le> k \<Longrightarrow> k < n \<Longrightarrow> \<not> P k"
proof -
  obtain i where i: "i < b - a" "P ([a..<b] ! i)" "n = [a..<b] ! i" "\<forall>j<i. \<not> P ([a..<b] ! j)"
    using assms by (auto simp: find_Some_iff)
  then show "a \<le> n" "n < b" "P n" by auto
  show "\<not> P k" if "a \<le> k" "k < n"
    using i(1,3) that spec [OF i(4), of "k - a"] by auto
qed

lemma find_upt_None: "find P [a..<b] = None \<longleftrightarrow> (\<forall>k. a \<le> k \<longrightarrow> k < b \<longrightarrow> \<not> P k)"
  by (auto simp: find_None_iff)

end
