(* ===== verification/Bitops.thy ===== *)
theory Bitops
  imports Fio_Prelude
begin

text \<open>
  Bit searching, after \<open>lib/ffz.h\<close>, \<open>lib/fls.h\<close>, \<open>lib/pow2.h\<close> and \<open>lib/hweight.c\<close> of fio.
  \<open>ffs64\<close> and \<open>__fls\<close> narrow the position down by halving; the lemmas show that \<open>ffs64\<close>
  returns the position of the lowest set bit, that \<open>ffz\<close> returns that of the lowest zero bit, and
  that \<open>is_power_of_2\<close> decides what its name says.
\<close>

section \<open>Find first set: \<open>lib/ffz.h\<close>\<close>

definition ffs64 :: "u64 \<Rightarrow> nat" where
  "ffs64 word0 =
    (let r = 0; word = word0;
         (r, word) = (if word AND 0xffffffff = 0 then (r + 32, drop_bit 32 word) else (r, word));
         (r, word) = (if word AND 0xffff = 0 then (r + 16, drop_bit 16 word) else (r, word));
         (r, word) = (if word AND 0xff = 0 then (r + 8, drop_bit 8 word) else (r, word));
         (r, word) = (if word AND 0xf = 0 then (r + 4, drop_bit 4 word) else (r, word));
         (r, word) = (if word AND 3 = 0 then (r + 2, drop_bit 2 word) else (r, word))
     in (if word AND 1 = 0 then r + 1 else r))"

definition ffz :: "u64 \<Rightarrow> nat" where
  "ffz bitmask = ffs64 (NOT bitmask)"

section \<open>Find last set: \<open>lib/fls.h\<close>\<close>

definition fls :: "u32 \<Rightarrow> nat" where
  "fls x0 =
    (if x0 = 0 then 0 else
     let r = 32; x = x0;
         (r, x) = (if x AND 0xffff0000 = 0 then (r - 16, push_bit 16 x) else (r, x));
         (r, x) = (if x AND 0xff000000 = 0 then (r - 8, push_bit 8 x) else (r, x));
         (r, x) = (if x AND 0xf0000000 = 0 then (r - 4, push_bit 4 x) else (r, x));
         (r, x) = (if x AND 0xc0000000 = 0 then (r - 2, push_bit 2 x) else (r, x));
         (r, x) = (if x AND 0x80000000 = 0 then (r - 1, push_bit 1 x) else (r, x))
     in r)"

section \<open>Powers of two: \<open>lib/pow2.h\<close>\<close>

definition is_power_of_2 :: "u64 \<Rightarrow> bool" where
  "is_power_of_2 val \<longleftrightarrow> val \<noteq> 0 \<and> (val AND (val - 1)) = 0"

section \<open>Population count: \<open>lib/hweight.c\<close>\<close>

definition hweight8 :: "u8 \<Rightarrow> u32" where
  "hweight8 w =
    (let res = ucast w - ((drop_bit 1 (ucast w)) AND 0x55) :: u32;
         res = (res AND 0x33) + ((drop_bit 2 res) AND 0x33)
     in (res + drop_bit 4 res) AND 0x0F)"

definition hweight32 :: "u32 \<Rightarrow> u32" where
  "hweight32 w =
    (let res = w - ((drop_bit 1 w) AND 0x55555555);
         res = (res AND 0x33333333) + ((drop_bit 2 res) AND 0x33333333);
         res = (res + drop_bit 4 res) AND 0x0F0F0F0F;
         res = res + drop_bit 8 res
     in (res + drop_bit 16 res) AND 0x000000FF)"

definition hweight64 :: "u64 \<Rightarrow> u32" where
  "hweight64 w =
    (let res = w - ((drop_bit 1 w) AND 0x5555555555555555);
         res = (res AND 0x3333333333333333) + ((drop_bit 2 res) AND 0x3333333333333333);
         res = (res + drop_bit 4 res) AND 0x0F0F0F0F0F0F0F0F;
         res = res + drop_bit 8 res;
         res = res + drop_bit 16 res
     in ucast ((res + drop_bit 32 res) AND 0x00000000000000FF))"

section \<open>The lowest set bit\<close>

definition lowest_bit :: "'a::len word \<Rightarrow> nat \<Rightarrow> bool" where
  "lowest_bit w k \<longleftrightarrow> bit w k \<and> (\<forall>j<k. \<not> bit w j)"

lemma lowest_bit_ex: "w \<noteq> 0 \<Longrightarrow> \<exists>k<LENGTH('a). lowest_bit w k"
  for w :: "'a::len word"
proof -
  assume "w \<noteq> 0"
  then have ex: "\<exists>k. bit w k" by (auto simp: bit_eq_iff)
  then have "bit w (LEAST k. bit w k)" by (rule LeastI_ex)
  moreover from this have "(LEAST k. bit w k) < LENGTH('a)" by (rule bit_imp_le_length)
  ultimately show ?thesis
    unfolding lowest_bit_def by (meson not_less_Least)
qed

lemma lowest_bit_unique: "lowest_bit w j \<Longrightarrow> lowest_bit w k \<Longrightarrow> j = k"
  by (auto simp: lowest_bit_def) (meson linorder_neqE_nat)

text \<open>One halving step of \<open>ffs64\<close>.\<close>

definition ffs_step :: "nat \<Rightarrow> nat \<times> u64 \<Rightarrow> nat \<times> u64" where
  "ffs_step s = (\<lambda>(r, w). if w AND mask s = 0 then (r + s, drop_bit s w) else (r, w))"

lemma and_mask_eq_0_iff: "w AND mask s = 0 \<longleftrightarrow> (\<forall>j < s. \<not> bit w j)"
  for w :: "'a::len word"
  by (auto simp: bit_eq_iff bit_simps) (meson bit_imp_le_length)

lemma ffs_step_lowest:
  assumes "lowest_bit w k" "k < 2 * s"
  shows "\<exists>r' w' k'. ffs_step s (r, w) = (r', w') \<and> lowest_bit w' k' \<and> k' < s \<and> r' + k' = r + k"
proof (cases "w AND mask s = 0")
  case True
  with assms have "s \<le> k"
    by (auto simp: and_mask_eq_0_iff lowest_bit_def not_less [symmetric])
  with assms have "lowest_bit (drop_bit s w) (k - s)"
    by (auto simp: lowest_bit_def bit_simps)
  with True \<open>s \<le> k\<close> assms(2) show ?thesis
    by (auto simp: ffs_step_def)
next
  case False
  then obtain j where "j < s" "bit w j" by (auto simp: and_mask_eq_0_iff)
  with assms have "k < s" unfolding lowest_bit_def by (meson linorder_not_le order_le_less_trans)
  with False assms show ?thesis
    by (auto simp: ffs_step_def)
qed

lemma ffs64_steps:
  "ffs64 w = fst (ffs_step 1 (ffs_step 2 (ffs_step 4 (ffs_step 8 (ffs_step 16 (ffs_step 32 (0, w)))))))"
proof -
  have m: "(0xffffffff :: u64) = mask 32" "(0xffff :: u64) = mask 16" "(0xff :: u64) = mask 8"
    "(0xf :: u64) = mask 4" "(3 :: u64) = mask 2" "(1 :: u64) = mask 1"
    by (simp_all add: mask_numeral)
  show ?thesis
    unfolding ffs64_def ffs_step_def Let_def m
    by (simp only: case_prod_unfold fst_conv snd_conv if_distrib [of fst] if_distrib [of snd])
qed

lemma ffs64_lowest:
  assumes "w \<noteq> 0"
  shows "lowest_bit w (ffs64 w)"
proof -
  obtain k where k: "lowest_bit w k" "k < 2 * 32"
    using lowest_bit_ex [OF assms] by auto
  obtain r1 w1 k1 where 1: "ffs_step 32 (0, w) = (r1, w1)" "lowest_bit w1 k1" "k1 < 2 * 16" "r1 + k1 = 0 + k"
    using ffs_step_lowest [OF k] by fastforce
  obtain r2 w2 k2 where 2: "ffs_step 16 (r1, w1) = (r2, w2)" "lowest_bit w2 k2" "k2 < 2 * 8" "r2 + k2 = r1 + k1"
    using ffs_step_lowest [OF 1(2,3)] by fastforce
  obtain r3 w3 k3 where 3: "ffs_step 8 (r2, w2) = (r3, w3)" "lowest_bit w3 k3" "k3 < 2 * 4" "r3 + k3 = r2 + k2"
    using ffs_step_lowest [OF 2(2,3)] by fastforce
  obtain r4 w4 k4 where 4: "ffs_step 4 (r3, w3) = (r4, w4)" "lowest_bit w4 k4" "k4 < 2 * 2" "r4 + k4 = r3 + k3"
    using ffs_step_lowest [OF 3(2,3)] by fastforce
  obtain r5 w5 k5 where 5: "ffs_step 2 (r4, w4) = (r5, w5)" "lowest_bit w5 k5" "k5 < 2 * 1" "r5 + k5 = r4 + k4"
    using ffs_step_lowest [OF 4(2,3)] by fastforce
  obtain r6 w6 k6 where 6: "ffs_step 1 (r5, w5) = (r6, w6)" "lowest_bit w6 k6" "k6 < 1" "r6 + k6 = r5 + k5"
    using ffs_step_lowest [OF 5(2,3)] by fastforce
  have "ffs64 w = k"
    using 1 2 3 4 5 6 by (simp add: ffs64_steps)
  with k show ?thesis by simp
qed

lemma ffs64_less: "ffs64 w < 64"
proof (cases "w = 0")
  case True
  then show ?thesis by (simp add: ffs64_def)
next
  case False
  then have "bit w (ffs64 w)"
    using ffs64_lowest by (simp add: lowest_bit_def)
  then show ?thesis
    using bit_imp_le_length by fastforce
qed

lemma ffz_first_zero:
  assumes "w \<noteq> -1"
  shows "\<not> bit w (ffz w)" and "\<And>j. j < ffz w \<Longrightarrow> bit w j" and "ffz w < 64"
proof -
  from assms have "NOT w \<noteq> 0" by (metis bit.double_compl bit.compl_zero)
  from ffs64_lowest [OF this] show "\<not> bit w (ffz w)" and "\<And>j. j < ffz w \<Longrightarrow> bit w j"
    using ffs64_less [of "NOT w"] by (auto simp: lowest_bit_def ffz_def bit_simps)
  show "ffz w < 64" by (simp add: ffz_def ffs64_less)
qed

section \<open>Powers of two\<close>

lemma and_pred_eq_0_power: "n \<noteq> 0 \<Longrightarrow> n AND (n - 1) = 0 \<Longrightarrow> \<exists>k. n = 2 ^ k" for n :: nat
proof (induction n rule: less_induct)
  case (less n)
  show ?case
  proof (cases "even n")
    case True
    then obtain a where a: "n = 2 * a" by blast
    have "n AND (n - 1) = 2 * (a AND (a - 1))"
    proof -
      have "(2 * a - 1) div 2 = a - 1" using less.prems(1) a by presburger
      then show ?thesis using a by (subst and_rec) simp
    qed
    moreover have "a < n" "a \<noteq> 0" using less.prems(1) a by simp_all
    ultimately obtain k where "a = 2 ^ k" using less.IH [of a] less.prems(2) by auto
    then show ?thesis using a by (intro exI [of _ "Suc k"]) simp
  next
    case False
    then obtain a where a: "n = 2 * a + 1" by (metis oddE)
    have "n AND (n - 1) = 2 * a" unfolding a by (subst and_rec) simp
    then show ?thesis using less.prems(2) a by (intro exI [of _ 0]) simp
  qed
qed

lemma is_power_of_2_iff: "is_power_of_2 w \<longleftrightarrow> (\<exists>k. unat w = 2 ^ k)"
proof
  assume "is_power_of_2 w"
  then have w: "w \<noteq> 0" "w AND (w - 1) = 0" by (simp_all add: is_power_of_2_def)
  have "unat (w - 1) = unat w - 1" using w(1) by (subst unat_sub_no_wrap) (simp_all add: word_le_nat_alt unat_gt_0 Suc_leI)
  then have "unat w AND (unat w - 1) = 0" using w(2) by (metis unsigned_and_eq unsigned_0)
  moreover have "unat w \<noteq> 0" using w(1) by (simp add: word_unat_eq_iff)
  ultimately show "\<exists>k. unat w = 2 ^ k" by (intro and_pred_eq_0_power)
next
  assume "\<exists>k. unat w = 2 ^ k"
  then obtain k where k: "unat w = 2 ^ k" by blast
  then have w: "w \<noteq> 0" by auto
  then have "unat (w - 1) = 2 ^ k - 1" using k by (subst unat_sub_no_wrap) (simp_all add: word_le_nat_alt unat_gt_0 Suc_leI)
  then have "unat (w AND (w - 1)) = 2 ^ k AND mask k" using k by (simp add: unsigned_and_eq mask_eq_exp_minus_1)
  also have "\<dots> = 0" by (simp add: take_bit_eq_mask [symmetric])
  finally show "is_power_of_2 w" using w by (simp add: is_power_of_2_def word_unat_eq_iff)
qed

lemma and_not_mask: "w AND NOT (mask k) = push_bit k (drop_bit k w)" for w :: "'a::len word"
  by (rule bit_eqI) (auto simp: bit_simps)

lemma unat_and_not_mask: "unat (w AND NOT (mask k)) = unat w div 2 ^ k * 2 ^ k" for w :: "'a::len word"
proof -
  have "unat (drop_bit k w) * 2 ^ k < 2 ^ LENGTH('a)"
    using order_le_less_trans [OF div_times_less_eq_dividend [of "unat w" "2 ^ k"] unsigned_less [of w]]
    by (simp add: unat_drop_bit)
  then show ?thesis by (simp add: and_not_mask unat_push_bit_no_wrap unat_drop_bit)
qed

end
