(* ===== verification/Axmap.thy ===== *)
theory Axmap
  imports Bitops
begin

text \<open>
  The random-I/O coverage map, after \<open>lib/axmap.c\<close> of fio: a bitmap of bitmaps in which a
  set bit of layer \<open>i + 1\<close> says that the corresponding word of layer \<open>i\<close> is full.

  The state is the pair of C structs as records.  A level's \<open>map\<close> is a list of 64-bit words,
  every access to it is bounds-checked, and the two \<open>assert\<close>s of \<open>axmap_set_fn\<close> are
  branches of the model.  The callbacks of \<open>axmap_handler\<close> are functions of the model too,
  and each loop of the source is a recursive function.

  This theory holds the definitions only; \<open>Axmap_Props\<close> holds the invariant and the
  theorems.
\<close>

section \<open>Data\<close>

abbreviation (input) UNIT_SHIFT :: nat where "UNIT_SHIFT \<equiv> 6"
abbreviation (input) BLOCKS_PER_UNIT :: nat where "BLOCKS_PER_UNIT \<equiv> 64"
abbreviation (input) BLOCKS_PER_UNIT_MASK :: u64 where "BLOCKS_PER_UNIT_MASK \<equiv> 63"

record axmap_level =
  level :: nat
  map_size :: u64
  al_map :: "u64 list"

record axmap =
  nr_levels :: nat
  levels :: "axmap_level list"
  first_free :: u64
  nr_bits :: u64

definition firstfree_valid :: "axmap \<Rightarrow> bool" where
  "firstfree_valid b \<longleftrightarrow> first_free b \<noteq> -1"

fun ulog64 :: "u64 \<Rightarrow> nat \<Rightarrow> u64" where
  "ulog64 val 0 = val"
| "ulog64 val (Suc log) = (if val \<noteq> 0 then ulog64 (drop_bit UNIT_SHIFT val) log else val)"

section \<open>Creation\<close>

definition axmap_reset :: "axmap \<Rightarrow> axmap" where
  "axmap_reset am =
    am\<lparr>levels := map (\<lambda>al. al\<lparr>al_map := replicate (unat (map_size al)) 0\<rparr>) (levels am),
       first_free := 0\<rparr>"

text \<open>
  \<open>axmap_new\<close> first counts the levels in an \<open>unsigned int\<close>, then allocates them.  The
  allocator is a parameter: \<open>malloc_ok n\<close> says whether the \<open>n\<close>-th call of \<open>malloc\<close> returns
  memory.  Fresh memory is indeterminate; the word lists allocated here hold an arbitrary
  filler \<open>junk\<close> until \<open>axmap_reset\<close> clears them.
\<close>

function axmap_count_levels :: "u32 \<Rightarrow> nat \<Rightarrow> nat" where
  "axmap_count_levels i n =
    (if i > 1 then axmap_count_levels (drop_bit UNIT_SHIFT (i + 64 - 1)) (n + 1) else n)"
  by pat_completeness auto
termination
proof (relation "measure (\<lambda>(i, n). unat i)")
  fix i :: u32 and n :: nat
  assume "i > 1"
  then have "unat i > 1" by (simp add: word_less_nat_alt)
  moreover have "unat (i + 64 - 1) \<le> unat i + 63"
    by (simp add: unat_word_ariths)
  ultimately have "unat (drop_bit 6 (i + 64 - 1)) < unat i"
    by (simp add: word_nat del: add_diff_eq)
  then show "((drop_bit 6 (i + 64 - 1), n + 1), i, n) \<in> measure (\<lambda>(i, n). unat i)"
    by simp
qed simp

fun axmap_alloc_levels :: "(nat \<Rightarrow> bool) \<Rightarrow> u64 \<Rightarrow> nat \<Rightarrow> nat \<Rightarrow> u64 \<Rightarrow> nat + axmap_level list" where
  "axmap_alloc_levels malloc_ok junk 0 i nbits = Inr []"
| "axmap_alloc_levels malloc_ok junk (Suc n) i nbits =
    (let sz = drop_bit UNIT_SHIFT (nbits + 64 - 1);
         al = \<lparr>level = i, map_size = sz, al_map = replicate (unat sz) junk\<rparr>
     in if \<not> malloc_ok (i + 2) then Inl i
        else (case axmap_alloc_levels malloc_ok junk n (i + 1) sz of
                Inl k \<Rightarrow> Inl k
              | Inr als \<Rightarrow> Inr (al # als)))"

text \<open>
  The error path walks all \<open>nr_levels\<close> entries and frees every non-null \<open>map\<close>; the
  entries after the failing one were never written.
\<close>

definition axmap_new :: "(nat \<Rightarrow> bool) \<Rightarrow> u64 \<Rightarrow> u64 \<Rightarrow> axmap option res" where
  "axmap_new malloc_ok junk nbits =
    (if \<not> malloc_ok 0 then Inr None
     else let n = axmap_count_levels (ucast (drop_bit UNIT_SHIFT (nbits + 64 - 1))) 1
          in if \<not> malloc_ok 1 then Inl Null_deref
             else (case axmap_alloc_levels malloc_ok junk n 0 nbits of
                     Inl i \<Rightarrow> (if i + 1 < n then Inl Uninit_free else Inr None)
                   | Inr als \<Rightarrow>
                       Inr (Some (axmap_reset
                         \<lparr>nr_levels = n, levels = als, first_free = 0, nr_bits = nbits\<rparr>))))"

section \<open>Walking the levels\<close>

type_synonym 'd axmap_fn = "axmap_level \<Rightarrow> u64 \<Rightarrow> nat \<Rightarrow> 'd \<Rightarrow> (bool \<times> axmap_level \<times> 'd) res"

fun axmap_handler_from ::
  "nat \<Rightarrow> axmap_level list \<Rightarrow> u64 \<Rightarrow> 'd axmap_fn \<Rightarrow> 'd \<Rightarrow> (bool \<times> axmap_level list \<times> 'd) res" where
  "axmap_handler_from i [] bit_nr func data = Inr (False, [], data)"
| "axmap_handler_from i (al # als) bit_nr func data =
    (let index = ulog64 bit_nr i;
         offset = drop_bit UNIT_SHIFT index;
         b = unat (index AND BLOCKS_PER_UNIT_MASK)
     in bindr (func al offset b data) (\<lambda>(stop, al', data').
          if stop then Inr (True, al' # als, data')
          else bindr (axmap_handler_from (Suc i) als bit_nr func data') (\<lambda>(r, als', d).
                 Inr (r, al' # als', d))))"

definition axmap_handler :: "axmap \<Rightarrow> u64 \<Rightarrow> 'd axmap_fn \<Rightarrow> 'd \<Rightarrow> (bool \<times> axmap \<times> 'd) res" where
  "axmap_handler am bit_nr func data =
    bindr (axmap_handler_from 0 (levels am) bit_nr func data)
      (\<lambda>(r, als, d). Inr (r, am\<lparr>levels := als\<rparr>, d))"

fun axmap_handler_topdown_from ::
  "nat \<Rightarrow> axmap_level list \<Rightarrow> u64 \<Rightarrow> 'd axmap_fn \<Rightarrow> 'd \<Rightarrow> (bool \<times> axmap_level list \<times> 'd) res" where
  "axmap_handler_topdown_from 0 als bit_nr func data = Inr (False, als, data)"
| "axmap_handler_topdown_from (Suc i) als bit_nr func data =
    (let index = ulog64 bit_nr i;
         offset = drop_bit UNIT_SHIFT index;
         b = unat (index AND BLOCKS_PER_UNIT_MASK)
     in bindr (rd als i) (\<lambda>al.
          bindr (func al offset b data) (\<lambda>(stop, al', data').
            if stop then Inr (True, als[i := al'], data')
            else axmap_handler_topdown_from i (als[i := al']) bit_nr func data')))"

definition axmap_handler_topdown ::
  "axmap \<Rightarrow> u64 \<Rightarrow> 'd axmap_fn \<Rightarrow> 'd \<Rightarrow> (bool \<times> axmap \<times> 'd) res" where
  "axmap_handler_topdown am bit_nr func data =
    bindr (axmap_handler_topdown_from (nr_levels am) (levels am) bit_nr func data)
      (\<lambda>(r, als, d). Inr (r, am\<lparr>levels := als\<rparr>, d))"

section \<open>Clearing\<close>

definition axmap_clear_fn :: "unit axmap_fn" where
  "axmap_clear_fn al offset b unused =
    bindr (rd (al_map al) (unat offset)) (\<lambda>w.
      if w AND push_bit b 1 = 0 then Inr (True, al, unused)
      else bindr (wr (al_map al) (unat offset) (w AND NOT (push_bit b 1))) (\<lambda>m.
             Inr (False, al\<lparr>al_map := m\<rparr>, unused)))"

definition axmap_clear :: "axmap \<Rightarrow> u64 \<Rightarrow> axmap res" where
  "axmap_clear am bit_nr =
    bindr (axmap_handler am bit_nr axmap_clear_fn ()) (\<lambda>(_, am', _).
      Inr (if bit_nr < first_free am' then am'\<lparr>first_free := bit_nr\<rparr> else am'))"

section \<open>Setting\<close>

record axmap_set_data =
  sd_nr_bits :: u32
  sd_set_bits :: u32

definition bit_masks :: "u64 list" where
  "bit_masks =
    [0x0000000000000000, 0x0000000000000001, 0x0000000000000003, 0x0000000000000007,
     0x000000000000000f, 0x000000000000001f, 0x000000000000003f, 0x000000000000007f,
     0x00000000000000ff, 0x00000000000001ff, 0x00000000000003ff, 0x00000000000007ff,
     0x0000000000000fff, 0x0000000000001fff, 0x0000000000003fff, 0x0000000000007fff,
     0x000000000000ffff, 0x000000000001ffff, 0x000000000003ffff, 0x000000000007ffff,
     0x00000000000fffff, 0x00000000001fffff, 0x00000000003fffff, 0x00000000007fffff,
     0x0000000000ffffff, 0x0000000001ffffff, 0x0000000003ffffff, 0x0000000007ffffff,
     0x000000000fffffff, 0x000000001fffffff, 0x000000003fffffff, 0x000000007fffffff,
     0x00000000ffffffff,
     0x00000001ffffffff, 0x00000003ffffffff, 0x00000007ffffffff, 0x0000000fffffffff,
     0x0000001fffffffff, 0x0000003fffffffff, 0x0000007fffffffff, 0x000000ffffffffff,
     0x000001ffffffffff, 0x000003ffffffffff, 0x000007ffffffffff, 0x00000fffffffffff,
     0x00001fffffffffff, 0x00003fffffffffff, 0x00007fffffffffff, 0x0000ffffffffffff,
     0x0001ffffffffffff, 0x0003ffffffffffff, 0x0007ffffffffffff, 0x000fffffffffffff,
     0x001fffffffffffff, 0x003fffffffffffff, 0x007fffffffffffff, 0x00ffffffffffffff,
     0x01ffffffffffffff, 0x03ffffffffffffff, 0x07ffffffffffffff, 0x0fffffffffffffff,
     0x1fffffffffffffff, 0x3fffffffffffffff, 0x7fffffffffffffff, 0xffffffffffffffff]"

text \<open>Clearing the lowest set bit makes a word smaller, which ends the overlap loop.\<close>

lemma unat_clear_bit_less:
  fixes w :: "'a::len word"
  assumes "bit w k"
  shows "unat (w AND NOT (push_bit k 1)) < unat w"
proof -
  have "w AND NOT (push_bit k 1) \<noteq> w"
  proof
    assume "w AND NOT (push_bit k 1) = w"
    then have "bit (w AND NOT (push_bit k 1)) k" using assms by simp
    then show False using bit_imp_le_length [OF assms] by (simp add: bit_simps)
  qed
  moreover have "w AND NOT (push_bit k 1) \<le> w" by (rule word_and_le2)
  ultimately show ?thesis by (simp add: word_less_nat_alt [symmetric])
qed

function axmap_set_overlap :: "u64 \<Rightarrow> u64 \<Rightarrow> u32 \<Rightarrow> u64 \<times> u32" where
  "axmap_set_overlap msk overlap n =
    (if overlap \<noteq> 0 then
       let clear_mask = NOT (push_bit (ffz (NOT overlap)) 1)
       in axmap_set_overlap (msk AND clear_mask) (overlap AND clear_mask) (n - 1)
     else (msk, n))"
  by pat_completeness auto
termination
proof (relation "measure (\<lambda>(msk, overlap, n). unat overlap)")
  fix msk overlap clear_mask :: u64 and n :: u32
  assume "overlap \<noteq> 0" and c: "clear_mask = NOT (push_bit (ffz (NOT overlap)) 1)"
  then have "bit overlap (ffz (NOT overlap))"
    using ffs64_lowest [of overlap] by (simp add: ffz_def lowest_bit_def)
  then show "((msk AND clear_mask, overlap AND clear_mask, n - 1), msk, overlap, n)
      \<in> measure (\<lambda>(msk, overlap, n). unat overlap)"
    using unat_clear_bit_less by (simp add: c)
qed simp

definition axmap_set_fn :: "axmap_set_data axmap_fn" where
  "axmap_set_fn al offset b data =
    (let n = min (sd_nr_bits data) (64 - of_nat b) in
     bindr (rd bit_masks (unat n)) (\<lambda>bm.
     bindr (rd (al_map al) (unat offset)) (\<lambda>w.
       let msk = push_bit b bm; overlap = w AND msk in
       if overlap = msk then Inr (True, al, data)
       else let (msk', n') = axmap_set_overlap msk overlap n in
            assertr (msk' \<noteq> 0) (
            assertr (w AND msk' = 0) (
            bindr (wr (al_map al) (unat offset) (w OR msk')) (\<lambda>m.
              let data' = (if level al = 0 then data\<lparr>sd_set_bits := n'\<rparr> else data)
              in Inr (w OR msk' \<noteq> -1, al\<lparr>al_map := m\<rparr>, data'\<lparr>sd_nr_bits := 1\<rparr>)))))))"

text \<open>
  The \<open>while (nr_bits)\<close> loop of \<open>__axmap_set\<close>.  It goes round again only when the bits just
  set number \<open>64 - nr_bits\<close> in 32-bit arithmetic, so that \<open>nr_bits - 64\<close> doubles modulo
  \<open>2 ^ 32\<close> each time; this bounds the number of rounds.
\<close>

lemma doubling_least:
  fixes m :: u32
  assumes "m \<noteq> 0"
  shows "(LEAST k. push_bit k (2 * m) = 0) < (LEAST k. push_bit k m = 0)"
proof -
  have "push_bit 32 m = 0" by (simp add: bit_eq_iff bit_simps)
  then have z: "push_bit (LEAST k. push_bit k m = 0) m = 0" by (rule LeastI)
  with assms obtain k where k: "(LEAST k. push_bit k m = 0) = Suc k"
    by (cases "LEAST k. push_bit k m = 0") auto
  have "push_bit k (2 * m) = 0"
    using z unfolding k by (simp add: push_bit_eq_mult ac_simps)
  then have "(LEAST k. push_bit k (2 * m) = 0) \<le> k" by (rule Least_le)
  with k show ?thesis by simp
qed

function axmap_set_loop ::
  "axmap \<Rightarrow> u64 \<Rightarrow> u32 \<Rightarrow> axmap_set_data \<Rightarrow> u32 \<Rightarrow> (axmap \<times> axmap_set_data) res" where
  "axmap_set_loop am bit_nr n data set_bits =
    (if n = 0 then Inr (am, data\<lparr>sd_set_bits := set_bits\<rparr>)
     else (case axmap_handler am bit_nr axmap_set_fn data of
             Inl e \<Rightarrow> Inl e
           | Inr (_, am', data') \<Rightarrow>
               if sd_set_bits data' = 0 \<or> sd_set_bits data' \<noteq> 64 - n
               then Inr (am', data'\<lparr>sd_set_bits := set_bits + sd_set_bits data'\<rparr>)
               else axmap_set_loop am' (bit_nr + ucast (sd_set_bits data')) (n - sd_set_bits data')
                      (data'\<lparr>sd_nr_bits := n - sd_set_bits data'\<rparr>) (set_bits + sd_set_bits data')))"
  by pat_completeness auto
termination
proof (relation "measure (\<lambda>(am, bit_nr, n, data, set_bits). LEAST k. push_bit k (n - 64) = 0)", goal_cases)
  case (2 am bit_nr n data set_bits r x y am' data')
  then have s: "sd_set_bits data' = 64 - n" and "64 - n \<noteq> 0" by auto
  then have "n - 64 \<noteq> 0" by (metis diff_eq_diff_eq diff_self right_minus_eq)
  then have "(LEAST k. push_bit k (2 * (n - 64)) = 0) < (LEAST k. push_bit k (n - 64) = 0)"
    by (rule doubling_least)
  moreover have "n - sd_set_bits data' - 64 = 2 * (n - 64)" by (simp add: s)
  ultimately have "(LEAST k. push_bit k (n - sd_set_bits data' - 64) = 0) < (LEAST k. push_bit k (n - 64) = 0)"
    by (simp only:)
  then show ?case by (simp only: in_measure case_prod_conv)
qed simp

definition axmap_set_internal :: "axmap \<Rightarrow> u64 \<Rightarrow> axmap_set_data \<Rightarrow> (axmap \<times> axmap_set_data) res" where
  "axmap_set_internal am bit_nr data =
    (let n = sd_nr_bits data;
         am = (if first_free am \<ge> bit_nr \<and> first_free am < bit_nr + ucast (sd_nr_bits data)
               then am\<lparr>first_free := -1\<rparr> else am)
     in if bit_nr > nr_bits am then Inr (am, data)
        else let n = (if bit_nr + ucast n > nr_bits am then ucast (nr_bits am - bit_nr) else n)
             in axmap_set_loop am bit_nr n data 0)"

definition axmap_set :: "axmap \<Rightarrow> u64 \<Rightarrow> axmap res" where
  "axmap_set am bit_nr =
    bindr (axmap_set_internal am bit_nr \<lparr>sd_nr_bits = 1, sd_set_bits = 0\<rparr>) (\<lambda>(am', _). Inr am')"

function axmap_set_nr_loop :: "axmap \<Rightarrow> u64 \<Rightarrow> u32 \<Rightarrow> u32 \<Rightarrow> (u32 \<times> axmap) res" where
  "axmap_set_nr_loop am bit_nr n set_bits =
    (let max_bits = 64 - ucast (bit_nr AND BLOCKS_PER_UNIT_MASK);
         this_set = (if max_bits < n then max_bits else n)
     in case axmap_set_internal am bit_nr \<lparr>sd_nr_bits = this_set, sd_set_bits = 0\<rparr> of
          Inl e \<Rightarrow> Inl e
        | Inr (am', data) \<Rightarrow>
            if sd_set_bits data \<noteq> this_set then Inr (set_bits + sd_set_bits data, am')
            else if n - sd_set_bits data = 0 then Inr (set_bits + sd_set_bits data, am')
            else axmap_set_nr_loop am' (bit_nr + ucast (sd_set_bits data)) (n - sd_set_bits data)
                   (set_bits + sd_set_bits data))"
  by pat_completeness auto
termination
proof (relation "measure (\<lambda>(am, bit_nr, n, set_bits). unat n)", goal_cases)
  case (2 am bit_nr n set_bits max_bits this_set r am' data)
  have "unat (ucast (bit_nr AND 63) :: u32) < 64"
    by (simp add: word_nat)
  then have "(ucast (bit_nr AND 63) :: u32) \<noteq> 64" by auto
  then have "max_bits \<noteq> 0" using 2(1) by (simp only: right_minus_eq)
  with 2 have "this_set \<noteq> 0" "this_set \<le> n" by (auto split: if_splits)
  then have "unat (n - this_set) < unat n"
    by (simp add: unat_sub_no_wrap) (metis diff_less unat_gt_0 le_0_eq word_le_nat_alt not_gr_zero unsigned_0)
  with 2 show ?case by simp
qed simp

definition axmap_set_nr :: "axmap \<Rightarrow> u64 \<Rightarrow> u32 \<Rightarrow> (u32 \<times> axmap) res" where
  "axmap_set_nr am bit_nr n = axmap_set_nr_loop am bit_nr n 0"

declare axmap_count_levels.simps [simp del]
declare axmap_set_overlap.simps [simp del]
declare axmap_set_loop.simps [simp del]
declare axmap_set_nr_loop.simps [simp del]

section \<open>Testing\<close>

definition axmap_isset_fn :: "unit axmap_fn" where
  "axmap_isset_fn al offset b unused =
    bindr (rd (al_map al) (unat offset)) (\<lambda>w. Inr (w AND push_bit b 1 \<noteq> 0, al, unused))"

definition axmap_isset :: "axmap \<Rightarrow> u64 \<Rightarrow> bool res" where
  "axmap_isset am bit_nr =
    (if bit_nr \<le> nr_bits am
     then bindr (axmap_handler_topdown am bit_nr axmap_isset_fn ()) (\<lambda>(r, _, _). Inr r)
     else Inr False)"

section \<open>Searching\<close>

function axmap_scan :: "u64 list \<Rightarrow> nat \<Rightarrow> nat \<Rightarrow> nat option res" where
  "axmap_scan m sz j =
    (if j < sz then
       (case rd m j of
          Inl e \<Rightarrow> Inl e
        | Inr w \<Rightarrow> if w = -1 then axmap_scan m sz (Suc j) else Inr (Some j))
     else Inr None)"
  by pat_completeness auto
termination
  by (relation "measure (\<lambda>(m, sz, j). sz - j)") auto

declare axmap_scan.simps [simp del]

fun axmap_find_loop :: "axmap_level list \<Rightarrow> nat \<Rightarrow> u64 \<Rightarrow> u64 \<Rightarrow> u64 res" where
  "axmap_find_loop als 0 index ret = Inr ret"
| "axmap_find_loop als (Suc i) index ret =
    bindr (rd als i) (\<lambda>al.
      if index \<ge> map_size al then Inr (-1)
      else bindr (axmap_scan (al_map al) (unat (map_size al)) (unat index)) (\<lambda>found.
        case found of
          None \<Rightarrow> axmap_find_loop als i index ret
        | Some j \<Rightarrow>
            let v = push_bit UNIT_SHIFT (of_nat j) + of_nat (ffz (al_map al ! j))
            in axmap_find_loop als i v v))"

definition axmap_find_first_free :: "axmap \<Rightarrow> u32 \<Rightarrow> u64 \<Rightarrow> u64 res" where
  "axmap_find_first_free am lev index =
    bindr (axmap_find_loop (levels am) (Suc (unat lev)) index (-1)) (\<lambda>ret.
      Inr (if ret < nr_bits am then ret else -1))"

definition axmap_first_free :: "axmap \<Rightarrow> (u64 \<times> axmap) res" where
  "axmap_first_free am =
    (if \<not> firstfree_valid am
     then bindr (axmap_find_first_free am (of_nat (nr_levels am) - 1) 0) (\<lambda>r.
            Inr (r, am\<lparr>first_free := r\<rparr>))
     else Inr (first_free am, am))"

record axmap_next_free_data =
  nf_level :: u32
  nf_offset :: u64
  nf_bit :: u64

definition axmap_next_free_fn :: "axmap_next_free_data axmap_fn" where
  "axmap_next_free_fn al offset b data =
    bindr (rd bit_masks (unat ((nf_bit data + 1) AND BLOCKS_PER_UNIT_MASK))) (\<lambda>bm.
    bindr (rd (al_map al) (unat offset)) (\<lambda>w.
      let msk = NOT bm in
      if msk AND NOT w = 0 then Inr (False, al, data)
      else if w \<noteq> -1 then Inr (True, al, data\<lparr>nf_level := of_nat (level al), nf_offset := offset\<rparr>)
      else Inr (False, al, data\<lparr>nf_bit := (nf_bit data + 64 - 1) div 64\<rparr>)))"

definition axmap_next_free :: "axmap \<Rightarrow> u64 \<Rightarrow> (u64 \<times> axmap) res" where
  "axmap_next_free am bit_nr =
    (if firstfree_valid am \<and> bit_nr < first_free am then Inr (first_free am, am)
     else bindr (axmap_handler am bit_nr axmap_next_free_fn
                   \<lparr>nf_level = -1, nf_offset = 0, nf_bit = bit_nr\<rparr>) (\<lambda>(found, am, data).
       if \<not> found then axmap_first_free am
       else assertr (nf_level data \<noteq> -1) (
            bindr (axmap_find_first_free am (nf_level data) (nf_offset data)) (\<lambda>ret.
              if ret \<noteq> -1 then Inr (ret, am) else axmap_first_free am))))"

end
