(* ===== verification/Coverage_Map.thy ===== *)
theory Coverage_Map
  imports Fio_Prelude
begin

text \<open>
  What the offset generator of \<open>io_u.c\<close> relies on in the map of blocks already used: a query,
  an operation that marks a run of blocks and a search for a free block.  The lemmas of the
  locale are about the way the generator combines them: it takes the drawn block if that is
  free and otherwise the free block the map proposes.
\<close>

locale coverage_map =
  fixes inv :: "'m \<Rightarrow> bool"
    and nblocks :: "'m \<Rightarrow> u64"
    and taken :: "'m \<Rightarrow> nat set"
    and isset :: "'m \<Rightarrow> u64 \<Rightarrow> bool res"
    and set_nr :: "'m \<Rightarrow> u64 \<Rightarrow> u32 \<Rightarrow> (u32 \<times> 'm) res"
    and next_free :: "'m \<Rightarrow> u64 \<Rightarrow> (u64 \<times> 'm) res"
  assumes taken_bound: "inv m \<Longrightarrow> taken m \<subseteq> {..<unat (nblocks m)}"
    and nblocks_not_max: "inv m \<Longrightarrow> nblocks m \<noteq> -1"
    and isset_law: "inv m \<Longrightarrow> unat b < unat (nblocks m) \<Longrightarrow> isset m b = Inr (unat b \<in> taken m)"
    and set_nr_law: "inv m \<Longrightarrow> unat b + unat n \<le> unat (nblocks m) \<Longrightarrow> n \<noteq> 0 \<Longrightarrow>
        {unat b..<unat b + unat n} \<inter> taken m = {} \<Longrightarrow>
        \<exists>m'. set_nr m b n = Inr (n, m') \<and> inv m' \<and> nblocks m' = nblocks m \<and>
             taken m' = taken m \<union> {unat b..<unat b + unat n}"
    and next_free_law: "inv m \<Longrightarrow> unat b < unat (nblocks m) \<Longrightarrow>
        \<exists>r m'. next_free m b = Inr (r, m') \<and> inv m' \<and> nblocks m' = nblocks m \<and> taken m' = taken m \<and>
          (if r = -1 then taken m = {..<unat (nblocks m)}
           else unat r < unat (nblocks m) \<and> unat r \<notin> taken m)"
begin

text \<open>The block for the draw \<open>b\<close>: \<open>None\<close> if the search reports a full map.\<close>

definition pick :: "'m \<Rightarrow> u64 \<Rightarrow> (u64 option \<times> 'm) res" where
  "pick m b =
    bindr (isset m b) (\<lambda>busy.
      if \<not> busy then Inr (Some b, m)
      else bindr (next_free m b) (\<lambda>(r, m'). Inr (if r = -1 then None else Some r, m')))"

lemma pick_ok:
  assumes "inv m" "unat b < unat (nblocks m)"
  shows "\<exists>r m'. pick m b = Inr (r, m') \<and> inv m' \<and> nblocks m' = nblocks m \<and> taken m' = taken m \<and>
    (case r of None \<Rightarrow> taken m = {..<unat (nblocks m)}
     | Some c \<Rightarrow> unat c < unat (nblocks m) \<and> unat c \<notin> taken m)"
proof (cases "unat b \<in> taken m")
  case False
  then show ?thesis using assms by (simp add: pick_def isset_law)
next
  case True
  from next_free_law [OF assms] obtain r m' where "next_free m b = Inr (r, m')"
    "inv m'" "nblocks m' = nblocks m" "taken m' = taken m"
    "if r = -1 then taken m = {..<unat (nblocks m)} else unat r < unat (nblocks m) \<and> unat r \<notin> taken m"
    by blast
  with True show ?thesis using assms by (auto simp: pick_def isset_law)
qed

text \<open>Picking and marking one block at a time, for a list of draws.\<close>

fun draw :: "'m \<Rightarrow> u64 list \<Rightarrow> (u64 list \<times> 'm) res" where
  "draw m [] = Inr ([], m)"
| "draw m (b # bs) =
    bindr (pick m b) (\<lambda>(r, m').
      case r of
        None \<Rightarrow> Inr ([], m')
      | Some c \<Rightarrow>
          bindr (set_nr m' c 1) (\<lambda>(_, m'').
          bindr (draw m'' bs) (\<lambda>(cs, m'''). Inr (c # cs, m'''))))"

lemma taken_finite: "inv m \<Longrightarrow> finite (taken m)"
  using taken_bound finite_subset by blast

lemma set_one:
  assumes "inv m" "unat c < unat (nblocks m)" "unat c \<notin> taken m"
  shows "\<exists>m'. set_nr m c 1 = Inr (1, m') \<and> inv m' \<and> nblocks m' = nblocks m \<and>
    taken m' = insert (unat c) (taken m)"
proof -
  have "{unat c..<unat c + unat (1 :: u32)} = {unat c}" by auto
  with set_nr_law [OF assms(1), of c 1] assms(2,3) show ?thesis by auto
qed

lemma draw_step:
  assumes "inv m" "unat b < unat (nblocks m)" "taken m \<noteq> {..<unat (nblocks m)}"
  shows "\<exists>c m'. draw m (b # bs) = bindr (draw m' bs) (\<lambda>(cs, m''). Inr (c # cs, m'')) \<and>
    inv m' \<and> nblocks m' = nblocks m \<and> unat c < unat (nblocks m) \<and> unat c \<notin> taken m \<and>
    taken m' = insert (unat c) (taken m)"
proof -
  obtain r m1 where p: "pick m b = Inr (r, m1)" "inv m1" "nblocks m1 = nblocks m" "taken m1 = taken m"
    "case r of None \<Rightarrow> taken m = {..<unat (nblocks m)}
     | Some c \<Rightarrow> unat c < unat (nblocks m) \<and> unat c \<notin> taken m"
    using pick_ok [OF assms(1,2)] by blast
  with assms(3) obtain c where c: "r = Some c" "unat c < unat (nblocks m)" "unat c \<notin> taken m"
    by (cases r) auto
  with set_one [of m1 c] p obtain m2 where "set_nr m1 c 1 = Inr (1, m2)" "inv m2"
    "nblocks m2 = nblocks m" "taken m2 = insert (unat c) (taken m)" by auto
  with c p(1) show ?thesis by (intro exI [of _ c] exI [of _ m2]) simp
qed

lemma draw_ok:
  assumes "inv m" "\<forall>b\<in>set bs. unat b < unat (nblocks m)"
    and "length bs + card (taken m) = unat (nblocks m)"
  shows "\<exists>cs m'. draw m bs = Inr (cs, m') \<and> inv m' \<and> nblocks m' = nblocks m \<and>
    length cs = length bs \<and> distinct cs \<and> unat ` set cs = {..<unat (nblocks m)} - taken m \<and>
    taken m' = {..<unat (nblocks m)}"
  using assms
proof (induction bs arbitrary: m)
  case Nil
  then have "taken m = {..<unat (nblocks m)}"
    by (intro card_subset_eq) (auto simp: taken_bound)
  with Nil show ?case by simp
next
  case (Cons b bs)
  have "card (taken m) < card {..<unat (nblocks m)}" using Cons.prems(3) by simp
  then have "taken m \<noteq> {..<unat (nblocks m)}" by (metis less_irrefl)
  from draw_step [OF Cons.prems(1) _ this, of b bs] Cons.prems(2)
  obtain c m1 where s: "draw m (b # bs) = bindr (draw m1 bs) (\<lambda>(cs, m''). Inr (c # cs, m''))"
    "inv m1" "nblocks m1 = nblocks m" "unat c < unat (nblocks m)" "unat c \<notin> taken m"
    "taken m1 = insert (unat c) (taken m)" by auto
  have "length bs + card (taken m1) = unat (nblocks m1)"
    using s Cons.prems(1,3) by (simp add: taken_finite)
  with Cons.IH [OF s(2)] Cons.prems(2) s(3) obtain cs m' where
    r: "draw m1 bs = Inr (cs, m')" "inv m'" "nblocks m' = nblocks m" "length cs = length bs" "distinct cs"
    "unat ` set cs = {..<unat (nblocks m)} - taken m1" "taken m' = {..<unat (nblocks m)}" by auto
  have "c \<notin> set cs" using r(6) s(6) by auto
  moreover have "unat ` set (c # cs) = {..<unat (nblocks m)} - taken m" using r(6) s(4-6) by auto
  ultimately show ?case
    using s(1) r by (intro exI [of _ "c # cs"] exI [of _ m']) simp
qed

end

end
