(* ===== verification/Axmap_Props.thy ===== *)
theory Axmap_Props
  imports Axmap Coverage_Map
begin

text \<open>
  Invariant and correctness of the random-I/O map of \<open>Axmap\<close>.
\<close>

section \<open>Words and masks\<close>

lemma ulog64_drop_bit: "ulog64 v n = drop_bit (6 * n) v"
  by (induction v n rule: ulog64.induct) (simp_all add: drop_bit_drop_bit add.commute)

lemma unat_ulog64: "unat (ulog64 v n) = unat v div 64 ^ n"
  by (simp add: ulog64_drop_bit word_nat power_mult)

lemma length_bit_masks [simp]: "length bit_masks = 65"
  by (simp add: bit_masks_def)

lemma bit_masks_eq: "bit_masks = map mask [0..<65]"
  by (simp add: bit_masks_def upt_conv_Cons mask_eq_exp_minus_1)

lemma bit_masks_nth: "n \<le> 64 \<Longrightarrow> bit_masks ! n = mask n"
  by (simp add: bit_masks_eq del: upt_conv_Cons)

lemma bit_test: "b < 64 \<Longrightarrow> w AND push_bit b 1 = 0 \<longleftrightarrow> \<not> bit w b"
  for w :: u64
  by (auto simp: word_eq_bits bit_simps)

definition pop_count :: "'a::len word \<Rightarrow> nat" where
  "pop_count w = card {i. bit w i}"

lemma finite_bits [simp]: "finite {i. bit w i}" for w :: "'a::len word"
  by (rule finite_subset [of _ "{..<LENGTH('a)}"]) (auto dest: bit_imp_le_length)

lemma pop_count_0 [simp]: "pop_count 0 = 0"
  by (simp add: pop_count_def)

lemma pop_count_le: "pop_count w \<le> LENGTH('a)" for w :: "'a::len word"
  unfolding pop_count_def
  using card_mono [of "{..<LENGTH('a)}" "{i. bit w i}"] by (auto dest: bit_imp_le_length)

lemma pop_count_clear:
  assumes "bit w k"
  shows "pop_count w = Suc (pop_count (w AND NOT (push_bit k 1)))"
proof -
  have "{i. bit w i} = insert k {i. bit (w AND NOT (push_bit k 1)) i}"
    using assms by (auto simp: bit_simps bit_imp_le_length)
  moreover have "k \<notin> {i. bit (w AND NOT (push_bit k 1)) i}"
    using bit_imp_le_length [OF assms] by (simp add: bit_simps)
  ultimately show ?thesis by (simp add: pop_count_def)
qed

lemma pop_count_split: "pop_count w = pop_count (w AND m) + pop_count (w AND NOT m)"
proof -
  have "{i. bit w i} = {i. bit (w AND m) i} \<union> {i. bit (w AND NOT m) i}"
    by (auto simp: bit_simps bit_imp_le_length)
  moreover have "{i. bit (w AND m) i} \<inter> {i. bit (w AND NOT m) i} = {}"
    by (auto simp: bit_simps)
  ultimately show ?thesis by (simp add: pop_count_def card_Un_disjoint)
qed

definition range_mask :: "nat \<Rightarrow> nat \<Rightarrow> u64" where
  "range_mask b n = push_bit b (mask n)"

lemma bit_range_mask: "b + n \<le> 64 \<Longrightarrow> bit (range_mask b n) i \<longleftrightarrow> b \<le> i \<and> i < b + n"
  by (auto simp: range_mask_def bit_simps)

lemma pop_count_range_mask: "b + n \<le> 64 \<Longrightarrow> pop_count (range_mask b n) = n"
proof -
  assume "b + n \<le> 64"
  then have "{i. bit (range_mask b n) i} = {b..<b + n}"
    by (auto simp: bit_range_mask)
  then show ?thesis by (simp add: pop_count_def)
qed

lemma axmap_set_overlap_eq:
  "overlap AND msk = overlap \<Longrightarrow>
   axmap_set_overlap msk overlap n = (msk AND NOT overlap, n - of_nat (pop_count overlap))"
proof (induction msk overlap n rule: axmap_set_overlap.induct)
  case (1 msk overlap n)
  show ?case
  proof (cases "overlap = 0")
    case True
    then show ?thesis by (subst axmap_set_overlap.simps) simp
  next
    case False
    let ?k = "ffz (NOT overlap)"
    let ?c = "NOT (push_bit ?k 1) :: u64"
    have k: "bit overlap ?k"
      using ffs64_lowest [OF False] by (simp add: ffz_def lowest_bit_def)
    then have k64: "?k < 64" by (simp add: ffz_def ffs64_less)
    have sub: "(overlap AND ?c) AND (msk AND ?c) = overlap AND ?c"
      using "1.prems" by (auto simp: word_eq_bits bit_simps)
    have m: "(msk AND ?c) AND NOT (overlap AND ?c) = msk AND NOT overlap"
    proof (rule bit_eqI)
      fix i assume "possible_bit TYPE(u64) i"
      then show "bit ((msk AND ?c) AND NOT (overlap AND ?c)) i = bit (msk AND NOT overlap) i"
        using k k64 by (auto simp: bit_simps)
    qed
    have "axmap_set_overlap msk overlap n =
        axmap_set_overlap (msk AND ?c) (overlap AND ?c) (n - 1)"
      using False by (subst axmap_set_overlap.simps) (simp add: Let_def)
    also have "\<dots> = ((msk AND ?c) AND NOT (overlap AND ?c), n - 1 - of_nat (pop_count (overlap AND ?c)))"
      using "1.IH" [OF False refl sub] .
    also have "\<dots> = (msk AND NOT overlap, n - of_nat (pop_count overlap))"
    proof -
      have "n - 1 - of_nat (pop_count (overlap AND ?c)) = n - of_nat (Suc (pop_count (overlap AND ?c)))"
        by simp
      then show ?thesis unfolding m pop_count_clear [OF k, symmetric] by (rule arg_cong)
    qed
    finally show ?thesis .
  qed
qed

section \<open>The invariant\<close>

text \<open>
  \<open>lbit al k\<close> is bit \<open>k\<close> of a level, counted across its words.  \<open>coherent\<close> is the
  invariant of the map of maps: every level's array has the size it records, and bit \<open>k\<close>
  of a level says whether word \<open>k\<close> of the level below is full.
\<close>

definition lbit :: "axmap_level \<Rightarrow> nat \<Rightarrow> bool" where
  "lbit al k \<longleftrightarrow> bit (al_map al ! (k div 64)) (k mod 64)"

definition words_for :: "nat \<Rightarrow> nat" where
  "words_for n = (n + 63) div 64"

fun coherent :: "axmap_level list \<Rightarrow> bool" where
  "coherent [] = True"
| "coherent [a] = (length (al_map a) = unat (map_size a))"
| "coherent (a # b # ls) =
    (length (al_map a) = unat (map_size a) \<and>
     length (al_map b) = words_for (length (al_map a)) \<and>
     (\<forall>k<length (al_map a). lbit b k \<longleftrightarrow> al_map a ! k = -1) \<and>
     coherent (b # ls))"

lemma words_for_less: "k < n \<Longrightarrow> k div 64 < words_for n"
  using div_le_mono [of "k + 64" "n + 63" 64] by (simp add: words_for_def)

lemma words_for_le: "n \<le> 64 * words_for n"
proof -
  have "64 * ((n + 63) div 64) + (n + 63) mod 64 = n + 63" by simp
  moreover have "(n + 63) mod 64 < 64" by simp
  ultimately show ?thesis unfolding words_for_def by linarith
qed

definition set_word :: "axmap_level \<Rightarrow> nat \<Rightarrow> u64 \<Rightarrow> axmap_level" where
  "set_word al off w = al\<lparr>al_map := (al_map al)[off := w]\<rparr>"

lemma set_word_simps [simp]:
  "al_map (set_word al off w) = (al_map al)[off := w]"
  "map_size (set_word al off w) = map_size al"
  "level (set_word al off w) = level al"
  by (simp_all add: set_word_def)

lemma set_word_same: "set_word al off (al_map al ! off) = al"
  by (simp add: set_word_def)

lemma lbit_set_word:
  "off < length (al_map al) \<Longrightarrow>
   lbit (set_word al off w) k \<longleftrightarrow> (if k div 64 = off then bit w (k mod 64) else lbit al k)"
  by (auto simp: lbit_def nth_list_update)

text \<open>
  Replacing one word of the bottom level keeps the invariant if the level above is told
  exactly when the word's fullness changes.
\<close>

lemma coherent_Cons_lengthD: "coherent (a # ls) \<Longrightarrow> length (al_map a) = unat (map_size a)"
  by (cases ls) auto

lemma coherent_set_word_same_fullness:
  assumes "coherent (a # ls)" "off < length (al_map a)" "(w = -1) = (al_map a ! off = -1)"
  shows "coherent (set_word a off w # ls)"
  using assms by (cases ls) (auto simp: nth_list_update)

lemma coherent_tl: "coherent (a # ls) \<Longrightarrow> coherent ls"
  by (cases ls) auto

lemma coherent_set_word_update:
  assumes "coherent (a # b # ls)" "off < length (al_map a)"
    and "coherent (b' # ls')" "length (al_map b') = length (al_map b)"
    and "\<And>k. k < length (al_map a) \<Longrightarrow> lbit b' k = (if k = off then w = -1 else lbit b k)"
  shows "coherent (set_word a off w # b' # ls')"
  using assms by (auto simp: nth_list_update)

section \<open>Setting bits\<close>

lemma mask_facts:
  fixes w m :: u64
  shows "m AND NOT (w AND m) = m AND NOT w" "(w AND m) AND m = w AND m"
    "w AND (m AND NOT w) = 0" "w OR (m AND NOT w) = w OR m"
    "m AND NOT w = 0 \<longleftrightarrow> w AND m = m"
  by (auto simp: word_eq_bits bit_simps)

lemma mask_sub_or:
  fixes w m :: u64
  assumes "w AND m = m"
  shows "w OR m = w"
  using assms by (auto simp: word_eq_bits bit_simps)

lemma axmap_set_overlap_range:
  assumes "b + N \<le> 64" "unat n = N"
  shows "axmap_set_overlap (range_mask b N) (w AND range_mask b N) n =
    (range_mask b N AND NOT w, of_nat (pop_count (range_mask b N AND NOT w)))"
proof -
  let ?m = "range_mask b N"
  have split: "N = pop_count (?m AND w) + pop_count (?m AND NOT w)"
    using pop_count_range_mask [OF assms(1)] pop_count_split [of ?m w] by simp
  have "n = of_nat N" using assms(2) [symmetric] by simp
  also have "\<dots> = of_nat (pop_count (?m AND w)) + of_nat (pop_count (?m AND NOT w))"
    by (subst split) simp
  finally have "n - of_nat (pop_count (w AND ?m)) = of_nat (pop_count (?m AND NOT w))"
    by (simp add: and.commute)
  moreover have "axmap_set_overlap ?m (w AND ?m) n =
      (?m AND NOT (w AND ?m), n - of_nat (pop_count (w AND ?m)))"
    by (rule axmap_set_overlap_eq) (rule mask_facts)
  ultimately show ?thesis by (simp only: mask_facts)
qed

lemma axmap_set_fn_eq:
  fixes d :: axmap_set_data
  assumes off: "unat off < length (al_map al)" and b: "b < 64"
    and m: "m = range_mask b (min (unat (sd_nr_bits d)) (64 - b))"
    and w: "w = al_map al ! unat off"
  shows "axmap_set_fn al off b d =
    (if w AND m = m then Inr (True, al, d)
     else Inr (w OR m \<noteq> -1, set_word al (unat off) (w OR m),
       (if level al = 0 then d\<lparr>sd_set_bits := of_nat (pop_count (m AND NOT w))\<rparr> else d)
         \<lparr>sd_nr_bits := 1\<rparr>))"
proof -
  define n where "n = min (sd_nr_bits d) (64 - of_nat b)"
  define N where "N = min (unat (sd_nr_bits d)) (64 - b)"
  have "unat (64 - of_nat b :: u32) = 64 - b"
    using b by (simp add: unat_sub_no_wrap word_le_nat_alt unat_of_nat)
  then have N: "unat n = N"
    by (simp add: n_def N_def min_def word_le_nat_alt)
  have le: "b + N \<le> 64" and N64: "N \<le> 64" using b by (simp_all add: N_def)
  have m': "m = range_mask b N" by (simp only: m N_def)
  have mp: "push_bit b (bit_masks ! N) = m"
    using N64 by (simp only: m' range_mask_def bit_masks_nth)
  have bm: "rd bit_masks N = Inr (bit_masks ! N)" using N64 by simp
  have rw: "rd (al_map al) (unat off) = Inr w"
    and ww: "\<And>v. wr (al_map al) (unat off) v = Inr ((al_map al)[unat off := v])"
    using off by (simp_all add: w)
  have ov: "axmap_set_overlap m (w AND m) n = (m AND NOT w, of_nat (pop_count (m AND NOT w)))"
    unfolding m' by (rule axmap_set_overlap_range [OF le N])
  have z: "(m AND NOT w \<noteq> 0) = (w AND m \<noteq> m)" by (simp only: mask_facts(5))
  show ?thesis
  proof (cases "w AND m = m")
    case True
    show ?thesis
      unfolding axmap_set_fn_def Let_def n_def [symmetric] N bm bindr_simps rw mp True
      by (simp only: if_True simp_thms)
  next
    case False
    show ?thesis
      unfolding axmap_set_fn_def Let_def n_def [symmetric] N bm bindr_simps rw mp ov split ww
        mask_facts(3,4) z
      by (simp only: False if_False simp_thms assertr_simps bindr_simps set_word_def)
  qed
qed

text \<open>Where level \<open>i\<close> keeps bit \<open>v\<close>: word \<open>lev_off v i\<close>, bit \<open>lev_bit v i\<close> of it.\<close>

definition lev_off :: "u64 \<Rightarrow> nat \<Rightarrow> nat" where
  "lev_off v i = unat v div 64 ^ Suc i"

definition lev_bit :: "u64 \<Rightarrow> nat \<Rightarrow> nat" where
  "lev_bit v i = unat v div 64 ^ i mod 64"

lemma lev_bit_less [simp]: "lev_bit v i < 64"
  by (simp add: lev_bit_def)

lemma lev_bit_le: "lev_bit v i \<le> 63"
  using lev_bit_less [of v i] by linarith

lemma lev_off_Suc: "lev_off v (Suc i) = lev_off v i div 64"
  unfolding lev_off_def by (simp only: power_Suc2 div_mult2_eq)

lemma lev_bit_Suc: "lev_bit v (Suc i) = lev_off v i mod 64"
  by (simp add: lev_off_def lev_bit_def)

lemma unat_offset: "unat (drop_bit 6 (ulog64 v i)) = lev_off v i"
  unfolding lev_off_def by (simp only: word_nat unat_ulog64 power_Suc2 div_mult2_eq) simp

lemma unat_index_bit: "unat (ulog64 v i AND 63) = lev_bit v i"
  by (simp add: word_nat unat_ulog64 lev_bit_def)

lemma handler_from_Cons:
  "axmap_handler_from i (al # als) v f d =
    bindr (f al (drop_bit 6 (ulog64 v i)) (lev_bit v i) d) (\<lambda>(stop, al', d').
      if stop then Inr (True, al' # als, d')
      else bindr (axmap_handler_from (Suc i) als v f d') (\<lambda>(r, als', d). Inr (r, al' # als', d)))"
  by (simp add: Let_def unat_index_bit)

declare axmap_handler_from.simps(2) [simp del]

definition set_mask :: "nat \<Rightarrow> u32 \<Rightarrow> u64" where
  "set_mask b n = range_mask b (min (unat n) (64 - b))"

lemma bit_set_mask: "b < 64 \<Longrightarrow> bit (set_mask b n) i \<longleftrightarrow> b \<le> i \<and> i < min (b + unat n) 64"
  by (auto simp: set_mask_def bit_range_mask)

lemma lbit_set_one:
  assumes "off div 64 < length (al_map b)" "w = al_map b ! (off div 64)"
  shows "lbit (set_word b (off div 64) (w OR set_mask (off mod 64) 1)) k = (if k = off then True else lbit b k)"
proof (cases "k div 64 = off div 64")
  case True
  then have "(k mod 64 = off mod 64) = (k = off)"
    by (metis mult_div_mod_eq)
  with True assms show ?thesis
    by (auto simp: lbit_set_word bit_simps bit_set_mask lbit_def)
next
  case False
  with assms show ?thesis by (auto simp: lbit_set_word)
qed

lemma axmap_set_handler:
  assumes "coherent (a # ls)" "lev_off v i < length (al_map a)" "\<forall>al\<in>set ls. level al \<noteq> 0"
    and "w = al_map a ! lev_off v i" "m = set_mask (lev_bit v i) (sd_nr_bits d)"
  shows "\<exists>stop ls' d'.
    axmap_handler_from i (a # ls) v axmap_set_fn d =
      Inr (stop, set_word a (lev_off v i) (w OR m) # ls', d') \<and>
    coherent (set_word a (lev_off v i) (w OR m) # ls') \<and>
    map level ls' = map level ls \<and> map map_size ls' = map map_size ls \<and>
    sd_set_bits d' = (if level a = 0 \<and> w AND m \<noteq> m
      then of_nat (pop_count (m AND NOT w)) else sd_set_bits d)"
  using assms
proof (induction ls arbitrary: a i d w m)
  case (Nil a i d w m)
  then show ?case
    using axmap_set_fn_eq [of "drop_bit 6 (ulog64 v i)" a "lev_bit v i" m d w] mask_sub_or [of w m]
    by (cases "w AND m = m")
       (auto simp: handler_from_Cons unat_offset set_mask_def set_word_same)
next
  case (Cons b ls a i d w m)
  let ?off = "lev_off v i"
  let ?a' = "set_word a ?off (w OR m)"
  have fn: "axmap_set_fn a (drop_bit 6 (ulog64 v i)) (lev_bit v i) d =
    (if w AND m = m then Inr (True, a, d)
     else Inr (w OR m \<noteq> -1, ?a',
       (if level a = 0 then d\<lparr>sd_set_bits := of_nat (pop_count (m AND NOT w))\<rparr> else d)\<lparr>sd_nr_bits := 1\<rparr>))"
    using axmap_set_fn_eq [of "drop_bit 6 (ulog64 v i)" a "lev_bit v i" m d w] Cons.prems
    by (simp add: unat_offset set_mask_def)
  show ?case
  proof (cases "w AND m = m \<or> w OR m \<noteq> -1")
    case True
    have "coherent (?a' # b # ls)"
    proof (rule coherent_set_word_same_fullness [OF Cons.prems(1,2)])
      show "(w OR m = -1) = (al_map a ! ?off = -1)"
        using True mask_sub_or [of w m] Cons.prems(4) by auto
    qed
    with True show ?thesis
      using mask_sub_or [of w m] Cons.prems(4)
      by (auto simp: handler_from_Cons [of i a] fn set_word_same)
  next
    case False
    define d1 where "d1 =
      (if level a = 0 then d\<lparr>sd_set_bits := of_nat (pop_count (m AND NOT w))\<rparr> else d)\<lparr>sd_nr_bits := 1\<rparr>"
    let ?w' = "al_map b ! lev_off v (Suc i)" and ?m' = "set_mask (lev_bit v (Suc i)) (sd_nr_bits d1)"
    let ?b' = "set_word b (lev_off v (Suc i)) (?w' OR ?m')"
    have lenb: "length (al_map b) = words_for (length (al_map a))" and cb: "coherent (b # ls)"
      using Cons.prems(1) by auto
    have offb: "lev_off v (Suc i) < length (al_map b)"
      using words_for_less [OF Cons.prems(2)] by (simp only: lenb lev_off_Suc)
    have nl: "\<forall>al\<in>set ls. level al \<noteq> 0" and lb: "level b \<noteq> 0"
      using Cons.prems(3) by auto
    obtain stop ls' d' where IH:
      "axmap_handler_from (Suc i) (b # ls) v axmap_set_fn d1 = Inr (stop, ?b' # ls', d')"
      "coherent (?b' # ls')" "map level ls' = map level ls" "map map_size ls' = map map_size ls"
      "sd_set_bits d' = sd_set_bits d1"
      using Cons.IH [OF cb offb nl refl refl, of d1] lb by auto
    have m1: "?m' = set_mask (?off mod 64) 1" by (simp add: d1_def lev_bit_Suc)
    have off': "?off div 64 < length (al_map b)" using offb by (simp add: lev_off_Suc)
    have "lbit ?b' k = (if k = ?off then w OR m = -1 else lbit b k)" for k
      using lbit_set_one [OF off' refl, of k] False unfolding m1 lev_off_Suc by simp
    then have "coherent (?a' # ?b' # ls')"
      by (intro coherent_set_word_update [OF Cons.prems(1,2) IH(2)]) simp_all
    moreover have "axmap_handler_from i (a # b # ls) v axmap_set_fn d = Inr (stop, ?a' # ?b' # ls', d')"
      using False by (simp add: handler_from_Cons [of i a] fn IH(1) flip: d1_def)
    moreover have "sd_set_bits d' = (if level a = 0 \<and> w AND m \<noteq> m
        then of_nat (pop_count (m AND NOT w)) else sd_set_bits d)"
      using False IH(5) by (simp add: d1_def)
    ultimately show ?thesis using IH(3,4) by fastforce
  qed
qed

lemma axmap_set_handler_covered:
  assumes "lev_off v i < length (al_map a)"
    and "al_map a ! lev_off v i AND set_mask (lev_bit v i) (sd_nr_bits d) = set_mask (lev_bit v i) (sd_nr_bits d)"
  shows "axmap_handler_from i (a # ls) v axmap_set_fn d = Inr (True, a # ls, d)"
  using axmap_set_fn_eq [of "drop_bit 6 (ulog64 v i)" a "lev_bit v i" _ d] assms
  by (simp add: handler_from_Cons unat_offset set_mask_def)

section \<open>The abstract state: the set of used blocks\<close>

definition used :: "axmap \<Rightarrow> nat set" where
  "used am = {k. k < unat (nr_bits am) \<and> lbit (hd (levels am)) k}"

definition axmap_shape :: "axmap \<Rightarrow> bool" where
  "axmap_shape am \<longleftrightarrow>
    levels am \<noteq> [] \<and> nr_levels am = length (levels am) \<and> nr_levels am \<le> 64 \<and>
    map level (levels am) = [0..<length (levels am)] \<and>
    coherent (levels am) \<and>
    length (al_map (hd (levels am))) = words_for (unat (nr_bits am)) \<and>
    0 < unat (nr_bits am) \<and> unat (nr_bits am) + 63 < 2 ^ 64"

definition axmap_inv :: "axmap \<Rightarrow> bool" where
  "axmap_inv am \<longleftrightarrow> axmap_shape am \<and>
    (first_free am \<noteq> -1 \<longrightarrow>
       unat (first_free am) < unat (nr_bits am) \<and> unat (first_free am) \<notin> used am)"

lemma shapeE:
  assumes "axmap_shape am"
  obtains a ls where "levels am = a # ls" "level a = 0" "\<forall>al\<in>set ls. level al \<noteq> 0"
    "coherent (a # ls)" "length (al_map a) = words_for (unat (nr_bits am))"
proof (cases "levels am")
  case Nil
  with assms show ?thesis by (simp add: axmap_shape_def)
next
  case (Cons a ls)
  have "map level (a # ls) = 0 # [1..<Suc (length ls)]"
    using assms Cons by (simp add: axmap_shape_def upt_rec del: upt_Suc)
  then have "level a = 0" and l: "map level ls = [1..<Suc (length ls)]" by auto
  have "\<forall>x\<in>set (map level ls). x \<noteq> 0" unfolding l by auto
  then have "\<forall>al\<in>set ls. level al \<noteq> 0" by auto
  with that Cons assms \<open>level a = 0\<close> show ?thesis by (auto simp: axmap_shape_def)
qed

lemma used_subset: "used am \<subseteq> {..<unat (nr_bits am)}"
  by (auto simp: used_def)

lemma first_level_off:
  assumes "unat v < unat (nr_bits am)" "length (al_map a) = words_for (unat (nr_bits am))"
  shows "lev_off v 0 < length (al_map a)"
  using assms words_for_less by (simp add: lev_off_def)

lemma lbit_set_range:
  assumes "lev_off v 0 < length (al_map a)" "lev_bit v 0 + unat t \<le> 64"
  shows "lbit (set_word a (lev_off v 0) (al_map a ! lev_off v 0 OR set_mask (lev_bit v 0) t)) k
    \<longleftrightarrow> lbit a k \<or> (unat v \<le> k \<and> k < unat v + unat t)"
proof (cases "k div 64 = lev_off v 0")
  case True
  have v: "unat v = 64 * lev_off v 0 + lev_bit v 0" by (simp add: lev_off_def lev_bit_def)
  have k: "k = 64 * lev_off v 0 + k mod 64" using True by (metis mult_div_mod_eq)
  have "bit (set_mask (lev_bit v 0) t) (k mod 64) \<longleftrightarrow> lev_bit v 0 \<le> k mod 64 \<and> k mod 64 < lev_bit v 0 + unat t"
    using assms(2) by (auto simp: bit_set_mask)
  also have "\<dots> \<longleftrightarrow> unat v \<le> k \<and> k < unat v + unat t"
    using v k by linarith
  finally show ?thesis
    using True assms by (auto simp: lbit_set_word bit_simps lbit_def)
next
  case False
  have v: "unat v = 64 * lev_off v 0 + lev_bit v 0" by (simp add: lev_off_def lev_bit_def)
  have k: "k = 64 * (k div 64) + k mod 64" and "k mod 64 < 64" by simp_all
  then have "\<not> (unat v \<le> k \<and> k < unat v + unat t)"
    using False v assms(2) by linarith
  with False assms show ?thesis by (auto simp: lbit_set_word)
qed

text \<open>One walk of \<open>axmap_handler\<close> with \<open>axmap_set_fn\<close>, on the abstract state.\<close>

lemma axmap_set_walk:
  assumes sh: "axmap_shape am" and v: "unat v + unat (sd_nr_bits d) \<le> unat (nr_bits am)"
    and t: "lev_bit v 0 + unat (sd_nr_bits d) \<le> 64" and pos: "sd_nr_bits d \<noteq> 0"
  shows "\<exists>stop ls d'. axmap_handler am v axmap_set_fn d = Inr (stop, am\<lparr>levels := ls\<rparr>, d') \<and>
    axmap_shape (am\<lparr>levels := ls\<rparr>) \<and>
    used (am\<lparr>levels := ls\<rparr>) = used am \<union> {unat v..<unat v + unat (sd_nr_bits d)} \<and>
    unat (sd_set_bits d') \<le> max (unat (sd_nr_bits d)) (unat (sd_set_bits d)) \<and>
    (used am \<inter> {unat v..<unat v + unat (sd_nr_bits d)} = {} \<longrightarrow> sd_set_bits d' = sd_nr_bits d)"
proof -
  obtain a ls where als: "levels am = a # ls" and l0: "level a = 0" "\<forall>al\<in>set ls. level al \<noteq> 0"
    and coh: "coherent (a # ls)" and len: "length (al_map a) = words_for (unat (nr_bits am))"
    by (rule shapeE [OF sh])
  let ?t = "sd_nr_bits d"
  let ?off = "lev_off v 0" and ?m = "set_mask (lev_bit v 0) ?t"
  let ?w = "al_map a ! ?off"
  let ?a' = "set_word a ?off (?w OR ?m)"
  have "0 < unat ?t" using pos by (simp add: unat_gt_0)
  with v have "unat v < unat (nr_bits am)" by linarith
  then have off: "?off < length (al_map a)" by (rule first_level_off) (rule len)
  obtain stop ls' d' where H: "axmap_handler_from 0 (a # ls) v axmap_set_fn d = Inr (stop, ?a' # ls', d')"
    "coherent (?a' # ls')" "map level ls' = map level ls" "map map_size ls' = map map_size ls"
    "sd_set_bits d' = (if level a = 0 \<and> ?w AND ?m \<noteq> ?m
      then of_nat (pop_count (?m AND NOT ?w)) else sd_set_bits d)"
    using axmap_set_handler [OF coh off l0(2) refl refl] by blast
  have lls: "length ls' = length ls" using H(3) by (metis length_map)
  have "axmap_handler am v axmap_set_fn d = Inr (stop, am\<lparr>levels := ?a' # ls'\<rparr>, d')"
    by (simp add: axmap_handler_def als H(1))
  moreover have "axmap_shape (am\<lparr>levels := ?a' # ls'\<rparr>)"
    using sh H(2,3) lls unfolding axmap_shape_def als by (simp del: upt_Suc coherent.simps)
  moreover have "used (am\<lparr>levels := ?a' # ls'\<rparr>) = used am \<union> {unat v..<unat v + unat ?t}"
    unfolding used_def als using v
    by (intro set_eqI) (auto simp add: lbit_set_range [OF off t])
  moreover have pm: "pop_count ?m = unat ?t"
    using t by (simp add: set_mask_def pop_count_range_mask)
  have pc: "pop_count (?m AND NOT ?w) \<le> unat ?t"
    using pop_count_split [of ?m ?w] pm by linarith
  then have "unat (of_nat (pop_count (?m AND NOT ?w)) :: u32) \<le> unat ?t"
    by (simp only: unat_of_nat) (rule le_trans [OF mod_less_eq_dividend])
  then have "unat (sd_set_bits d') \<le> max (unat ?t) (unat (sd_set_bits d))"
    unfolding H(5) by auto
  moreover have "sd_set_bits d' = ?t" if dis: "used am \<inter> {unat v..<unat v + unat ?t} = {}"
  proof -
    have "?m AND ?w = 0"
    proof -
      have "\<not> (bit ?m j \<and> bit ?w j)" for j
      proof
        assume j: "bit ?m j \<and> bit ?w j"
        then have "lev_bit v 0 \<le> j" "j < lev_bit v 0 + unat ?t" and j64: "j < 64"
          using t by (auto simp: bit_set_mask)
        moreover have "unat v = 64 * ?off + lev_bit v 0" by (simp add: lev_off_def lev_bit_def)
        ultimately have r: "64 * ?off + j \<in> {unat v..<unat v + unat ?t}" by simp
        then have "64 * ?off + j < unat (nr_bits am)" using v by simp
        moreover have "lbit a (64 * ?off + j)" using j j64 by (simp add: lbit_def)
        ultimately have "64 * ?off + j \<in> used am" by (simp add: used_def als)
        with r dis show False by blast
      qed
      then show ?thesis by (auto simp: word_eq_bits bit_simps)
    qed
    then have "pop_count (?m AND NOT ?w) = unat ?t"
      using pop_count_split [of ?m ?w] pm by simp
    moreover have "?w AND ?m \<noteq> ?m"
      using \<open>?m AND ?w = 0\<close> pm \<open>0 < unat ?t\<close> by (metis and.commute less_irrefl pop_count_0)
    ultimately show ?thesis by (simp add: H(5) l0)
  qed
  ultimately show ?thesis by blast
qed

lemma axmap_set_walk_covered:
  assumes sh: "axmap_shape am" and v: "unat v + unat (sd_nr_bits d) \<le> unat (nr_bits am)"
    and t: "lev_bit v 0 + unat (sd_nr_bits d) \<le> 64" and pos: "sd_nr_bits d \<noteq> 0"
    and cov: "{unat v..<unat v + unat (sd_nr_bits d)} \<subseteq> used am"
  shows "axmap_handler am v axmap_set_fn d = Inr (True, am, d)"
proof -
  obtain a ls where als: "levels am = a # ls"
    and len: "length (al_map a) = words_for (unat (nr_bits am))"
    by (rule shapeE [OF sh])
  let ?t = "sd_nr_bits d" and ?off = "lev_off v 0"
  let ?m = "set_mask (lev_bit v 0) ?t"
  let ?w = "al_map a ! ?off"
  have "0 < unat ?t" using pos by (simp add: unat_gt_0)
  with v have "unat v < unat (nr_bits am)" by linarith
  then have off: "?off < length (al_map a)" by (rule first_level_off) (rule len)
  have "bit ?w j" if "bit ?m j" for j
  proof -
    from that have "lev_bit v 0 \<le> j" "j < lev_bit v 0 + unat ?t" and j64: "j < 64"
      using t by (auto simp: bit_set_mask)
    moreover have "unat v = 64 * ?off + lev_bit v 0" by (simp add: lev_off_def lev_bit_def)
    ultimately have "64 * ?off + j \<in> used am" using cov by auto
    then show ?thesis using j64 by (simp add: used_def als lbit_def)
  qed
  then have "?w AND ?m = ?m" by (auto simp: word_eq_bits bit_simps)
  then show ?thesis
    using axmap_set_handler_covered [OF off] als by (simp add: axmap_handler_def)
qed

lemma axmap_set_loop_word:
  assumes sh: "axmap_shape am" and v: "unat v + unat t \<le> unat (nr_bits am)"
    and t: "lev_bit v 0 + unat t \<le> 64" and pos: "t \<noteq> 0"
    and d: "sd_nr_bits d = t" "sd_set_bits d = 0"
  shows "\<exists>ls d'. axmap_set_loop am v t d 0 = Inr (am\<lparr>levels := ls\<rparr>, d') \<and>
    axmap_shape (am\<lparr>levels := ls\<rparr>) \<and>
    used (am\<lparr>levels := ls\<rparr>) = used am \<union> {unat v..<unat v + unat t} \<and>
    (used am \<inter> {unat v..<unat v + unat t} = {} \<longrightarrow> sd_set_bits d' = t)"
proof -
  obtain stop ls d1 where W: "axmap_handler am v axmap_set_fn d = Inr (stop, am\<lparr>levels := ls\<rparr>, d1)"
    and sh1: "axmap_shape (am\<lparr>levels := ls\<rparr>)"
    and us1: "used (am\<lparr>levels := ls\<rparr>) = used am \<union> {unat v..<unat v + unat t}"
    and sle: "unat (sd_set_bits d1) \<le> unat t"
    and free: "used am \<inter> {unat v..<unat v + unat t} = {} \<longrightarrow> sd_set_bits d1 = t"
    using axmap_set_walk [OF sh, of v d] v t pos d by auto
  define s where "s = sd_set_bits d1"
  have nz: "(t = 0) = False" using pos by simp
  have step: "axmap_set_loop am v t d 0 =
      (if s = 0 \<or> s \<noteq> 64 - t then Inr (am\<lparr>levels := ls\<rparr>, d1\<lparr>sd_set_bits := s\<rparr>)
       else axmap_set_loop (am\<lparr>levels := ls\<rparr>) (v + ucast s) (t - s) (d1\<lparr>sd_nr_bits := t - s\<rparr>) s)"
    by (subst axmap_set_loop.simps) (simp add: W nz s_def)
  show ?thesis
  proof (cases "s = 0 \<or> s \<noteq> 64 - t")
    case True
    then have "axmap_set_loop am v t d 0 = Inr (am\<lparr>levels := ls\<rparr>, d1\<lparr>sd_set_bits := s\<rparr>)"
      by (simp only: step if_True)
    moreover have "sd_set_bits (d1\<lparr>sd_set_bits := s\<rparr>) = s" by simp
    ultimately show ?thesis using sh1 us1 free unfolding s_def by blast
  next
    case False
    then have s0: "s \<noteq> 0" and s64: "s = 64 - t" by auto
    show ?thesis
    proof (cases "t - s = 0")
      case True
      then have "axmap_set_loop (am\<lparr>levels := ls\<rparr>) (v + ucast s) (t - s) (d1\<lparr>sd_nr_bits := t - s\<rparr>) s =
          Inr (am\<lparr>levels := ls\<rparr>, d1\<lparr>sd_nr_bits := t - s, sd_set_bits := s\<rparr>)"
        by (subst axmap_set_loop.simps) simp
      then have "axmap_set_loop am v t d 0 = Inr (am\<lparr>levels := ls\<rparr>, d1\<lparr>sd_nr_bits := t - s, sd_set_bits := s\<rparr>)"
        using False by (simp only: step if_False)
      moreover have "sd_set_bits (d1\<lparr>sd_nr_bits := t - s, sd_set_bits := s\<rparr>) = s" by simp
      ultimately show ?thesis using sh1 us1 free unfolding s_def by blast
    next
      case rest: False
      have le: "s \<le> t" using sle by (simp add: s_def word_le_nat_alt)
      have ts: "unat (t - s) = unat t - unat s" using le by (rule unat_sub_no_wrap)
      have vs: "unat (v + ucast s) = unat v + unat s"
      proof (subst unat_add_no_wrap)
        have "unat v + unat s \<le> unat (nr_bits am)" using v sle by (simp add: s_def)
        then show "unat v + unat (ucast s :: u64) < 2 ^ LENGTH(64)"
          using unat_u64_less [of "nr_bits am"] by simp
      qed simp
      have "unat s < unat t" using rest le by (metis le_neq_implies_less right_minus_eq word_le_nat_alt word_unat_eq_iff)
      then have lb: "lev_bit (v + ucast s) 0 = lev_bit v 0 + unat s"
        using t mod_add_below [of "unat v" 64 "unat s"] by (simp add: lev_bit_def vs)
      have "axmap_handler (am\<lparr>levels := ls\<rparr>) (v + ucast s) axmap_set_fn (d1\<lparr>sd_nr_bits := t - s\<rparr>)
          = Inr (True, am\<lparr>levels := ls\<rparr>, d1\<lparr>sd_nr_bits := t - s\<rparr>)"
      proof (rule axmap_set_walk_covered [OF sh1])
        show "{unat (v + ucast s)..<unat (v + ucast s) + unat (sd_nr_bits (d1\<lparr>sd_nr_bits := t - s\<rparr>))}
            \<subseteq> used (am\<lparr>levels := ls\<rparr>)"
          unfolding us1 vs using \<open>unat s < unat t\<close> by (intro le_supI2) (simp add: ts)
      qed (use v t rest \<open>unat s < unat t\<close> in \<open>simp_all add: vs ts lb\<close>)
      moreover have "64 - (t - s) \<noteq> s" using s64 s0 by (simp add: algebra_simps)
      ultimately have "axmap_set_loop (am\<lparr>levels := ls\<rparr>) (v + ucast s) (t - s) (d1\<lparr>sd_nr_bits := t - s\<rparr>) s =
          Inr (am\<lparr>levels := ls\<rparr>, d1\<lparr>sd_nr_bits := t - s, sd_set_bits := s + s\<rparr>)"
        using rest by (subst axmap_set_loop.simps) (simp add: s_def)
      moreover have "used am \<inter> {unat v..<unat v + unat t} \<noteq> {}"
        using free rest by (auto simp: s_def)
      moreover have "axmap_set_loop am v t d 0 =
          axmap_set_loop (am\<lparr>levels := ls\<rparr>) (v + ucast s) (t - s) (d1\<lparr>sd_nr_bits := t - s\<rparr>) s"
        using False by (simp only: step if_False)
      ultimately show ?thesis using sh1 us1 by metis
    qed
  qed
qed

lemma first_free_irrelevant [simp]:
  "used (am\<lparr>first_free := x\<rparr>) = used am"
  "axmap_shape (am\<lparr>first_free := x\<rparr>) = axmap_shape am"
  by (simp_all add: used_def axmap_shape_def)

lemma axmap_set_internal_word:
  assumes inv: "axmap_inv am" and v: "unat v + unat t \<le> unat (nr_bits am)"
    and t: "lev_bit v 0 + unat t \<le> 64" and pos: "t \<noteq> 0"
  shows "\<exists>am' d'. axmap_set_internal am v \<lparr>sd_nr_bits = t, sd_set_bits = 0\<rparr> = Inr (am', d') \<and>
    axmap_inv am' \<and> nr_bits am' = nr_bits am \<and>
    used am' = used am \<union> {unat v..<unat v + unat t} \<and>
    (used am \<inter> {unat v..<unat v + unat t} = {} \<longrightarrow> sd_set_bits d' = t)"
proof -
  have sh: "axmap_shape am" using inv by (simp add: axmap_inv_def)
  define hit where "hit \<longleftrightarrow> first_free am \<ge> v \<and> first_free am < v + ucast t"
  define am1 where "am1 = (if hit then am\<lparr>first_free := -1\<rparr> else am)"
  have vt: "unat (v + ucast t) = unat v + unat t"
    using v unat_u64_less [of "nr_bits am"] by (subst unat_add_no_wrap) simp_all
  have am1: "axmap_shape am1" "used am1 = used am" "nr_bits am1 = nr_bits am"
    using sh by (simp_all add: am1_def)
  obtain ls d' where L: "axmap_set_loop am1 v t \<lparr>sd_nr_bits = t, sd_set_bits = 0\<rparr> 0 = Inr (am1\<lparr>levels := ls\<rparr>, d')"
    "axmap_shape (am1\<lparr>levels := ls\<rparr>)"
    "used (am1\<lparr>levels := ls\<rparr>) = used am \<union> {unat v..<unat v + unat t}"
    "used am \<inter> {unat v..<unat v + unat t} = {} \<longrightarrow> sd_set_bits d' = t"
    using axmap_set_loop_word [OF am1(1), of v t "\<lparr>sd_nr_bits = t, sd_set_bits = 0\<rparr>"] v t pos am1 by auto
  have "axmap_set_internal am v \<lparr>sd_nr_bits = t, sd_set_bits = 0\<rparr> = Inr (am1\<lparr>levels := ls\<rparr>, d')"
  proof -
    have "\<not> v > nr_bits am1" "\<not> v + ucast t > nr_bits am1"
      using v vt by (simp_all add: am1 word_less_nat_alt)
    then show ?thesis
      unfolding axmap_set_internal_def Let_def axmap_set_data.simps hit_def [symmetric] am1_def [symmetric]
      by (simp only: if_False L(1))
  qed
  moreover have "axmap_inv (am1\<lparr>levels := ls\<rparr>)"
  proof (cases hit)
    case True
    then show ?thesis using L(2) by (simp add: axmap_inv_def am1_def)
  next
    case False
    then have "unat (first_free am) \<notin> {unat v..<unat v + unat t}"
      using vt by (auto simp: hit_def word_less_nat_alt word_le_nat_alt)
    with False inv L(2,3) show ?thesis by (simp add: axmap_inv_def am1_def)
  qed
  ultimately show ?thesis using L(3,4) am1(3) by auto
qed

text \<open>\<open>axmap_set\<close> adds one block.\<close>

lemma axmap_set_ok:
  assumes inv: "axmap_inv am" and v: "unat v < unat (nr_bits am)"
  shows "\<exists>am'. axmap_set am v = Inr am' \<and> axmap_inv am' \<and> nr_bits am' = nr_bits am \<and>
    used am' = insert (unat v) (used am)"
proof -
  have "{unat v..<unat v + unat (1 :: u32)} = {unat v}" by auto
  moreover have "lev_bit v 0 + unat (1 :: u32) \<le> 64"
    using lev_bit_le [of v 0] by simp
  ultimately show ?thesis
    using axmap_set_internal_word [OF inv, of v 1] v by (auto simp: axmap_set_def)
qed

text \<open>
  \<open>axmap_set_nr\<close> works word by word.  Whatever the map holds, it only adds blocks of the
  requested run; if the whole run is free, it adds all of it and reports its full length.
\<close>

lemma axmap_set_nr_loop_ok:
  assumes "axmap_inv am" "unat v + unat n \<le> unat (nr_bits am)" "n \<noteq> 0"
  shows "\<exists>r am'. axmap_set_nr_loop am v n sb = Inr (r, am') \<and> axmap_inv am' \<and> nr_bits am' = nr_bits am \<and>
    used am \<subseteq> used am' \<and> used am' \<subseteq> used am \<union> {unat v..<unat v + unat n} \<and>
    (used am \<inter> {unat v..<unat v + unat n} = {} \<longrightarrow>
       r = sb + n \<and> used am' = used am \<union> {unat v..<unat v + unat n})"
  using assms
proof (induction am v n sb rule: axmap_set_nr_loop.induct)
  case (1 am v n sb)
  define mx :: u32 where "mx = 64 - ucast (v AND 63)"
  define t where "t = (if mx < n then mx else n)"
  have lb: "unat (ucast (v AND 63) :: u32) = lev_bit v 0"
    by (simp add: word_nat lev_bit_def)
  then have mx: "unat mx = 64 - lev_bit v 0"
    unfolding mx_def using lev_bit_le [of v 0] by (subst unat_sub_no_wrap) (simp_all add: word_le_nat_alt less_imp_le)
  have mx0: "0 < unat mx" using mx lev_bit_le [of v 0] by simp
  have t: "lev_bit v 0 + unat t \<le> 64" "unat t \<le> unat n" "t \<noteq> 0"
    using mx mx0 lev_bit_le [of v 0] "1.prems"(3)
    by (auto simp: t_def word_less_nat_alt not_less)
  have vt: "unat v + unat t \<le> unat (nr_bits am)" using "1.prems"(2) t(2) by linarith
  obtain am1 d1 where I: "axmap_set_internal am v \<lparr>sd_nr_bits = t, sd_set_bits = 0\<rparr> = Inr (am1, d1)"
    and inv1: "axmap_inv am1" and nb1: "nr_bits am1 = nr_bits am"
    and us1: "used am1 = used am \<union> {unat v..<unat v + unat t}"
    and fr1: "used am \<inter> {unat v..<unat v + unat t} = {} \<longrightarrow> sd_set_bits d1 = t"
    using axmap_set_internal_word [OF "1.prems"(1) vt t(1,3)] by blast
  define s where "s = sd_set_bits d1"
  have step: "axmap_set_nr_loop am v n sb =
      (if s \<noteq> t then Inr (sb + s, am1)
       else if n - s = 0 then Inr (sb + s, am1)
       else axmap_set_nr_loop am1 (v + ucast s) (n - s) (sb + s))"
    by (subst axmap_set_nr_loop.simps)
       (simp only: Let_def mx_def [symmetric] t_def [symmetric] I sum.case prod.case s_def [symmetric])
  have sub: "{unat v..<unat v + unat t} \<subseteq> {unat v..<unat v + unat n}" using t(2) by auto
  show ?case
  proof (cases "s \<noteq> t")
    case True
    then have "used am \<inter> {unat v..<unat v + unat n} \<noteq> {}"
      using fr1 sub by (auto simp: s_def)
    with True show ?thesis using inv1 nb1 us1 sub by (auto simp: step)
  next
    case False
    then have st: "s = t" by simp
    show ?thesis
    proof (cases "n - t = 0")
      case True
      then have "t = n" by simp
      with True show ?thesis using inv1 nb1 us1 by (simp add: step st)
    next
      case more: False
      have tn: "unat (n - t) = unat n - unat t" using t(2) by (simp add: unat_sub_no_wrap word_le_nat_alt)
      have vs: "unat (v + ucast t) = unat v + unat t"
        using vt unat_u64_less [of "nr_bits am"] by (subst unat_add_no_wrap) simp_all
      have pre: "unat (v + ucast t) + unat (n - t) \<le> unat (nr_bits am1)"
        using "1.prems"(2) t(2) by (simp only: vs tn nb1)
      have rng: "{unat (v + ucast t)..<unat (v + ucast t) + unat (n - t)} = {unat v + unat t..<unat v + unat n}"
        using t(2) by (simp only: vs tn) auto
      have un: "{unat v..<unat v + unat n} = {unat v..<unat v + unat t} \<union> {unat v + unat t..<unat v + unat n}"
        using t(2) by auto
      have sd: "sd_set_bits d1 = t" using st by (simp add: s_def)
      obtain r am' where R: "axmap_set_nr_loop am1 (v + ucast t) (n - t) (sb + t) = Inr (r, am')"
        "axmap_inv am'" "nr_bits am' = nr_bits am1" "used am1 \<subseteq> used am'"
        "used am' \<subseteq> used am1 \<union> {unat v + unat t..<unat v + unat n}"
        "used am1 \<inter> {unat v + unat t..<unat v + unat n} = {} \<longrightarrow>
          r = sb + t + (n - t) \<and> used am' = used am1 \<union> {unat v + unat t..<unat v + unat n}"
        using "1.IH" [OF mx_def t_def I refl, unfolded sd rng] more inv1 pre by auto
      have "axmap_set_nr_loop am v n sb = Inr (r, am')"
        using more by (simp add: step st R(1))
      moreover have "used am1 \<inter> {unat v + unat t..<unat v + unat n} = {}"
        if "used am \<inter> {unat v..<unat v + unat n} = {}"
        using that unfolding us1 un by auto
      ultimately show ?thesis
        using R(2-6) nb1 us1 unfolding un by auto
    qed
  qed
qed

section \<open>Clearing bits\<close>

lemma axmap_clear_fn_eq:
  assumes "unat off < length (al_map al)" "b < 64" "w = al_map al ! unat off"
  shows "axmap_clear_fn al off b u =
    (if bit w b then Inr (False, set_word al (unat off) (w AND NOT (push_bit b 1)), u) else Inr (True, al, u))"
  using assms bit_test [of b w] by (simp add: axmap_clear_fn_def set_word_def)

lemma lbit_clear:
  assumes "lev_off v i < length (al_map a)"
  shows "lbit (set_word a (lev_off v i) (al_map a ! lev_off v i AND NOT (push_bit (lev_bit v i) 1))) k
    \<longleftrightarrow> lbit a k \<and> k \<noteq> 64 * lev_off v i + lev_bit v i"
proof (cases "k div 64 = lev_off v i")
  case True
  then have "(k = 64 * lev_off v i + lev_bit v i) = (k mod 64 = lev_bit v i)"
    by (metis div_mult_self4 lev_bit_less mod_less mod_mult_self4 mult_div_mod_eq)
  with True assms show ?thesis by (auto simp: lbit_set_word bit_simps lbit_def)
next
  case False
  then have "k \<noteq> 64 * lev_off v i + lev_bit v i" using lev_bit_less [of v i] by auto
  with False assms show ?thesis by (auto simp: lbit_set_word)
qed

lemma axmap_clear_handler:
  assumes "coherent (a # ls)" "lev_off v i < length (al_map a)"
    and "w = al_map a ! lev_off v i" "c = w AND NOT (push_bit (lev_bit v i) 1)"
  shows "\<exists>stop ls'.
    axmap_handler_from i (a # ls) v axmap_clear_fn () = Inr (stop, set_word a (lev_off v i) c # ls', ()) \<and>
    coherent (set_word a (lev_off v i) c # ls') \<and>
    map level ls' = map level ls \<and> map map_size ls' = map map_size ls"
  using assms
proof (induction ls arbitrary: a i w c)
  case (Nil a i w c)
  have "c = w" if "\<not> bit w (lev_bit v i)"
    using that Nil.prems(4) by (auto simp: word_eq_bits bit_simps)
  with Nil show ?case
    using axmap_clear_fn_eq [of "drop_bit 6 (ulog64 v i)" a "lev_bit v i" w "()"]
    by (auto simp: handler_from_Cons unat_offset set_word_same)
next
  case (Cons b ls a i w c)
  let ?off = "lev_off v i"
  let ?a' = "set_word a ?off c"
  have fn: "axmap_clear_fn a (drop_bit 6 (ulog64 v i)) (lev_bit v i) () =
      (if bit w (lev_bit v i) then Inr (False, ?a', ()) else Inr (True, a, ()))"
    using axmap_clear_fn_eq [of "drop_bit 6 (ulog64 v i)" a "lev_bit v i" w "()"] Cons.prems
    by (simp add: unat_offset)
  show ?case
  proof (cases "bit w (lev_bit v i)")
    case False
    then have "c = w" using Cons.prems(4) by (auto simp: word_eq_bits bit_simps)
    then have "set_word a ?off c = a" using Cons.prems(3) by (simp add: set_word_same)
    moreover have "axmap_handler_from i (a # b # ls) v axmap_clear_fn () = Inr (True, a # b # ls, ())"
      using False by (simp only: handler_from_Cons [of i a] fn if_False bindr_simps prod.case if_True)
    ultimately show ?thesis using Cons.prems(1) by metis
  next
    case True
    let ?w' = "al_map b ! lev_off v (Suc i)"
    let ?b' = "set_word b (lev_off v (Suc i)) (?w' AND NOT (push_bit (lev_bit v (Suc i)) 1))"
    have cb: "coherent (b # ls)" and lenb: "length (al_map b) = words_for (length (al_map a))"
      using Cons.prems(1) by auto
    have offb: "lev_off v (Suc i) < length (al_map b)"
      using words_for_less [OF Cons.prems(2)] by (simp only: lenb lev_off_Suc)
    obtain stop ls' where IH:
      "axmap_handler_from (Suc i) (b # ls) v axmap_clear_fn () = Inr (stop, ?b' # ls', ())"
      "coherent (?b' # ls')" "map level ls' = map level ls" "map map_size ls' = map map_size ls"
      using Cons.IH [OF cb offb refl refl] by blast
    have "\<not> bit c (lev_bit v i)" using Cons.prems(4) by (simp add: bit_simps)
    then have "c \<noteq> -1" by auto
    have "64 * lev_off v (Suc i) + lev_bit v (Suc i) = ?off"
      by (simp add: lev_off_Suc lev_bit_Suc)
    then have "lbit ?b' k = (if k = ?off then c = -1 else lbit b k)" for k
      using lbit_clear [OF offb, of k] \<open>c \<noteq> -1\<close> by simp
    then have "coherent (?a' # ?b' # ls')"
      by (intro coherent_set_word_update [OF Cons.prems(1,2) IH(2)]) simp_all
    moreover have "axmap_handler_from i (a # b # ls) v axmap_clear_fn () = Inr (stop, ?a' # ?b' # ls', ())"
      using True by (simp add: handler_from_Cons [of i a] fn IH(1))
    ultimately show ?thesis using IH(3,4) by fastforce
  qed
qed

lemma axmap_clear_ok:
  assumes inv: "axmap_inv am" and v: "unat v < unat (nr_bits am)"
  shows "\<exists>am'. axmap_clear am v = Inr am' \<and> axmap_inv am' \<and> nr_bits am' = nr_bits am \<and>
    used am' = used am - {unat v}"
proof -
  have sh: "axmap_shape am" using inv by (simp add: axmap_inv_def)
  obtain a ls where als: "levels am = a # ls"
    and coh: "coherent (a # ls)" and len: "length (al_map a) = words_for (unat (nr_bits am))"
    by (rule shapeE [OF sh])
  have off: "lev_off v 0 < length (al_map a)" using v len by (rule first_level_off)
  let ?a' = "set_word a (lev_off v 0) (al_map a ! lev_off v 0 AND NOT (push_bit (lev_bit v 0) 1))"
  obtain stop ls' where H: "axmap_handler_from 0 (a # ls) v axmap_clear_fn () = Inr (stop, ?a' # ls', ())"
    "coherent (?a' # ls')" "map level ls' = map level ls"
    using axmap_clear_handler [OF coh off refl refl] by blast
  let ?am1 = "am\<lparr>levels := ?a' # ls'\<rparr>"
  have lls: "length ls' = length ls" using H(3) by (metis length_map)
  have sh1: "axmap_shape ?am1"
    using sh H(2,3) lls unfolding axmap_shape_def als by (simp del: upt_Suc coherent.simps)
  have "64 * lev_off v 0 + lev_bit v 0 = unat v" by (simp add: lev_off_def lev_bit_def)
  then have us1: "used ?am1 = used am - {unat v}"
    using lbit_clear [OF off] by (auto simp: used_def als)
  have "axmap_clear am v = Inr (if v < first_free am then ?am1\<lparr>first_free := v\<rparr> else ?am1)"
    by (simp add: axmap_clear_def axmap_handler_def als H(1))
  moreover have "axmap_inv (if v < first_free am then ?am1\<lparr>first_free := v\<rparr> else ?am1)"
    using inv sh1 us1 v by (auto simp: axmap_inv_def)
  ultimately show ?thesis using us1 by auto
qed

section \<open>Testing bits\<close>

lemma lbit_nth: "k < 64 * length (al_map a) \<Longrightarrow> lbit a k \<longleftrightarrow> bit (al_map a ! (k div 64)) (k mod 64)"
  by (simp add: lbit_def)

lemma coherent_lookup:
  assumes "coherent ls" "Suc i < length ls" "k < length (al_map (ls ! i))"
  shows "lbit (ls ! Suc i) k \<longleftrightarrow> al_map (ls ! i) ! k = -1"
  using assms
proof (induction ls arbitrary: i rule: coherent.induct)
  case (3 a b ls)
  then show ?case by (cases i) auto
qed auto

lemma coherent_sizes:
  assumes "coherent ls" "i < length ls"
  shows "length (al_map (ls ! i)) = unat (map_size (ls ! i))"
    and "Suc i < length ls \<Longrightarrow> length (al_map (ls ! Suc i)) = words_for (length (al_map (ls ! i)))"
  using assms
proof (induction ls arbitrary: i rule: coherent.induct)
  case (3 a b ls)
  {
    case 1
    then show ?case using 3 by (cases i) auto
  next
    case 2
    then show ?case using 3 by (cases i) auto
  }
qed auto

lemma lev_off_in_range:
  assumes "coherent ls" "i < length ls" "lev_off v 0 < length (al_map (ls ! 0))"
  shows "lev_off v i < length (al_map (ls ! i))"
  using assms
proof (induction i)
  case (Suc i)
  then show ?case
    using coherent_sizes(2) [of ls i] words_for_less [of "lev_off v i"] by (simp add: lev_off_Suc)
qed simp

text \<open>A set bit at some level means a full word below, hence a set bit at every lower level.\<close>

lemma lbit_downwards:
  assumes coh: "coherent ls" and i: "Suc i < length ls" and off: "lev_off v 0 < length (al_map (ls ! 0))"
    and b: "bit (al_map (ls ! Suc i) ! lev_off v (Suc i)) (lev_bit v (Suc i))"
  shows "bit (al_map (ls ! i) ! lev_off v i) (lev_bit v i)"
proof -
  have r: "lev_off v i < length (al_map (ls ! i))"
    using lev_off_in_range [OF coh _ off] i by simp
  have "lbit (ls ! Suc i) (lev_off v i)"
    using b by (simp add: lbit_def lev_off_Suc lev_bit_Suc)
  then have "al_map (ls ! i) ! lev_off v i = -1"
    using coherent_lookup [OF coh i r] by simp
  then show ?thesis by simp
qed

lemma axmap_isset_walk:
  assumes coh: "coherent ls" and off: "lev_off v 0 < length (al_map (ls ! 0))" and n: "0 < n" "n \<le> length ls"
  shows "axmap_handler_topdown_from n ls v axmap_isset_fn u =
    Inr (bit (al_map (ls ! 0) ! lev_off v 0) (lev_bit v 0), ls, u)"
  using n
proof (induction n)
  case (Suc i)
  have r: "lev_off v i < length (al_map (ls ! i))"
    using lev_off_in_range [OF coh _ off] Suc.prems by simp
  let ?b = "bit (al_map (ls ! i) ! lev_off v i) (lev_bit v i)"
  have fn: "axmap_isset_fn (ls ! i) (drop_bit 6 (ulog64 v i)) (lev_bit v i) u = Inr (?b, ls ! i, u)"
    using r bit_test [of "lev_bit v i"] by (simp add: axmap_isset_fn_def unat_offset)
  have down: "?b \<Longrightarrow> bit (al_map (ls ! 0) ! lev_off v 0) (lev_bit v 0)"
    using Suc.prems(2)
  proof (induction i)
    case (Suc j)
    then show ?case using lbit_downwards [OF coh _ off, of j] by simp
  qed simp
  show ?case
  proof (cases "?b \<or> i = 0")
    case True
    with fn down Suc.prems show ?thesis
      by (auto simp: unat_index_bit)
  next
    case False
    with fn Suc show ?thesis by (simp add: unat_index_bit)
  qed
qed simp

lemma axmap_isset_ok:
  assumes "axmap_shape am" "unat v < unat (nr_bits am)"
  shows "axmap_isset am v = Inr (unat v \<in> used am)"
proof -
  obtain a ls where als: "levels am = a # ls"
    and coh: "coherent (a # ls)" and len: "length (al_map a) = words_for (unat (nr_bits am))"
    by (rule shapeE [OF assms(1)])
  have "lev_off v 0 < length (al_map a)" using assms(2) len by (rule first_level_off)
  moreover have "nr_levels am = length (a # ls)" using assms(1) als by (simp add: axmap_shape_def)
  ultimately have "axmap_handler_topdown_from (nr_levels am) (levels am) v axmap_isset_fn () =
      Inr (bit (al_map a ! lev_off v 0) (lev_bit v 0), levels am, ())"
    using axmap_isset_walk [of "a # ls" v "nr_levels am" "()"] coh als by simp
  then show ?thesis
    using assms(2)
    by (simp add: axmap_isset_def axmap_handler_topdown_def used_def als lbit_def lev_off_def lev_bit_def
        word_le_nat_alt)
qed

section \<open>Searching for a free bit\<close>

lemma axmap_scan_spec:
  "length m = sz \<Longrightarrow> \<exists>r. axmap_scan m sz j = Inr r \<and>
    (case r of
       Some j' \<Rightarrow> j \<le> j' \<and> j' < sz \<and> m ! j' \<noteq> -1 \<and> (\<forall>k. j \<le> k \<and> k < j' \<longrightarrow> m ! k = -1)
     | None \<Rightarrow> \<forall>k. j \<le> k \<and> k < sz \<longrightarrow> m ! k = -1)"
proof (induction m sz j rule: axmap_scan.induct)
  case (1 m sz j)
  show ?case
  proof (cases "j < sz \<and> m ! j = -1")
    case True
    then have rd: "rd m j = Inr (-1)" using "1.prems" by simp
    have eq: "axmap_scan m sz j = axmap_scan m sz (Suc j)"
      using True rd by (subst axmap_scan.simps) simp
    have le: "(\<forall>k. j \<le> k \<and> k < n \<longrightarrow> m ! k = -1) = (\<forall>k. Suc j \<le> k \<and> k < n \<longrightarrow> m ! k = -1)" for n
      using True by (metis Suc_le_eq le_eq_less_or_eq)
    obtain r where r: "axmap_scan m sz (Suc j) = Inr r"
      "case r of
       Some j' \<Rightarrow> Suc j \<le> j' \<and> j' < sz \<and> m ! j' \<noteq> -1 \<and> (\<forall>k. Suc j \<le> k \<and> k < j' \<longrightarrow> m ! k = -1)
     | None \<Rightarrow> \<forall>k. Suc j \<le> k \<and> k < sz \<longrightarrow> m ! k = -1"
      using "1.IH" [OF _ rd refl] True "1.prems" by blast
    then show ?thesis unfolding eq le by (intro exI [of _ r]) (auto split: option.splits)
  next
    case False
    then show ?thesis
      using "1.prems" by (cases "j < sz") (auto simp: axmap_scan.simps [of m sz j])
  qed
qed

lemma axmap_scan_here:
  "j < length m \<Longrightarrow> m ! j \<noteq> -1 \<Longrightarrow> axmap_scan m (length m) j = Inr (Some j)"
  by (simp add: axmap_scan.simps [of m])

lemma words_for_le_self: "words_for n \<le> n"
  by (cases n) (auto simp: words_for_def)

lemma level_length_le:
  assumes "coherent ls" "i < length ls"
  shows "length (al_map (ls ! i)) \<le> length (al_map (ls ! 0))"
  using assms
proof (induction i)
  case (Suc i)
  then show ?case
    using coherent_sizes(2) [of ls i] words_for_le_self [of "length (al_map (ls ! i))"] by simp
qed simp

lemma unat_found_bit:
  assumes "64 * j + 63 < 2 ^ 64" "z < 64"
  shows "unat (push_bit 6 (of_nat j) + of_nat z :: u64) = 64 * j + z"
proof -
  have j: "unat (of_nat j :: u64) = j" using assms(1) by (simp add: unat_of_nat)
  have p: "unat (push_bit 6 (of_nat j) :: u64) = 64 * j"
    using assms(1) by (subst unat_push_bit_no_wrap) (simp_all add: j)
  have z: "unat (of_nat z :: u64) = z" using assms(2) by (simp add: unat_of_nat)
  show ?thesis using assms by (subst unat_add_no_wrap) (simp_all only: p z, simp)
qed

text \<open>If all words of a level are full, all words of all lower levels are.\<close>

definition level_full :: "axmap_level \<Rightarrow> bool" where
  "level_full al \<longleftrightarrow> (\<forall>k<length (al_map al). al_map al ! k = -1)"

lemma level_full_bits: "level_full al \<Longrightarrow> k < 64 * length (al_map al) \<Longrightarrow> lbit al k"
  by (simp add: level_full_def lbit_def less_mult_imp_div_less mult.commute)

lemma level_full_Suc:
  assumes coh: "coherent ls" and i: "Suc i < length ls"
    and bits: "\<And>k. k < length (al_map (ls ! i)) \<Longrightarrow> lbit (ls ! Suc i) k"
  shows "level_full (ls ! i)"
  using coherent_lookup [OF coh i] bits by (auto simp: level_full_def)

lemma level_full_down:
  assumes coh: "coherent ls" and i: "i < length ls" and full: "level_full (ls ! i)"
  shows "level_full (ls ! 0)"
  using i full
proof (induction i)
  case (Suc i)
  have "level_full (ls ! i)"
  proof (rule level_full_Suc [OF coh Suc.prems(1)])
    fix k assume "k < length (al_map (ls ! i))"
    then have "k < 64 * length (al_map (ls ! Suc i))"
      using coherent_sizes(2) [OF coh, of i] Suc.prems(1) words_for_le [of "length (al_map (ls ! i))"]
      by simp
    then show "lbit (ls ! Suc i) k" by (rule level_full_bits [OF Suc.prems(2)])
  qed
  with Suc show ?case by simp
qed

declare axmap_find_loop.simps(2) [simp del]

lemmas find_loop_Suc = axmap_find_loop.simps(2)

lemma found_bit:
  fixes v :: u64
  assumes j: "j < length (al_map al)" and w: "al_map al ! j \<noteq> -1"
    and small: "64 * length (al_map al) \<le> 2 ^ 64 - 1"
    and v: "v = push_bit 6 (of_nat j) + of_nat (ffz (al_map al ! j))"
  shows "unat v < 64 * length (al_map al)" "\<not> lbit al (unat v)" "v \<noteq> -1"
    "(\<forall>k<j. al_map al ! k = -1) \<Longrightarrow> k < unat v \<Longrightarrow> lbit al k"
proof -
  let ?z = "ffz (al_map al ! j)"
  note z = ffz_first_zero [OF w]
  have uv: "unat v = 64 * j + ?z"
    unfolding v using small j z(3) by (intro unat_found_bit) auto
  show lt: "unat v < 64 * length (al_map al)" using uv z(3) j by linarith
  show "\<not> lbit al (unat v)" using z by (simp add: uv lbit_def)
  show "v \<noteq> -1"
  proof
    assume "v = -1"
    then have "unat v = 2 ^ 64 - 1" by (simp only: unat_u64_max)
    with lt small show False by linarith
  qed
  show "lbit al k" if "\<forall>k<j. al_map al ! k = -1" "k < unat v" for k
  proof (cases "k div 64 < j")
    case True
    with that(1) show ?thesis by (simp add: lbit_def)
  next
    case False
    have "k div 64 < Suc j"
      using that(2) z(3) unfolding uv by (intro less_mult_imp_div_less) simp
    with False have "k div 64 = j" by linarith
    moreover from this have "k mod 64 < ?z"
      using that(2) mult_div_mod_eq [of 64 k] unfolding uv by simp
    ultimately show ?thesis using z(2) by (simp add: lbit_def)
  qed
qed

text \<open>
  The descent: started at a word of level \<open>i\<close> that is not full, the loop ends at a clear bit
  of level 0 or past the end of a level.  If moreover every word before the start is full,
  then every bit before the result is set, and running past the end means the map is full.
\<close>

lemma axmap_find_loop_descend:
  assumes coh: "coherent ls" and small: "64 * length (al_map (ls ! 0)) \<le> 2 ^ 64 - 1"
    and "i < length ls" "unat idx < length (al_map (ls ! i))"
    and "axmap_scan (al_map (ls ! i)) (unat (map_size (ls ! i))) (unat idx) = Inr (Some j)"
    and "j < length (al_map (ls ! i))" "al_map (ls ! i) ! j \<noteq> -1"
  shows "\<exists>r. axmap_find_loop ls (Suc i) idx ret = Inr r \<and>
    (r = -1 \<or> unat r < 64 * length (al_map (ls ! 0)) \<and> \<not> lbit (ls ! 0) (unat r)) \<and>
    ((\<forall>k<j. al_map (ls ! i) ! k = -1) \<longrightarrow>
      (if r = -1 then level_full (ls ! 0) else \<forall>k<unat r. lbit (ls ! 0) k))"
  using assms(3-)
proof (induction i arbitrary: idx j ret)
  case (0 idx j ret)
  let ?v = "push_bit 6 (of_nat j) + of_nat (ffz (al_map (ls ! 0) ! j)) :: u64"
  note fb = found_bit [OF "0.prems"(4,5) small refl]
  have ms: "\<not> map_size (ls ! 0) \<le> idx"
    using coherent_sizes(1) [OF coh "0.prems"(1)] "0.prems"(2) by (simp add: word_le_nat_alt)
  have "axmap_find_loop ls (Suc 0) idx ret = Inr ?v"
    using "0.prems"(1,3) ms by (simp add: Let_def find_loop_Suc del: One_nat_def)
  with fb show ?case by (intro exI [of _ ?v]) auto
next
  case (Suc i idx j ret)
  define v :: u64 where "v = push_bit 6 (of_nat j) + of_nat (ffz (al_map (ls ! Suc i) ! j))"
  have small': "64 * length (al_map (ls ! Suc i)) \<le> 2 ^ 64 - 1"
    using level_length_le [OF coh Suc.prems(1)] small by simp
  note fb = found_bit [OF Suc.prems(4,5) small' v_def]
  have i: "i < length ls" using Suc.prems(1) by simp
  have szs: "length (al_map (ls ! i)) = unat (map_size (ls ! i))"
    "length (al_map (ls ! Suc i)) = unat (map_size (ls ! Suc i))"
    using coherent_sizes(1) [OF coh] Suc.prems(1) by simp_all
  have ms: "\<not> map_size (ls ! Suc i) \<le> idx"
    using Suc.prems(2) szs by (simp add: word_le_nat_alt)
  have step: "axmap_find_loop ls (Suc (Suc i)) idx ret = axmap_find_loop ls (Suc i) v v"
    using Suc.prems(1,3) ms by (subst axmap_find_loop.simps(2)) (simp only: rd_in bindr_simps if_False option.case Let_def v_def)
  note look = coherent_lookup [OF coh Suc.prems(1)]
  show ?case
  proof (cases "unat v < length (al_map (ls ! i))")
    case False
    then have "axmap_find_loop ls (Suc i) v v = Inr (-1)"
      using i szs(1) by (simp add: find_loop_Suc word_le_nat_alt)
    moreover have "level_full (ls ! 0)" if "\<forall>k<j. al_map (ls ! Suc i) ! k = -1"
    proof (rule level_full_down [OF coh i], rule level_full_Suc [OF coh Suc.prems(1)])
      show "lbit (ls ! Suc i) k" if "k < length (al_map (ls ! i))" for k
        using fb(4) [OF \<open>\<forall>k<j. al_map (ls ! Suc i) ! k = -1\<close>, of k] that False by simp
    qed
    ultimately show ?thesis by (intro exI [of _ "-1"]) (simp add: step)
  next
    case True
    have nf: "al_map (ls ! i) ! unat v \<noteq> -1" using look [OF True] fb(2) by simp
    have scan: "axmap_scan (al_map (ls ! i)) (unat (map_size (ls ! i))) (unat v) = Inr (Some (unat v))"
      using axmap_scan_here [OF True nf] szs(1) by simp
    obtain r where r: "axmap_find_loop ls (Suc i) v v = Inr r"
      "r = -1 \<or> unat r < 64 * length (al_map (ls ! 0)) \<and> \<not> lbit (ls ! 0) (unat r)"
      "(\<forall>k<unat v. al_map (ls ! i) ! k = -1) \<longrightarrow>
        (if r = -1 then level_full (ls ! 0) else \<forall>k<unat r. lbit (ls ! 0) k)"
      using Suc.IH [OF i True scan True nf, of v] by blast
    have "al_map (ls ! i) ! k = -1" if "\<forall>k<j. al_map (ls ! Suc i) ! k = -1" "k < unat v" for k
      using fb(4) [OF that] look [of k] True that(2) by simp
    with r show ?thesis by (intro exI [of _ r]) (simp add: step)
  qed
qed

text \<open>When every word of a level is full, the search from the start of that level gives up.\<close>

lemma axmap_find_loop_full:
  assumes coh: "coherent ls"
  shows "i < length ls \<Longrightarrow> level_full (ls ! i) \<Longrightarrow> axmap_find_loop ls (Suc i) 0 (-1) = Inr (-1)"
proof (induction i)
  case 0
  have len: "length (al_map (ls ! 0)) = unat (map_size (ls ! 0))" using coherent_sizes(1) [OF coh 0(1)] .
  obtain r where "axmap_scan (al_map (ls ! 0)) (unat (map_size (ls ! 0))) 0 = Inr r" "r = None"
    using axmap_scan_spec [OF len, of 0] 0(2) len by (fastforce simp: level_full_def split: option.splits)
  then show ?case using 0(1) by (simp add: find_loop_Suc)
next
  case (Suc i)
  have len: "length (al_map (ls ! Suc i)) = unat (map_size (ls ! Suc i))"
    using coherent_sizes(1) [OF coh Suc.prems(1)] .
  obtain r where r: "axmap_scan (al_map (ls ! Suc i)) (unat (map_size (ls ! Suc i))) 0 = Inr r" "r = None"
    using axmap_scan_spec [OF len, of 0] Suc.prems(2) len by (fastforce simp: level_full_def split: option.splits)
  have full: "level_full (ls ! i)"
  proof (rule level_full_Suc [OF coh Suc.prems(1)])
    fix k assume "k < length (al_map (ls ! i))"
    then have "k < 64 * length (al_map (ls ! Suc i))"
      using coherent_sizes(2) [OF coh, of i] Suc.prems(1) words_for_le [of "length (al_map (ls ! i))"] by simp
    then show "lbit (ls ! Suc i) k" by (rule level_full_bits [OF Suc.prems(2)])
  qed
  have "axmap_find_loop ls (Suc (Suc i)) 0 (-1) =
      (if map_size (ls ! Suc i) \<le> 0 then Inr (-1) else axmap_find_loop ls (Suc i) 0 (-1))"
    using Suc.prems(1) r by (subst find_loop_Suc) simp
  with Suc.IH full Suc.prems(1) show ?case by simp
qed

lemma shape_small:
  assumes "axmap_shape am"
  shows "64 * length (al_map (levels am ! 0)) \<le> 2 ^ 64 - 1"
proof -
  have "length (al_map (levels am ! 0)) = words_for (unat (nr_bits am))"
    using assms by (auto simp: axmap_shape_def hd_conv_nth)
  moreover have "64 * words_for (unat (nr_bits am)) \<le> unat (nr_bits am) + 63"
    by (simp add: words_for_def)
  ultimately show ?thesis using assms by (simp add: axmap_shape_def)
qed

lemma used_conv: "axmap_shape am \<Longrightarrow> used am = {k. k < unat (nr_bits am) \<and> lbit (levels am ! 0) k}"
  by (simp add: used_def axmap_shape_def hd_conv_nth)

lemma level_full_used:
  assumes sh: "axmap_shape am" and "level_full (levels am ! 0)"
  shows "used am = {..<unat (nr_bits am)}"
proof -
  have "length (al_map (levels am ! 0)) = words_for (unat (nr_bits am))"
    using sh by (auto simp: axmap_shape_def hd_conv_nth)
  then have "k < 64 * length (al_map (levels am ! 0))" if "k < unat (nr_bits am)" for k
    using that words_for_le [of "unat (nr_bits am)"] by linarith
  then show ?thesis using level_full_bits [OF assms(2)] by (auto simp: used_conv [OF sh])
qed

lemma axmap_find_first_free_top:
  assumes sh: "axmap_shape am"
  shows "\<exists>r. axmap_find_first_free am (of_nat (nr_levels am) - 1) 0 = Inr r \<and>
    (if r = -1 then used am = {..<unat (nr_bits am)}
     else unat r < unat (nr_bits am) \<and> unat r \<notin> used am \<and> {..<unat r} \<subseteq> used am)"
proof -
  let ?ls = "levels am"
  define i where "i = length ?ls - 1"
  have i: "i < length ?ls" "Suc i = nr_levels am" "nr_levels am \<le> 64" and coh: "coherent ?ls"
    using sh by (auto simp: axmap_shape_def i_def)
  have lev: "unat (of_nat (nr_levels am) - 1 :: u32) = i"
    using i(2,3) by (simp flip: i(2) add: unat_of_nat)
  have len: "length (al_map (?ls ! i)) = unat (map_size (?ls ! i))" using coherent_sizes(1) [OF coh i(1)] .
  obtain s where s: "axmap_scan (al_map (?ls ! i)) (unat (map_size (?ls ! i))) 0 = Inr s"
    "case s of
       Some j' \<Rightarrow> 0 \<le> j' \<and> j' < unat (map_size (?ls ! i)) \<and> al_map (?ls ! i) ! j' \<noteq> -1 \<and>
         (\<forall>k. 0 \<le> k \<and> k < j' \<longrightarrow> al_map (?ls ! i) ! k = -1)
     | None \<Rightarrow> \<forall>k. 0 \<le> k \<and> k < unat (map_size (?ls ! i)) \<longrightarrow> al_map (?ls ! i) ! k = -1"
    using axmap_scan_spec [OF len, of 0] by blast
  show ?thesis
  proof (cases s)
    case None
    then have "level_full (?ls ! i)" using s(2) len by (simp add: level_full_def)
    then have "axmap_find_loop ?ls (Suc i) 0 (-1) = Inr (-1)" "level_full (?ls ! 0)"
      using axmap_find_loop_full [OF coh i(1)] level_full_down [OF coh i(1)] by auto
    then show ?thesis
      using level_full_used [OF sh] by (simp add: axmap_find_first_free_def lev)
  next
    case (Some j)
    then have j: "j < length (al_map (?ls ! i))" "al_map (?ls ! i) ! j \<noteq> -1"
      "\<forall>k<j. al_map (?ls ! i) ! k = -1" using s(2) len by auto
    have "unat (0 :: u64) < length (al_map (?ls ! i))" using j(1) by (simp only: unsigned_0)
    moreover have "axmap_scan (al_map (?ls ! i)) (unat (map_size (?ls ! i))) (unat (0 :: u64)) = Inr (Some j)"
      using s(1) Some by simp
    ultimately obtain r where r: "axmap_find_loop ?ls (Suc i) 0 (-1) = Inr r"
      "r = -1 \<or> unat r < 64 * length (al_map (?ls ! 0)) \<and> \<not> lbit (?ls ! 0) (unat r)"
      "if r = -1 then level_full (?ls ! 0) else \<forall>k<unat r. lbit (?ls ! 0) k"
      using axmap_find_loop_descend [OF coh shape_small [OF sh] i(1) _ _ j(1,2)] j(3) by blast
    have f: "axmap_find_first_free am (of_nat (nr_levels am) - 1) 0 = Inr (if r < nr_bits am then r else -1)"
      by (simp add: axmap_find_first_free_def lev r(1))
    show ?thesis
    proof (cases "r < nr_bits am")
      case True
      then have "r \<noteq> -1" by auto
      with True r(2,3) show ?thesis
        unfolding f by (auto simp: used_conv [OF sh] word_less_nat_alt)
    next
      case False
      then have "used am = {..<unat (nr_bits am)}"
        using r(3) level_full_used [OF sh] by (cases "r = -1") (auto simp: used_conv [OF sh] word_less_nat_alt)
      with False show ?thesis unfolding f by simp
    qed
  qed
qed

lemma axmap_first_free_ok:
  assumes inv: "axmap_inv am"
  shows "\<exists>r am'. axmap_first_free am = Inr (r, am') \<and> axmap_inv am' \<and> nr_bits am' = nr_bits am \<and>
    used am' = used am \<and>
    (if r = -1 then used am = {..<unat (nr_bits am)}
     else unat r < unat (nr_bits am) \<and> unat r \<notin> used am)"
proof (cases "firstfree_valid am")
  case True
  with inv show ?thesis by (simp add: axmap_first_free_def axmap_inv_def firstfree_valid_def)
next
  case False
  have sh: "axmap_shape am" using inv by (simp add: axmap_inv_def)
  obtain r where r: "axmap_find_first_free am (of_nat (nr_levels am) - 1) 0 = Inr r"
    "if r = -1 then used am = {..<unat (nr_bits am)}
     else unat r < unat (nr_bits am) \<and> unat r \<notin> used am \<and> {..<unat r} \<subseteq> used am"
    using axmap_find_first_free_top [OF sh] by blast
  have "axmap_first_free am = Inr (r, am\<lparr>first_free := r\<rparr>)"
    using False by (simp add: axmap_first_free_def r(1))
  moreover have "axmap_inv (am\<lparr>first_free := r\<rparr>)"
    using sh r(2) by (simp add: axmap_inv_def split: if_splits)
  ultimately show ?thesis using r(2) by (auto split: if_splits)
qed

lemma axmap_next_free_fn_eq:
  assumes "unat off < length (al_map al)"
  shows "axmap_next_free_fn al off b d = Inr (False, al, d) \<or>
    axmap_next_free_fn al off b d = Inr (True, al, d\<lparr>nf_level := of_nat (level al), nf_offset := off\<rparr>) \<and>
      al_map al ! unat off \<noteq> -1"
proof -
  have "unat ((nf_bit d + 1) AND 63) < 65" by (simp add: word_nat less_Suc_eq_le)
  with assms show ?thesis by (auto simp: axmap_next_free_fn_def Let_def)
qed

lemma axmap_next_free_walk:
  assumes "\<And>k. k < length ls \<Longrightarrow> lev_off v (i + k) < length (al_map (ls ! k))"
  shows "axmap_handler_from i ls v axmap_next_free_fn d = Inr (False, ls, d) \<or>
    (\<exists>k<length ls. \<exists>off. axmap_handler_from i ls v axmap_next_free_fn d =
        Inr (True, ls, d\<lparr>nf_level := of_nat (level (ls ! k)), nf_offset := off\<rparr>) \<and>
      unat off = lev_off v (i + k) \<and> al_map (ls ! k) ! unat off \<noteq> -1)"
  using assms
proof (induction ls arbitrary: i)
  case (Cons a ls)
  let ?off = "drop_bit 6 (ulog64 v i)"
  have off: "unat ?off < length (al_map a)" using Cons.prems [of 0] by (simp add: unat_offset)
  from axmap_next_free_fn_eq [OF off, of "lev_bit v i" d] show ?case
  proof
    assume f: "axmap_next_free_fn a ?off (lev_bit v i) d = Inr (False, a, d)"
    have "\<And>k. k < length ls \<Longrightarrow> lev_off v (Suc i + k) < length (al_map (ls ! k))"
      using Cons.prems [of "Suc _"] by simp
    from Cons.IH [OF this] show ?thesis
      by (rule disjE) (force simp: handler_from_Cons f)+
  next
    assume "axmap_next_free_fn a ?off (lev_bit v i) d =
        Inr (True, a, d\<lparr>nf_level := of_nat (level a), nf_offset := ?off\<rparr>) \<and> al_map a ! unat ?off \<noteq> -1"
    then show ?thesis
      by (intro disjI2 exI [of _ 0]) (auto simp: handler_from_Cons unat_offset intro!: exI [of _ ?off])
  qed
qed simp

lemma axmap_next_free_ok:
  assumes inv: "axmap_inv am" and v: "unat v < unat (nr_bits am)"
  shows "\<exists>r am'. axmap_next_free am v = Inr (r, am') \<and> axmap_inv am' \<and> nr_bits am' = nr_bits am \<and>
    used am' = used am \<and>
    (if r = -1 then used am = {..<unat (nr_bits am)}
     else unat r < unat (nr_bits am) \<and> unat r \<notin> used am)"
proof (cases "firstfree_valid am \<and> v < first_free am")
  case True
  with inv show ?thesis by (simp add: axmap_next_free_def axmap_inv_def firstfree_valid_def)
next
  case False
  let ?ls = "levels am" and ?d = "\<lparr>nf_level = -1, nf_offset = 0, nf_bit = v\<rparr>"
  have sh: "axmap_shape am" using inv by (simp add: axmap_inv_def)
  then have coh: "coherent ?ls" and n: "length ?ls \<le> 64"
    and lv: "\<And>k. k < length ?ls \<Longrightarrow> level (?ls ! k) = k"
    by (auto simp: axmap_shape_def) (metis add_0 nth_map nth_upt)
  have off0: "lev_off v 0 < length (al_map (?ls ! 0))"
    using first_level_off [OF v, of "?ls ! 0"] sh by (auto simp: axmap_shape_def hd_conv_nth)
  then have offs: "\<And>k. k < length ?ls \<Longrightarrow> lev_off v (0 + k) < length (al_map (?ls ! k))"
    using lev_off_in_range [OF coh] by simp
  have nf: "axmap_next_free am v =
    bindr (axmap_handler am v axmap_next_free_fn ?d) (\<lambda>(found, am, data).
       if \<not> found then axmap_first_free am
       else assertr (nf_level data \<noteq> -1) (
            bindr (axmap_find_first_free am (nf_level data) (nf_offset data)) (\<lambda>ret.
              if ret \<noteq> -1 then Inr (ret, am) else axmap_first_free am)))"
    using False by (auto simp: axmap_next_free_def)
  from axmap_next_free_walk [of ?ls v 0 ?d, OF offs] show ?thesis
  proof
    assume "axmap_handler_from 0 ?ls v axmap_next_free_fn ?d = Inr (False, ?ls, ?d)"
    then have "axmap_next_free am v = axmap_first_free am"
      by (simp add: nf axmap_handler_def)
    with axmap_first_free_ok [OF inv] show ?thesis by simp
  next
    assume "\<exists>k<length ?ls. \<exists>off. axmap_handler_from 0 ?ls v axmap_next_free_fn ?d =
        Inr (True, ?ls, ?d\<lparr>nf_level := of_nat (level (?ls ! k)), nf_offset := off\<rparr>) \<and>
      unat off = lev_off v (0 + k) \<and> al_map (?ls ! k) ! unat off \<noteq> -1"
    then obtain k off where k: "k < length ?ls" and off: "unat off = lev_off v k"
      and w: "al_map (?ls ! k) ! unat off \<noteq> -1"
      and h: "axmap_handler_from 0 ?ls v axmap_next_free_fn ?d =
        Inr (True, ?ls, ?d\<lparr>nf_level := of_nat k, nf_offset := off\<rparr>)"
      using lv by auto
    have r: "unat off < length (al_map (?ls ! k))" using offs [OF k] off by simp
    have uk: "unat (of_nat k :: u32) = k" using k n by (simp add: unat_of_nat)
    have k1: "(of_nat k :: u32) \<noteq> -1"
    proof
      assume "(of_nat k :: u32) = -1"
      then have "k = 2 ^ 32 - 1" using uk by (simp only: unat_u32_max)
      with k n show False by simp
    qed
    have scan: "axmap_scan (al_map (?ls ! k)) (unat (map_size (?ls ! k))) (unat off) = Inr (Some (unat off))"
      using axmap_scan_here [OF r w] coherent_sizes(1) [OF coh k] by simp
    obtain x where x: "axmap_find_loop ?ls (Suc k) off (-1) = Inr x"
      "x = -1 \<or> unat x < 64 * length (al_map (?ls ! 0)) \<and> \<not> lbit (?ls ! 0) (unat x)"
      using axmap_find_loop_descend [OF coh shape_small [OF sh] k r scan r w] by blast
    have eq: "axmap_next_free am v = (if x < nr_bits am then Inr (x, am) else axmap_first_free am)"
      using k1 by (auto simp: nf axmap_handler_def h axmap_find_first_free_def uk x(1))
    show ?thesis
    proof (cases "x < nr_bits am")
      case True
      then have "x \<noteq> -1" by auto
      with True x(2) inv show ?thesis
        by (auto simp: eq used_conv [OF sh] word_less_nat_alt)
    next
      case False
      with axmap_first_free_ok [OF inv] show ?thesis by (simp add: eq)
    qed
  qed
qed

section \<open>Creation\<close>

lemma count_levels_bound: "unat i \<le> 64 ^ k \<Longrightarrow> axmap_count_levels i n \<le> n + k"
proof (induction k arbitrary: i n)
  case 0
  then have "\<not> i > 1" by (simp add: word_less_nat_alt)
  then show ?case by (simp add: axmap_count_levels.simps [of i n])
next
  case (Suc k)
  have "unat (i + 64 - 1) \<le> unat i + 63" by (simp add: unat_word_ariths)
  then have "unat (drop_bit 6 (i + 64 - 1)) \<le> (unat i + 63) div 64"
    by (simp add: unat_drop_bit div_le_mono del: add_diff_eq)
  also have "\<dots> \<le> (64 * 64 ^ k + 63) div 64" using Suc.prems by (intro div_le_mono) simp
  also have "\<dots> = 64 ^ k" by simp
  finally have "axmap_count_levels (drop_bit 6 (i + 64 - 1)) (n + 1) \<le> n + 1 + k" by (rule Suc.IH)
  then show ?case by (simp add: axmap_count_levels.simps [of i n])
qed

lemma count_levels_ge: "n \<le> axmap_count_levels i n"
proof (induction i n rule: axmap_count_levels.induct)
  case (1 i n)
  then show ?case by (subst axmap_count_levels.simps) auto
qed

abbreviation cleared :: "axmap_level \<Rightarrow> axmap_level" where
  "cleared al \<equiv> al\<lparr>al_map := replicate (unat (map_size al)) 0\<rparr>"

lemma alloc_levels_ok:
  assumes "\<And>k. malloc_ok k" "unat nb + 63 < 2 ^ 64"
  shows "\<exists>als. axmap_alloc_levels malloc_ok junk n i nb = Inr als \<and> length als = n \<and>
    map level als = [i..<i + n] \<and> coherent (map cleared als) \<and>
    (als \<noteq> [] \<longrightarrow> unat (map_size (hd als)) = words_for (unat nb))"
  using assms(2)
proof (induction n arbitrary: i nb)
  case (Suc n)
  define sz where "sz = drop_bit 6 (nb + 64 - 1)"
  have "nb + 64 - 1 = nb + 63" by simp
  then have "unat (nb + 64 - 1) = unat nb + 63"
    using Suc.prems by (simp only:) (subst unat_add_no_wrap, simp_all)
  then have sz: "unat sz = words_for (unat nb)"
    unfolding sz_def by (simp only: unat_drop_bit words_for_def) simp
  then have "unat sz + 63 < 2 ^ 64"
    using words_for_le_self [of "unat nb"] Suc.prems by linarith
  from Suc.IH [OF this, of "i + 1"] obtain als where als:
    "axmap_alloc_levels malloc_ok junk n (i + 1) sz = Inr als" "length als = n"
    "map level als = [i + 1..<i + 1 + n]" "coherent (map cleared als)"
    "als \<noteq> [] \<longrightarrow> unat (map_size (hd als)) = words_for (unat sz)" by auto
  let ?al = "\<lparr>level = i, map_size = sz, al_map = replicate (unat sz) junk\<rparr>"
  have "axmap_alloc_levels malloc_ok junk (Suc n) i nb = Inr (?al # als)"
    using assms(1) als(1) by (simp add: Let_def sz_def)
  moreover have "map level (?al # als) = [i..<i + Suc n]"
    using als(3) by (simp add: upt_conv_Cons)
  moreover have "coherent (map cleared (?al # als))"
    using als(4,5) words_for_less [of _ "unat sz"] by (cases als) (auto simp: lbit_def)
  ultimately show ?case using als(2) sz by auto
qed simp

lemma axmap_new_ok:
  assumes "\<And>k. malloc_ok k" and nb: "0 < unat nb" "unat nb + 63 < 2 ^ 64"
  shows "\<exists>am. axmap_new malloc_ok junk nb = Inr (Some am) \<and> axmap_inv am \<and> nr_bits am = nb \<and> used am = {}"
proof -
  define n where "n = axmap_count_levels (ucast (drop_bit 6 (nb + 64 - 1))) 1"
  have "n \<le> 1 + 6"
    unfolding n_def by (intro count_levels_bound order_trans [OF less_imp_le [OF unat_u32_less]]) simp
  moreover have "1 \<le> n" unfolding n_def by (rule count_levels_ge)
  ultimately have n: "1 \<le> n" "n \<le> 64" by simp_all
  obtain als where als: "axmap_alloc_levels malloc_ok junk n 0 nb = Inr als" "length als = n"
    "map level als = [0..<0 + n]" "coherent (map cleared als)"
    "als \<noteq> [] \<longrightarrow> unat (map_size (hd als)) = words_for (unat nb)"
    using alloc_levels_ok [where malloc_ok = malloc_ok and junk = junk and n = n and i = 0, OF assms(1) nb(2)] by blast
  then have ne: "als \<noteq> []" using n by auto
  let ?am = "axmap_reset \<lparr>nr_levels = n, levels = als, first_free = 0, nr_bits = nb\<rparr>"
  have "axmap_new malloc_ok junk nb = Inr (Some ?am)"
    unfolding axmap_new_def Let_def n_def [symmetric] using assms(1) als(1) by simp
  moreover have us: "used ?am = {}"
    using ne als(5) words_for_less [of _ "unat nb"] by (auto simp: used_def axmap_reset_def hd_map lbit_def)
  moreover have "axmap_shape ?am"
    using ne als n nb by (auto simp: axmap_shape_def axmap_reset_def hd_map comp_def)
  ultimately show ?thesis using nb by (auto simp: axmap_inv_def axmap_reset_def)
qed


section \<open>The map as a coverage map\<close>

lemma axmap_set_nr_run:
  assumes "axmap_inv am" "unat v + unat n \<le> unat (nr_bits am)" "n \<noteq> 0"
    and "{unat v..<unat v + unat n} \<inter> used am = {}"
  shows "\<exists>am'. axmap_set_nr am v n = Inr (n, am') \<and> axmap_inv am' \<and> nr_bits am' = nr_bits am \<and>
    used am' = used am \<union> {unat v..<unat v + unat n}"
proof -
  have "used am \<inter> {unat v..<unat v + unat n} = {}" using assms(4) by blast
  with axmap_set_nr_loop_ok [OF assms(1-3), of 0] show ?thesis by (auto simp: axmap_set_nr_def)
qed

lemma axmap_inv_not_max:
  assumes "axmap_inv am"
  shows "nr_bits am \<noteq> -1"
proof
  assume "nr_bits am = -1"
  then have "unat (nr_bits am) = 2 ^ 64 - 1" by (simp only: unat_u64_max)
  with assms show False by (simp add: axmap_inv_def axmap_shape_def)
qed

interpretation axm: coverage_map axmap_inv nr_bits used axmap_isset axmap_set_nr axmap_next_free
proof (unfold_locales, goal_cases)
  case (1 m)
  show ?case by (rule used_subset)
next
  case (2 m)
  then show ?case by (rule axmap_inv_not_max)
next
  case (3 m b)
  then show ?case by (simp add: axmap_isset_ok axmap_inv_def)
next
  case (4 m b n)
  then show ?case by (rule axmap_set_nr_run)
next
  case (5 m b)
  then show ?case by (rule axmap_next_free_ok)
qed

section \<open>Properties\<close>

lemma new_100: "\<exists>am. axmap_new (\<lambda>_. True) 0 100 = Inr (Some am) \<and> axmap_inv am \<and> nr_bits am = 100 \<and> used am = {}"
  by (rule axmap_new_ok) simp_all

text \<open>
  C17. \<open>axmap_new\<close> yields, whenever its allocations succeed, a well-formed map of the requested
  size in which no bit is set, whatever the fresh memory held.
\<close>

theorem axmap_new_empty:
  assumes "\<And>k. malloc_ok k" "0 < unat nb" "unat nb + 63 < 2 ^ 64"
  shows "\<exists>am. axmap_new malloc_ok junk nb = Inr (Some am) \<and> axmap_inv am \<and> nr_bits am = nb \<and>
    used am = {}"
  by (rule axmap_new_ok [OF assms])

theorem axmap_new_empty_witness:
  "\<exists>am. axmap_new (\<lambda>_. True) 0xdead 100 = Inr (Some am) \<and> axmap_inv am \<and> nr_bits am = 100 \<and> used am = {}"
  by (rule axmap_new_empty) simp_all

text \<open>
  C14. Setting a bit inside the map adds exactly that bit to the set of used blocks: the
  summary levels stay consistent, the first-free cache stays valid, and neither an assertion
  nor an out-of-range access occurs.
\<close>

theorem axmap_set_inserts:
  assumes "axmap_inv am" "unat v < unat (nr_bits am)"
  shows "\<exists>am'. axmap_set am v = Inr am' \<and> axmap_inv am' \<and> nr_bits am' = nr_bits am \<and>
    used am' = insert (unat v) (used am)"
  by (rule axmap_set_ok [OF assms])

theorem axmap_set_inserts_witness:
  "\<exists>am am'. axmap_new (\<lambda>_. True) 0 100 = Inr (Some am) \<and> axmap_set am 70 = Inr am' \<and> axmap_inv am' \<and>
     used am' = {70}"
proof -
  obtain am where am: "axmap_new (\<lambda>_. True) 0 100 = Inr (Some am)" "axmap_inv am" "nr_bits am = 100" "used am = {}"
    using new_100 by blast
  show ?thesis using axmap_set_inserts [OF am(2), of 70] am by fastforce
qed

text \<open>C18. Clearing a bit inside the map removes exactly that bit and keeps the map well-formed.\<close>

theorem axmap_clear_removes:
  assumes "axmap_inv am" "unat v < unat (nr_bits am)"
  shows "\<exists>am'. axmap_clear am v = Inr am' \<and> axmap_inv am' \<and> nr_bits am' = nr_bits am \<and>
    used am' = used am - {unat v}"
  by (rule axmap_clear_ok [OF assms])

theorem axmap_clear_removes_witness:
  "\<exists>am am'. axmap_new (\<lambda>_. True) 0 100 = Inr (Some am) \<and> axmap_clear am 99 = Inr am' \<and> axmap_inv am' \<and>
     used am' = {}"
proof -
  obtain am where am: "axmap_new (\<lambda>_. True) 0 100 = Inr (Some am)" "axmap_inv am" "nr_bits am = 100" "used am = {}"
    using new_100 by blast
  show ?thesis using axmap_clear_removes [OF am(2), of 99] am by fastforce
qed

text \<open>C19. \<open>axmap_isset\<close> decides membership in the set of used blocks for every bit of the map.\<close>

theorem axmap_isset_member:
  assumes "axmap_inv am" "unat v < unat (nr_bits am)"
  shows "axmap_isset am v = Inr (unat v \<in> used am)"
  using assms by (simp add: axmap_isset_ok axmap_inv_def)

theorem axmap_isset_member_witness:
  "\<exists>am. axmap_new (\<lambda>_. True) 0 100 = Inr (Some am) \<and> axmap_isset am 64 = Inr False"
proof -
  obtain am where am: "axmap_new (\<lambda>_. True) 0 100 = Inr (Some am)" "axmap_inv am" "nr_bits am = 100" "used am = {}"
    using new_100 by blast
  show ?thesis using axmap_isset_member [OF am(2), of 64] am by fastforce
qed

text \<open>
  C15. Marking a run of blocks of which none is in use marks all of them, across word
  boundaries, and reports the length of the run.
\<close>

theorem axmap_set_nr_free_run:
  assumes "axmap_inv am" "unat v + unat n \<le> unat (nr_bits am)" "n \<noteq> 0"
    and "{unat v..<unat v + unat n} \<inter> used am = {}"
  shows "\<exists>am'. axmap_set_nr am v n = Inr (n, am') \<and> axmap_inv am' \<and> nr_bits am' = nr_bits am \<and>
    used am' = used am \<union> {unat v..<unat v + unat n}"
  by (rule axmap_set_nr_run [OF assms])

theorem axmap_set_nr_free_run_witness:
  "\<exists>am am'. axmap_new (\<lambda>_. True) 0 100 = Inr (Some am) \<and> axmap_set_nr am 60 30 = Inr (30, am') \<and>
     used am' = {60..<90}"
proof -
  obtain am where am: "axmap_new (\<lambda>_. True) 0 100 = Inr (Some am)" "axmap_inv am" "nr_bits am = 100" "used am = {}"
    using new_100 by blast
  show ?thesis using axmap_set_nr_free_run [OF am(2), of 60 30] am by fastforce
qed

text \<open>
  Marking a run that overlaps blocks in use never unmarks a block and never marks one
  outside the run.
\<close>

theorem axmap_set_nr_only_adds:
  assumes "axmap_inv am" "unat v + unat n \<le> unat (nr_bits am)" "n \<noteq> 0"
  shows "\<exists>r am'. axmap_set_nr am v n = Inr (r, am') \<and> axmap_inv am' \<and> nr_bits am' = nr_bits am \<and>
    used am \<subseteq> used am' \<and> used am' \<subseteq> used am \<union> {unat v..<unat v + unat n}"
  using axmap_set_nr_loop_ok [OF assms, of 0] by (auto simp: axmap_set_nr_def)

theorem axmap_set_nr_only_adds_witness:
  "\<exists>am r am'. axmap_new (\<lambda>_. True) 0 100 = Inr (Some am) \<and> axmap_set_nr am 10 90 = Inr (r, am') \<and>
     used am' \<subseteq> {10..<100}"
proof -
  obtain am where am: "axmap_new (\<lambda>_. True) 0 100 = Inr (Some am)" "axmap_inv am" "nr_bits am = 100" "used am = {}"
    using new_100 by blast
  show ?thesis using axmap_set_nr_only_adds [OF am(2), of 10 90] am by fastforce
qed

text \<open>
  C16. \<open>axmap_next_free\<close> finds a free block exactly when there is one: it returns \<open>-1\<close> only for
  a full map, and any other result is a block of the map that is not in use.
\<close>

theorem axmap_next_free_finds:
  assumes "axmap_inv am" "unat v < unat (nr_bits am)"
  shows "\<exists>r am'. axmap_next_free am v = Inr (r, am') \<and> axmap_inv am' \<and> used am' = used am \<and>
    (if r = -1 then used am = {..<unat (nr_bits am)}
     else unat r < unat (nr_bits am) \<and> unat r \<notin> used am)"
  using axmap_next_free_ok [OF assms] by blast

theorem axmap_next_free_finds_witness:
  "\<exists>am r am'. axmap_new (\<lambda>_. True) 0 100 = Inr (Some am) \<and> axmap_next_free am 3 = Inr (r, am') \<and> unat r < 100"
proof -
  obtain am where am: "axmap_new (\<lambda>_. True) 0 100 = Inr (Some am)" "axmap_inv am" "nr_bits am = 100" "used am = {}"
    using new_100 by blast
  have "{..<100::nat} \<noteq> {}" by (simp add: lessThan_empty_iff)
  then show ?thesis
    using axmap_next_free_finds [OF am(2), of 3] am by (fastforce split: if_splits)
qed

text \<open>
  Run from the top level, \<open>axmap_find_first_free\<close> returns the lowest free block of the
  map: every block before the result is in use.
\<close>

theorem axmap_find_first_free_lowest:
  assumes "axmap_inv am"
  shows "\<exists>r. axmap_find_first_free am (of_nat (nr_levels am) - 1) 0 = Inr r \<and>
    (if r = -1 then used am = {..<unat (nr_bits am)}
     else unat r < unat (nr_bits am) \<and> unat r \<notin> used am \<and> {..<unat r} \<subseteq> used am)"
  using assms by (intro axmap_find_first_free_top) (simp add: axmap_inv_def)

theorem axmap_find_first_free_lowest_witness:
  "\<exists>am. axmap_new (\<lambda>_. True) 0 100 = Inr (Some am) \<and>
     axmap_find_first_free am (of_nat (nr_levels am) - 1) 0 = Inr 0"
proof -
  obtain am where am: "axmap_new (\<lambda>_. True) 0 100 = Inr (Some am)" "axmap_inv am" "nr_bits am = 100" "used am = {}"
    using new_100 by blast
  obtain r where r: "axmap_find_first_free am (of_nat (nr_levels am) - 1) 0 = Inr r"
    "if r = -1 then used am = {..<unat (nr_bits am)}
     else unat r < unat (nr_bits am) \<and> unat r \<notin> used am \<and> {..<unat r} \<subseteq> used am"
    using axmap_find_first_free_lowest [OF am(2)] by blast
  have "{..<100::nat} \<noteq> {}" by (simp add: lessThan_empty_iff)
  then have "r \<noteq> -1" using r(2) am by force
  with r(2) am have "unat r = 0" by (auto simp: lessThan_empty_iff)
  then have "r = 0" by (simp add: unat_eq_zero)
  with am(1) r(1) show ?thesis by blast
qed

section \<open>Where the code and its comments part\<close>

definition map64 :: "u64 \<Rightarrow> u64 \<Rightarrow> axmap" where
  "map64 w ff = \<lparr>nr_levels = 1, levels = [\<lparr>level = 0, map_size = 1, al_map = [w]\<rparr>],
     first_free = ff, nr_bits = 64\<rparr>"

text \<open>
  The guard of \<open>axmap_isset\<close> lets the bit one past the end through: on a map of 64 bits
  the query for bit 64 reads outside the only word of the map.
\<close>

theorem axmap_isset_past_end: "axmap_isset (map64 w ff) 64 = Inl Out_of_bounds"
  by (simp add: axmap_isset_def map64_def axmap_handler_topdown_def axmap_isset_fn_def rd_def)

text \<open>
  On a run that is partly in use the count reported by \<open>axmap_set_nr\<close> can exceed both the
  blocks it marked and the blocks asked for: with blocks 24 to 39 in use, marking the 40 blocks
  from 0 reports 48.
\<close>

theorem axmap_set_nr_overcounts:
  "axmap_set_nr (map64 0xFFFF000000 0) 0 40 = Inr (48, map64 0xFFFFFFFFFF (-1))"
  by code_simp

text \<open>
  The block returned by \<open>axmap_next_free\<close> need not lie after the one asked about, although
  its comment says so: with blocks 0 to 7 in use it answers 8 to a query at 30.
\<close>

theorem axmap_next_free_not_next:
  "axmap_next_free (map64 0xFF (-1)) 30 = Inr (8, map64 0xFF (-1))"
  by code_simp

end
