(* ===== verification/Lfsr_Period.thy ===== *)
theory Lfsr_Period
  imports Fio_Prelude
begin

text \<open>
  The period of a Galois shift register on \<open>n\<close> bits.  The step is linear over exclusive or,
  and an operator that commutes with it is determined by its value at the top bit, so powers
  of the step can be computed by squaring.  A certificate (the prime factors of \<open>2 ^ n - 1\<close>
  and, for each, an inverse) then shows that every non-zero state has period \<open>2 ^ n - 1\<close>.
\<close>

section \<open>The step and the operators that commute with it\<close>

definition gstep :: "nat \<Rightarrow> nat \<Rightarrow> nat" where
  "gstep xm w = w div 2 XOR (if odd w then xm else 0)"

text \<open>
  \<open>act xm n a b\<close> applies to \<open>b\<close> the sum of the powers of the step that the low \<open>n\<close> bits of
  \<open>a\<close> select, the top one selecting the identity.
\<close>

primrec act :: "nat \<Rightarrow> nat \<Rightarrow> nat \<Rightarrow> nat \<Rightarrow> nat" where
  "act xm 0 a b = 0"
| "act xm (Suc k) a b = (if bit a k then b else 0) XOR gstep xm (act xm k a b)"

abbreviation top :: "nat \<Rightarrow> nat" where
  "top n \<equiv> 2 ^ (n - 1)"

definition gsquare :: "nat \<Rightarrow> nat \<Rightarrow> nat \<Rightarrow> nat" where
  "gsquare xm n h = act xm n h h"

function gpow :: "nat \<Rightarrow> nat \<Rightarrow> nat \<Rightarrow> nat" where
  "gpow xm n m =
    (if m = 0 then top n
     else if even m then gsquare xm n (gpow xm n (m div 2))
     else gstep xm (gsquare xm n (gpow xm n (m div 2))))"
  by pat_completeness auto
termination
  by (relation "measure (\<lambda>(xm, n, m). m)") auto

declare gpow.simps [simp del]

definition linear_op :: "nat \<Rightarrow> (nat \<Rightarrow> nat) \<Rightarrow> bool" where
  "linear_op xm A \<longleftrightarrow> (\<forall>a b. A (a XOR b) = A a XOR A b) \<and> (\<forall>a. A (gstep xm a) = gstep xm (A a))"

lemma div_2_xor: "(a XOR b) div 2 = (a div 2) XOR (b div 2)" for a b :: nat
  using drop_bit_xor [of 1 a b] by (simp add: drop_bit_eq_div)

lemma gstep_xor: "gstep xm (a XOR b) = gstep xm a XOR gstep xm b"
  by (simp add: gstep_def div_2_xor even_xor_iff ac_simps)

lemma gstep_0 [simp]: "gstep xm 0 = 0"
  by (simp add: gstep_def)

lemma linear_opD:
  assumes "linear_op xm A"
  shows "A (a XOR b) = A a XOR A b" "A (gstep xm a) = gstep xm (A a)" "A 0 = 0"
  using assms unfolding linear_op_def by (auto, metis xor_self_eq)

lemma linear_gstep: "linear_op xm (gstep xm)"
  by (simp add: linear_op_def gstep_xor)

lemma linear_comp: "linear_op xm A \<Longrightarrow> linear_op xm B \<Longrightarrow> linear_op xm (\<lambda>x. A (B x))"
  by (simp add: linear_op_def)

lemma linear_xor: "linear_op xm A \<Longrightarrow> linear_op xm B \<Longrightarrow> linear_op xm (\<lambda>x. A x XOR B x)"
  by (simp add: linear_op_def gstep_xor ac_simps)

lemma linear_id: "linear_op xm (\<lambda>x. x)"
  by (simp add: linear_op_def)

lemma linear_funpow: "linear_op xm (gstep xm ^^ m)"
proof (induction m)
  case (Suc m)
  from linear_comp [OF linear_gstep Suc.IH] show ?case by (simp add: comp_def)
qed (simp add: linear_id id_def)

lemma linear_act: "linear_op xm (act xm k a)"
proof (induction k)
  case (Suc k)
  have "linear_op xm (\<lambda>b. if bit a k then b else 0)"
    by (simp add: linear_op_def)
  from linear_xor [OF this linear_comp [OF linear_gstep Suc.IH]] show ?case
    by (simp add: linear_op_def)
qed (simp add: linear_op_def)

lemma act_linear: "linear_op xm A \<Longrightarrow> A (act xm k a b) = act xm k a (A b)"
  by (induction k) (simp_all add: linear_opD)

lemma gstep_double: "gstep xm (2 * w) = w"
  by (simp add: gstep_def)

lemma take_bit_Suc_top:
  "(if bit a k then 2 ^ k else 0) XOR take_bit k a = take_bit (Suc k) a" for a :: nat
  by (rule bit_eqI) (auto simp: bit_simps less_Suc_eq)

lemma exp_mult_xor: "2 ^ j * (a XOR b) = (2 ^ j * a) XOR (2 ^ j * b)" for a b :: nat
  using push_bit_xor [of j a b] by (simp add: push_bit_eq_mult ac_simps)

lemma act_shift: "act xm k a (2 ^ (k + j)) = 2 ^ Suc j * take_bit k a"
proof (induction k arbitrary: j)
  case (Suc k)
  have "act xm k a (2 ^ (Suc k + j)) = 2 * (2 ^ Suc j * take_bit k a)"
    using Suc.IH [of "Suc j"] by (simp add: ac_simps)
  hence "act xm (Suc k) a (2 ^ (Suc k + j)) =
      (if bit a k then 2 ^ (Suc k + j) else 0) XOR (2 ^ Suc j * take_bit k a)"
    by (simp only: act.simps gstep_double)
  also have "\<dots> = 2 ^ Suc j * ((if bit a k then 2 ^ k else 0) XOR take_bit k a)"
    by (simp only: exp_mult_xor) (simp add: power_add ac_simps)
  finally show ?case by (simp only: take_bit_Suc_top)
qed simp

lemma act_top: "0 < n \<Longrightarrow> act xm n a (top n) = take_bit n a"
proof (cases n)
  case (Suc k)
  have "act xm k a (2 ^ k) = 2 * take_bit k a" using act_shift [of xm k a 0] by simp
  hence "act xm n a (top n) = (if bit a k then 2 ^ k else 0) XOR take_bit k a"
    using Suc by (simp add: gstep_double)
  thus ?thesis by (simp only: take_bit_Suc_top Suc)
qed simp

lemma linear_determined:
  assumes "linear_op xm A" "0 < n" "w < 2 ^ n"
  shows "A w = act xm n w (A (top n))"
  using act_linear [OF assms(1), of n w "top n"] act_top [OF assms(2)] assms(3)
  by (simp add: take_bit_nat_eq_self)

lemma xor_less_exp: "a < 2 ^ n \<Longrightarrow> b < 2 ^ n \<Longrightarrow> a XOR b < 2 ^ n" for a b :: nat
  by (metis take_bit_nat_eq_self take_bit_xor take_bit_nat_less_exp)

lemma gstep_less: "xm < 2 ^ n \<Longrightarrow> w < 2 ^ n \<Longrightarrow> gstep xm w < 2 ^ n"
  unfolding gstep_def by (intro xor_less_exp) auto

lemma top_less: "0 < n \<Longrightarrow> top n < 2 ^ n"
  by simp

lemma funpow_less: "xm < 2 ^ n \<Longrightarrow> w < 2 ^ n \<Longrightarrow> (gstep xm ^^ m) w < 2 ^ n"
  by (induction m) (simp_all add: gstep_less)

lemma gpow_eq:
  assumes "0 < n" "xm < 2 ^ n"
  shows "gpow xm n m = (gstep xm ^^ m) (top n)"
proof (induction m rule: less_induct)
  case (less m)
  show ?case
  proof (cases "m = 0")
    case True
    thus ?thesis by (simp add: gpow.simps)
  next
    case False
    define h where "h = (gstep xm ^^ (m div 2)) (top n)"
    have "h < 2 ^ n" unfolding h_def by (intro funpow_less top_less assms)
    from linear_determined [OF linear_funpow assms(1) this]
    have q: "act xm n h h = (gstep xm ^^ (m div 2 + m div 2)) (top n)"
      by (simp add: h_def funpow_add)
    have "gpow xm n (m div 2) = h" using less False by (simp add: h_def)
    hence "gpow xm n m = (if even m then act xm n h h else gstep xm (act xm n h h))"
      using False by (simp add: gpow.simps [of xm n m] gsquare_def)
    moreover have "m = (if even m then m div 2 + m div 2 else Suc (m div 2 + m div 2))"
      by presburger
    ultimately show ?thesis
      unfolding q by (metis comp_apply funpow.simps(2))
  qed
qed

text \<open>The same operator with an accumulator, and its rules for numerals.\<close>

primrec act_acc :: "nat \<Rightarrow> nat \<Rightarrow> nat \<Rightarrow> nat \<Rightarrow> nat \<Rightarrow> nat" where
  "act_acc xm 0 a b acc = acc"
| "act_acc xm (Suc k) a b acc = act_acc xm k (a div 2) b (gstep xm acc XOR (if odd a then b else 0))"

lemma act_Suc_low:
  "act xm (Suc k) a b = act xm k (a div 2) b XOR (gstep xm ^^ k) (if odd a then b else 0)"
proof (induction k)
  case (Suc k)
  have "bit a (Suc k) = bit (a div 2) k" by (simp add: bit_Suc)
  thus ?case using Suc.IH by (simp add: gstep_xor ac_simps)
qed (simp add: bit_0)

lemma act_acc_eq: "act_acc xm k a b acc = act xm k a b XOR (gstep xm ^^ k) acc"
proof (induction k arbitrary: a acc)
  case (Suc k)
  have "act_acc xm (Suc k) a b acc =
      act xm k (a div 2) b XOR (gstep xm ^^ k) (gstep xm acc XOR (if odd a then b else 0))"
    by (simp only: act_acc.simps Suc.IH)
  also have "\<dots> = act xm (Suc k) a b XOR (gstep xm ^^ Suc k) acc"
    by (simp only: linear_opD(1) [OF linear_funpow] act_Suc_low funpow_Suc_right comp_apply ac_simps)
  finally show ?case .
qed simp

lemma gsquare_acc: "gsquare xm n h = act_acc xm n h h 0"
  by (simp add: gsquare_def act_acc_eq linear_opD(3) [OF linear_funpow])

lemma gstep_numeral:
  "gstep xm (numeral (num.Bit0 m)) = numeral m"
  "gstep xm (numeral (num.Bit1 m)) = numeral m XOR xm"
  "gstep xm (Suc 0) = xm"
  by (simp_all add: gstep_def)

lemma act_acc_numeral:
  "act_acc xm (numeral k) (numeral (num.Bit0 a)) b acc =
     act_acc xm (pred_numeral k) (numeral a) b (gstep xm acc)"
  "act_acc xm (numeral k) (numeral (num.Bit1 a)) b acc =
     act_acc xm (pred_numeral k) (numeral a) b (gstep xm acc XOR b)"
  "act_acc xm (numeral k) (Suc 0) b acc = act_acc xm (pred_numeral k) 0 b (gstep xm acc XOR b)"
  "act_acc xm (numeral k) 0 b acc = act_acc xm (pred_numeral k) 0 b (gstep xm acc)"
  by (simp_all add: numeral_eq_Suc [of k])

lemma gpow_numeral:
  "gpow xm n (numeral (num.Bit0 k)) = gsquare xm n (gpow xm n (numeral k))"
  "gpow xm n (numeral (num.Bit1 k)) = gstep xm (gsquare xm n (gpow xm n (numeral k)))"
  "gpow xm n (Suc 0) = gstep xm (gsquare xm n (top n))"
  by (simp_all add: gpow.simps [of _ _ "numeral _"] gpow.simps [of _ _ "Suc 0"] gpow.simps [of _ _ 0])

lemmas gpow_eval = gpow_numeral gsquare_acc act_acc_numeral gstep_numeral

section \<open>Certificates\<close>

definition is_prime :: "nat \<Rightarrow> bool" where
  "is_prime p \<longleftrightarrow> 1 < p \<and> (\<forall>d. d dvd p \<longrightarrow> d = 1 \<or> d = p)"

text \<open>No number from \<open>d\<close> on, for \<open>k\<close> numbers, divides \<open>p\<close>.\<close>

primrec no_divisor :: "nat \<Rightarrow> nat \<Rightarrow> nat \<Rightarrow> bool" where
  "no_divisor p d 0 = True"
| "no_divisor p d (Suc k) = (p mod d \<noteq> 0 \<and> no_divisor p (Suc d) k)"

lemma no_divisor_iff: "no_divisor p d k \<longleftrightarrow> (\<forall>e. d \<le> e \<and> e < d + k \<longrightarrow> p mod e \<noteq> 0)"
proof (induction k arbitrary: d)
  case (Suc k)
  have "d \<le> e \<and> e < d + Suc k \<longleftrightarrow> e = d \<or> Suc d \<le> e \<and> e < Suc d + k" for e by linarith
  then show ?case by (simp only: no_divisor.simps Suc.IH) (simp add: imp_disjL all_conj_distrib)
qed simp

lemma no_divisor_numeral:
  "no_divisor p (numeral d) (numeral k) \<longleftrightarrow>
     p mod numeral d \<noteq> 0 \<and> no_divisor p (numeral (d + num.One)) (pred_numeral k)"
  "no_divisor p (numeral d) (Suc 0) \<longleftrightarrow> p mod numeral d \<noteq> 0"
  by (simp_all only: numeral_eq_Suc [of k] no_divisor.simps Suc_numeral simp_thms)

lemma trial_division:
  assumes "1 < p" "p < (k + 2) * (k + 2)" "no_divisor p 2 k"
  shows "is_prime p"
  unfolding is_prime_def
proof (intro conjI allI impI assms(1))
  fix d assume "d dvd p"
  then obtain q where q: "p = d * q" by blast
  have small: "e = 1" if "e dvd p" "e < k + 2" for e
  proof (rule ccontr)
    assume "e \<noteq> 1"
    moreover have "e \<noteq> 0" using that(1) assms(1) by (cases "e = 0") simp_all
    ultimately have "2 \<le> e" by linarith
    with assms(3) that(2) have "p mod e \<noteq> 0" by (simp add: no_divisor_iff)
    with that(1) show False by auto
  qed
  have "d < k + 2 \<or> q < k + 2"
  proof (rule ccontr)
    assume "\<not> ?thesis"
    hence "(k + 2) * (k + 2) \<le> d * q" by (intro mult_le_mono) auto
    with q assms(2) show False by simp
  qed
  moreover have "q = 1 \<Longrightarrow> d = p" using q by simp
  ultimately show "d = 1 \<or> d = p" using small [of d] small [of q] q by auto
qed

lemma prime_factor_of_divisor:
  assumes "\<forall>p\<in>set ps. is_prime p" "q dvd prod_list ps" "q \<noteq> 1"
  shows "\<exists>p\<in>set ps. p dvd q"
  using assms
proof (induction ps arbitrary: q)
  case (Cons p ps)
  show ?case
  proof (cases "p dvd q")
    case False
    have "gcd q p dvd p" by simp
    hence "gcd q p = 1" using Cons.prems(1) False by (metis gcd_dvd1 is_prime_def list.set_intros(1))
    hence "q dvd prod_list ps"
      using Cons.prems(2) by (simp add: coprime_dvd_mult_right_iff coprime_iff_gcd_eq_1)
    with Cons show ?thesis by auto
  qed simp
qed simp

definition period_cert :: "nat \<Rightarrow> nat \<Rightarrow> nat list \<Rightarrow> (nat \<times> nat) list \<Rightarrow> bool" where
  "period_cert xm n ps us \<longleftrightarrow>
    gpow xm n (2 ^ n - 1) = top n \<and> prod_list ps = 2 ^ n - 1 \<and>
    list_all (\<lambda>(p, u). act_acc xm n u (gpow xm n ((2 ^ n - 1) div p) XOR top n) 0 = top n) us"

definition full_period :: "nat \<Rightarrow> nat \<Rightarrow> bool" where
  "full_period xm n \<longleftrightarrow> (\<forall>w. w < 2 ^ n \<longrightarrow> (gstep xm ^^ (2 ^ n - 1)) w = w) \<and>
     (\<forall>w d. w < 2 ^ n \<longrightarrow> w \<noteq> 0 \<longrightarrow> 0 < d \<longrightarrow> d < 2 ^ n - 1 \<longrightarrow> (gstep xm ^^ d) w \<noteq> w)"

lemma act_zero [simp]: "act xm k a 0 = 0"
  by (rule linear_opD(3) [OF linear_act])

lemma linear_fix:
  assumes "linear_op xm A" "0 < n" "w < 2 ^ n" "A (top n) = top n"
  shows "A w = w"
  using linear_determined [OF assms(1-3)] assms(3,4) act_top [OF assms(2)]
  by (simp add: take_bit_nat_eq_self)

lemma inverse_no_fixpoint:
  assumes "0 < n" "xm < 2 ^ n" "act xm n u (gpow xm n m XOR top n) = top n"
    and "w < 2 ^ n" "(gstep xm ^^ m) w = w"
  shows "w = 0"
proof -
  let ?B = "\<lambda>x. (gstep xm ^^ m) x XOR x"
  have "linear_op xm ?B" by (intro linear_xor linear_funpow linear_id)
  hence lin: "linear_op xm (\<lambda>x. act xm n u (?B x))" by (rule linear_comp [OF linear_act])
  have "act xm n u (?B (top n)) = top n" using assms(3) gpow_eq [OF assms(1,2)] by simp
  from linear_fix [OF lin assms(1,4) this] show ?thesis using assms(5) by simp
qed

lemma funpow_period:
  assumes "(f ^^ d) w = w"
  shows "(f ^^ (d * q)) w = w" "(f ^^ (k + d * q)) w = (f ^^ k) w"
proof -
  show 1: "(f ^^ (d * q)) w = w" by (induction q) (simp_all add: funpow_add assms)
  show "(f ^^ (k + d * q)) w = (f ^^ k) w" by (simp add: funpow_add 1)
qed

lemma full_period_cert:
  assumes "0 < n" "xm < 2 ^ n" "period_cert xm n ps us"
    and "\<forall>p\<in>set ps. is_prime p" "set ps \<subseteq> fst ` set us"
  shows "full_period xm n"
  unfolding full_period_def
proof (intro conjI allI impI)
  let ?N = "2 ^ n - 1 :: nat"
  fix w :: nat assume w: "w < 2 ^ n"
  have "(gstep xm ^^ ?N) (top n) = top n"
    using assms(3) gpow_eq [OF assms(1,2)] by (simp add: period_cert_def)
  from linear_fix [OF linear_funpow assms(1) w this] show N: "(gstep xm ^^ ?N) w = w" .
  fix d assume nz: "w \<noteq> 0" and d: "0 < d" "d < ?N"
  show "(gstep xm ^^ d) w \<noteq> w"
  proof
    assume "(gstep xm ^^ d) w = w"
    define e where "e = (LEAST e. 0 < e \<and> (gstep xm ^^ e) w = w)"
    have e: "0 < e \<and> (gstep xm ^^ e) w = w"
      unfolding e_def by (rule LeastI [of _ d]) (simp add: d \<open>(gstep xm ^^ d) w = w\<close>)
    have "e \<le> d" unfolding e_def by (rule Least_le) (simp add: d \<open>(gstep xm ^^ d) w = w\<close>)
    have "(gstep xm ^^ (?N mod e)) w = w"
      using funpow_period(2) [of e "gstep xm" w "?N mod e" "?N div e"] e N by simp
    hence "\<not> 0 < ?N mod e"
      using not_less_Least [of "?N mod e" "\<lambda>e. 0 < e \<and> (gstep xm ^^ e) w = w"] e
      by (auto simp: e_def [symmetric])
    hence "e dvd ?N" by auto
    then obtain q where q: "?N = e * q" by blast
    have "q \<noteq> 1" using q \<open>e \<le> d\<close> d(2) by auto
    moreover have "q dvd prod_list ps" using q assms(3) by (simp add: period_cert_def)
    ultimately obtain p where p: "p \<in> set ps" "p dvd q" using prime_factor_of_divisor assms(4) by blast
    then obtain r where r: "q = p * r" by blast
    have "1 < p" using p(1) assms(4) by (auto simp: is_prime_def)
    hence "?N div p = e * r" using q r by simp
    hence fx: "(gstep xm ^^ (?N div p)) w = w" using funpow_period(1) e by metis
    obtain u where "(p, u) \<in> set us" using p(1) assms(5) by force
    hence "act xm n u (gpow xm n (?N div p) XOR top n) = top n"
      using assms(3) by (auto simp: period_cert_def list_all_iff act_acc_eq linear_opD(3) [OF linear_funpow])
    from inverse_no_fixpoint [OF assms(1,2) this w fx] nz show False by simp
  qed
qed

end
