(* ===== verification/Lfsr_Table.thy ===== *)
theory Lfsr_Table
  imports Lfsr_Period
begin

text \<open>
  Certificates that the tap rows of 3 to 24 bits in \<open>lib/lfsr.c\<close> give registers of full
  period: the feedback mask of the row, the prime factors of \<open>2 ^ n - 1\<close>, and for each prime
  the inverse that rules out a shorter period.
\<close>

section \<open>Primes\<close>

lemma prime_3: "is_prime 3"
  by (rule trial_division [of _ 0]) (simp_all add: no_divisor_numeral)

lemma prime_5: "is_prime 5"
  by (rule trial_division [of _ 1]) (simp_all add: no_divisor_numeral)

lemma prime_7: "is_prime 7"
  by (rule trial_division [of _ 1]) (simp_all add: no_divisor_numeral)

lemma prime_11: "is_prime 11"
  by (rule trial_division [of _ 2]) (simp_all add: no_divisor_numeral)

lemma prime_13: "is_prime 13"
  by (rule trial_division [of _ 2]) (simp_all add: no_divisor_numeral)

lemma prime_17: "is_prime 17"
  by (rule trial_division [of _ 3]) (simp_all add: no_divisor_numeral)

lemma prime_19: "is_prime 19"
  by (rule trial_division [of _ 3]) (simp_all add: no_divisor_numeral)

lemma prime_23: "is_prime 23"
  by (rule trial_division [of _ 3]) (simp_all add: no_divisor_numeral)

lemma prime_31: "is_prime 31"
  by (rule trial_division [of _ 4]) (simp_all add: no_divisor_numeral)

lemma prime_41: "is_prime 41"
  by (rule trial_division [of _ 5]) (simp_all add: no_divisor_numeral)

lemma prime_43: "is_prime 43"
  by (rule trial_division [of _ 5]) (simp_all add: no_divisor_numeral)

lemma prime_47: "is_prime 47"
  by (rule trial_division [of _ 5]) (simp_all add: no_divisor_numeral)

lemma prime_73: "is_prime 73"
  by (rule trial_division [of _ 7]) (simp_all add: no_divisor_numeral)

lemma prime_89: "is_prime 89"
  by (rule trial_division [of _ 8]) (simp_all add: no_divisor_numeral)

lemma prime_127: "is_prime 127"
  by (rule trial_division [of _ 10]) (simp_all add: no_divisor_numeral)

lemma prime_151: "is_prime 151"
  by (rule trial_division [of _ 11]) (simp_all add: no_divisor_numeral)

lemma prime_241: "is_prime 241"
  by (rule trial_division [of _ 14]) (simp_all add: no_divisor_numeral)

lemma prime_257: "is_prime 257"
  by (rule trial_division [of _ 15]) (simp_all add: no_divisor_numeral)

lemma prime_337: "is_prime 337"
  by (rule trial_division [of _ 17]) (simp_all add: no_divisor_numeral)

lemma prime_683: "is_prime 683"
  by (rule trial_division [of _ 25]) (simp_all add: no_divisor_numeral)

lemma prime_8191: "is_prime 8191"
  by (rule trial_division [of _ 89]) (simp_all add: no_divisor_numeral)

lemma prime_131071: "is_prime 131071"
  by (rule trial_division [of _ 361]) (simp_all add: no_divisor_numeral)

lemma prime_178481: "is_prime 178481"
  by (rule trial_division [of _ 421]) (simp_all add: no_divisor_numeral)

lemma prime_524287: "is_prime 524287"
  by (rule trial_division [of _ 723]) (simp_all add: no_divisor_numeral)

lemmas table_primes =
  prime_3 prime_5 prime_7 prime_11 prime_13 prime_17
  prime_19 prime_23 prime_31 prime_41 prime_43 prime_47
  prime_73 prime_89 prime_127 prime_151 prime_241 prime_257
  prime_337 prime_683 prime_8191 prime_131071 prime_178481 prime_524287

section \<open>Full periods\<close>

lemma full_period_3: "full_period 6 3"
  by (rule full_period_cert [where ps = "[7]"
        and us = "[(7, 3)]"])
    (simp_all add: period_cert_def gpow_eval table_primes)

lemma full_period_4: "full_period 12 4"
  by (rule full_period_cert [where ps = "[3, 5]"
        and us = "[(3, 6), (5, 4)]"])
    (simp_all add: period_cert_def gpow_eval table_primes)

lemma full_period_5: "full_period 20 5"
  by (rule full_period_cert [where ps = "[31]"
        and us = "[(31, 7)]"])
    (simp_all add: period_cert_def gpow_eval table_primes)

lemma full_period_6: "full_period 48 6"
  by (rule full_period_cert [where ps = "[3, 3, 7]"
        and us = "[(3, 55), (7, 60)]"])
    (simp_all add: period_cert_def gpow_eval table_primes)

lemma full_period_7: "full_period 96 7"
  by (rule full_period_cert [where ps = "[127]"
        and us = "[(127, 63)]"])
    (simp_all add: period_cert_def gpow_eval table_primes)

lemma full_period_8: "full_period 184 8"
  by (rule full_period_cert [where ps = "[3, 5, 17]"
        and us = "[(3, 107), (5, 25), (17, 81)]"])
    (simp_all add: period_cert_def gpow_eval table_primes)

lemma full_period_9: "full_period 272 9"
  by (rule full_period_cert [where ps = "[7, 73]"
        and us = "[(7, 112), (73, 47)]"])
    (simp_all add: period_cert_def gpow_eval table_primes)

lemma full_period_10: "full_period 576 10"
  by (rule full_period_cert [where ps = "[3, 11, 31]"
        and us = "[(3, 732), (11, 453), (31, 939)]"])
    (simp_all add: period_cert_def gpow_eval table_primes)

lemma full_period_11: "full_period 1280 11"
  by (rule full_period_cert [where ps = "[23, 89]"
        and us = "[(23, 386), (89, 1356)]"])
    (simp_all add: period_cert_def gpow_eval table_primes)

lemma full_period_12: "full_period 2089 12"
  by (rule full_period_cert [where ps = "[3, 3, 5, 7, 13]"
        and us = "[(3, 661), (5, 3183), (7, 4082), (13, 889)]"])
    (simp_all add: period_cert_def gpow_eval table_primes)

lemma full_period_13: "full_period 4109 13"
  by (rule full_period_cert [where ps = "[8191]"
        and us = "[(8191, 9)]"])
    (simp_all add: period_cert_def gpow_eval table_primes)

lemma full_period_14: "full_period 8213 14"
  by (rule full_period_cert [where ps = "[3, 43, 127]"
        and us = "[(3, 2946), (43, 1474), (127, 11429)]"])
    (simp_all add: period_cert_def gpow_eval table_primes)

lemma full_period_15: "full_period 24576 15"
  by (rule full_period_cert [where ps = "[7, 31, 151]"
        and us = "[(7, 14676), (31, 24128), (151, 21651)]"])
    (simp_all add: period_cert_def gpow_eval table_primes)

lemma full_period_16: "full_period 53256 16"
  by (rule full_period_cert [where ps = "[3, 5, 17, 257]"
        and us = "[(3, 31360), (5, 22528), (17, 41960), (257, 44474)]"])
    (simp_all add: period_cert_def gpow_eval table_primes)

lemma full_period_17: "full_period 73728 17"
  by (rule full_period_cert [where ps = "[131071]"
        and us = "[(131071, 16383)]"])
    (simp_all add: period_cert_def gpow_eval table_primes)

lemma full_period_18: "full_period 132096 18"
  by (rule full_period_cert [where ps = "[3, 3, 3, 7, 19, 73]"
        and us = "[(3, 223222), (7, 214182), (19, 251229), (73, 119588)]"])
    (simp_all add: period_cert_def gpow_eval table_primes)

lemma full_period_19: "full_period 262179 19"
  by (rule full_period_cert [where ps = "[524287]"
        and us = "[(524287, 61)]"])
    (simp_all add: period_cert_def gpow_eval table_primes)

lemma full_period_20: "full_period 589824 20"
  by (rule full_period_cert [where ps = "[3, 5, 5, 11, 31, 41]"
        and us = "[(3, 883619), (5, 82081), (11, 503272), (31, 522482), (41, 335008)]"])
    (simp_all add: period_cert_def gpow_eval table_primes)

lemma full_period_21: "full_period 1310720 21"
  by (rule full_period_cert [where ps = "[7, 7, 127, 337]"
        and us = "[(7, 361586), (127, 384716), (337, 1337535)]"])
    (simp_all add: period_cert_def gpow_eval table_primes)

lemma full_period_22: "full_period 3145728 22"
  by (rule full_period_cert [where ps = "[3, 23, 89, 683]"
        and us = "[(3, 3812385), (23, 1896310), (89, 4114968), (683, 6597)]"])
    (simp_all add: period_cert_def gpow_eval table_primes)

lemma full_period_23: "full_period 4325376 23"
  by (rule full_period_cert [where ps = "[47, 178481]"
        and us = "[(47, 926796), (178481, 7655660)]"])
    (simp_all add: period_cert_def gpow_eval table_primes)

lemma full_period_24: "full_period 14745600 24"
  by (rule full_period_cert [where ps = "[3, 3, 5, 7, 13, 17, 241]"
        and us = "[(3, 9660564), (5, 12908613), (7, 514893), (13, 6963720), (17, 269954), (241, 3424113)]"])
    (simp_all add: period_cert_def gpow_eval table_primes)

end
