(* ===== verification/Lfsr_Props.thy ===== *)
theory Lfsr_Props
  imports Lfsr Lfsr_Table
begin

text \<open>
  Correctness of the generator of \<open>Lfsr\<close>: complementing the state turns its exclusive-nor step
  into the linear step of \<open>Lfsr_Period\<close>, so the certified periods of \<open>Lfsr_Table\<close> apply.
\<close>

section \<open>The step\<close>

definition val_step :: "u64 \<Rightarrow> u64 \<Rightarrow> u64 \<Rightarrow> u64" where
  "val_step xm cb v = (drop_bit 1 v OR cb) XOR (((v AND 1) - 1) AND xm)"

lemma even_mask: "((v AND 1) - 1) AND xm = (if bit v 0 then 0 else xm)" for v xm :: u64
proof -
  have "v AND 1 = (if bit v 0 then 1 else 0)"
    unfolding word_eq_bits by (auto simp: bit_simps) (metis bit_0 gr0I)+
  then show ?thesis by simp
qed

lemma val_step_compl:
  assumes "0 < n" "n \<le> 63" "bit xm (n - 1)" "\<forall>i. bit v i \<longrightarrow> i < n" "\<forall>i. bit xm i \<longrightarrow> i < n"
  shows "mask n XOR val_step xm (push_bit (n - 1) 1) v =
    drop_bit 1 (mask n XOR v) XOR (if bit (mask n XOR v) 0 then xm else 0)"
  unfolding word_eq_bits
proof (intro allI impI)
  fix i :: nat assume "i < LENGTH(64)"
  have "\<not> bit v n" using assms(4) by blast
  then show "bit (mask n XOR val_step xm (push_bit (n - 1) 1) v) i =
      bit (drop_bit 1 (mask n XOR v) XOR (if bit (mask n XOR v) 0 then xm else 0)) i"
    using assms \<open>i < LENGTH(64)\<close> unfolding val_step_def even_mask
    by (cases "i = n - 1"; cases "i < n") (auto simp: bit_simps)
qed

lemma unat_bits_less: "\<forall>i. bit w i \<longrightarrow> i < n \<Longrightarrow> unat w < 2 ^ n" for w :: u64
proof -
  assume "\<forall>i. bit w i \<longrightarrow> i < n"
  then have "take_bit n w = w" unfolding word_eq_bits by (auto simp: bit_take_bit_iff)
  then show ?thesis by (metis take_bit_nat_less_exp unsigned_take_bit_eq)
qed

lemma bits_less_unat:
  fixes w :: u64
  assumes "unat w < 2 ^ n" "bit w i"
  shows "i < n"
proof -
  have "unat (take_bit n w) = unat w"
    using assms(1) by (simp add: unsigned_take_bit_eq take_bit_nat_eq_self)
  then have "take_bit n w = w" by (simp add: word_unat_eq_iff)
  then show ?thesis using assms(2) by (metis bit_take_bit_iff)
qed

lemma odd_unat: "odd (unat w) \<longleftrightarrow> bit w 0" for w :: u64
  by (simp add: bit_unsigned_iff flip: bit_0)

definition compl_nat :: "nat \<Rightarrow> u64 \<Rightarrow> nat" where
  "compl_nat n v = unat (mask n XOR v)"

lemma compl_nat_step:
  assumes "0 < n" "n \<le> 63" "bit xm (n - 1)" "unat v < 2 ^ n" "unat xm < 2 ^ n"
  shows "compl_nat n (val_step xm (push_bit (n - 1) 1) v) = gstep (unat xm) (compl_nat n v)"
proof -
  have b: "\<forall>i. bit v i \<longrightarrow> i < n" "\<forall>i. bit xm i \<longrightarrow> i < n"
    using assms(4,5) bits_less_unat by blast+
  then show ?thesis
    unfolding compl_nat_def val_step_compl [OF assms(1-3) b] gstep_def odd_unat
    by (simp add: unsigned_xor_eq word_nat div_2_xor del: bit_0)
qed

lemma unat_mask_u64: "n \<le> 64 \<Longrightarrow> unat (mask n :: u64) = 2 ^ n - 1"
proof -
  assume "n \<le> 64"
  have "unat (mask n :: u64) = unat (of_nat (mask n) :: u64)" by (simp only: of_nat_mask_eq)
  also have "\<dots> = take_bit LENGTH(64) (mask n)" by (simp only: unsigned_of_nat of_nat_id)
  also have "\<dots> = mask n" using \<open>n \<le> 64\<close> by (simp add: take_bit_of_mask min_def)
  finally show ?thesis by (simp add: mask_eq_exp_minus_1)
qed

lemma compl_nat_less:
  assumes "n \<le> 63" "unat v < 2 ^ n"
  shows "compl_nat n v < 2 ^ n"
  unfolding compl_nat_def unsigned_xor_eq
  using assms unat_mask_u64 [of n] by (intro xor_less_exp) simp_all

lemma compl_nat_back:
  assumes "n \<le> 63" "unat v < 2 ^ n"
  shows "(2 ^ n - 1) XOR compl_nat n v = unat v"
proof -
  have "compl_nat n v = (2 ^ n - 1) XOR unat v"
    using unat_mask_u64 [of n] assms by (simp add: compl_nat_def unsigned_xor_eq)
  then show ?thesis by (simp flip: xor.assoc)
qed


section \<open>The orbit\<close>

definition row_ok :: "u64 \<Rightarrow> nat \<Rightarrow> bool" where
  "row_ok xm n \<longleftrightarrow> 0 < n \<and> n \<le> 63 \<and> bit xm (n - 1) \<and> unat xm < 2 ^ n \<and> full_period (unat xm) n"

fun orbit :: "('a \<Rightarrow> 'a) \<Rightarrow> 'a \<Rightarrow> nat \<Rightarrow> 'a list" where
  "orbit f v 0 = []"
| "orbit f v (Suc m) = f v # orbit f (f v) m"

lemma orbit_conv: "orbit f v m = map (\<lambda>i. (f ^^ Suc i) v) [0..<m]"
proof (induction m arbitrary: v)
  case (Suc m)
  have "map (\<lambda>i. (f ^^ Suc i) v) [0..<Suc m] = f v # map (\<lambda>i. (f ^^ Suc i) (f v)) [0..<m]"
    by (simp only: upt_conv_Cons map_Suc_upt [symmetric] list.map map_map comp_def zero_less_Suc)
      (simp add: funpow_swap1)
  with Suc show ?case by simp
qed simp

lemma full_periodD:
  assumes "full_period xm n" "w < 2 ^ n"
  shows "(gstep xm ^^ (2 ^ n - 1)) w = w"
    and "w \<noteq> 0 \<Longrightarrow> 0 < d \<Longrightarrow> d < 2 ^ n - 1 \<Longrightarrow> (gstep xm ^^ d) w \<noteq> w"
  using assms unfolding full_period_def by simp_all

lemma gstep_inj_period:
  assumes "full_period xm n" "xm < 2 ^ n" "w < 2 ^ n" "w \<noteq> 0" "i < j" "j \<le> 2 ^ n - 1"
    "(gstep xm ^^ i) w = (gstep xm ^^ j) w"
  shows "i = 0 \<and> j = 2 ^ n - 1"
proof -
  let ?N = "2 ^ n - 1 :: nat"
  have "(gstep xm ^^ (?N - j + i)) w = (gstep xm ^^ (?N - j + j)) w"
    using assms(7) by (simp only: funpow_add comp_apply)
  also have "?N - j + j = ?N" using assms(6) by (rule le_add_diff_inverse2)
  also have "(gstep xm ^^ ?N) w = w" by (rule full_periodD(1) [OF assms(1,3)])
  finally have fx: "(gstep xm ^^ (?N - j + i)) w = w" .
  have "\<not> (0 < ?N - j + i \<and> ?N - j + i < ?N)"
  proof (rule notI, elim conjE)
    assume "0 < ?N - j + i" "?N - j + i < ?N"
    from full_periodD(2) [OF assms(1,3,4) this] fx show False by contradiction
  qed
  with assms(5,6) show ?thesis by linarith
qed

lemma gstep_orbit:
  assumes "full_period xm n" "xm < 2 ^ n" "w < 2 ^ n" "w \<noteq> 0"
  shows "distinct (orbit (gstep xm) w (2 ^ n - 1)) \<and>
    set (orbit (gstep xm) w (2 ^ n - 1)) = {1..<2 ^ n}"
proof -
  let ?N = "2 ^ n - 1 :: nat" and ?o = "orbit (gstep xm) w (2 ^ n - 1)"
  have ne: "(gstep xm ^^ Suc i) w \<noteq> (gstep xm ^^ Suc j) w" if "i < j" "j < ?N" for i j
    using gstep_inj_period [OF assms, of "Suc i" "Suc j"] that by (auto simp del: funpow.simps)
  have "inj_on (\<lambda>i. (gstep xm ^^ Suc i) w) {0..<?N}"
  proof (rule inj_onI)
    fix i j assume "i \<in> {0..<?N}" "j \<in> {0..<?N}" "(gstep xm ^^ Suc i) w = (gstep xm ^^ Suc j) w"
    then show "i = j" using ne [of i j] ne [of j i] by (metis atLeastLessThan_iff linorder_neqE_nat)
  qed
  then have d: "distinct ?o" unfolding orbit_conv distinct_map set_upt by simp
  have nz: "(gstep xm ^^ k) w \<noteq> 0" for k
  proof
    assume "(gstep xm ^^ k) w = 0"
    then have "0 = (gstep xm ^^ (?N * Suc k - k + k)) w"
      by (simp only: funpow_add comp_apply linear_opD(3) [OF linear_funpow])
    also have "?N * Suc k - k + k = ?N * Suc k"
      using assms(3,4) by (intro le_add_diff_inverse2) (cases "?N", auto)
    also note funpow_period(1) [OF full_periodD(1) [OF assms(1,3)], of "Suc k"]
    finally show False using assms(4) by simp
  qed
  have "set ?o \<subseteq> {1..<2 ^ n}"
    using nz funpow_less [OF assms(2,3)] unfolding orbit_conv
    by (auto simp: Suc_le_eq simp del: funpow.simps)
  moreover have "card (set ?o) = ?N" using distinct_card [OF d] by (simp add: orbit_conv)
  ultimately have "set ?o = {1..<2 ^ n}" by (intro card_subset_eq) auto
  with d show ?thesis by simp
qed

definition row_step :: "u64 \<Rightarrow> nat \<Rightarrow> u64 \<Rightarrow> u64" where
  "row_step xm n v = val_step xm (push_bit (n - 1) 1) v"

lemma row_step_less:
  assumes "row_ok xm n" "unat v < 2 ^ n"
  shows "unat (row_step xm n v) < 2 ^ n"
proof -
  have b: "\<forall>i. bit v i \<longrightarrow> i < n" "\<forall>i. bit xm i \<longrightarrow> i < n"
    using assms bits_less_unat by (auto simp: row_ok_def)
  show ?thesis
    using b assms(1) unfolding row_step_def val_step_def even_mask row_ok_def
    by (intro unat_bits_less) (auto simp: bit_simps Suc_le_eq)
qed

lemma compl_orbit:
  assumes "row_ok xm n" "unat v < 2 ^ n"
  shows "map (compl_nat n) (orbit (row_step xm n) v m) = orbit (gstep (unat xm)) (compl_nat n v) m"
  using assms(2)
proof (induction m arbitrary: v)
  case (Suc m)
  have "compl_nat n (row_step xm n v) = gstep (unat xm) (compl_nat n v)"
    using assms(1) Suc.prems unfolding row_step_def by (intro compl_nat_step) (auto simp: row_ok_def)
  with Suc.IH [OF row_step_less [OF assms(1) Suc.prems]] show ?case by simp
qed simp

lemma orbit_less:
  "row_ok xm n \<Longrightarrow> unat v < 2 ^ n \<Longrightarrow> u \<in> set (orbit (row_step xm n) v m) \<Longrightarrow> unat u < 2 ^ n"
  by (induction m arbitrary: v) (auto, (metis row_step_less)+)

lemma xor_ones_image: "(\<lambda>c. (2 ^ n - 1) XOR c) ` {1..<2 ^ n} = {0..<2 ^ n - 1 :: nat}"
proof -
  let ?f = "\<lambda>c. (2 ^ n - 1 :: nat) XOR c"
  have inj: "inj ?f" by (rule injI) (metis xor.left_neutral xor.assoc xor_self_eq)
  have lt: "?f c < 2 ^ n" if "c < 2 ^ n" for c using that by (intro xor_less_exp) auto
  have ne: "?f c \<noteq> 2 ^ n - 1" if "c \<noteq> 0" for c
    using that inj by (metis injD xor.right_neutral)
  have "?f ` {1..<2 ^ n} \<subseteq> {0..<2 ^ n - 1}"
  proof
    fix x assume "x \<in> ?f ` {1..<2 ^ n}"
    then have "x < 2 ^ n" "x \<noteq> 2 ^ n - 1" using lt ne by auto
    then show "x \<in> {0..<2 ^ n - 1}" by auto
  qed
  moreover have "card (?f ` {1..<2 ^ n}) = 2 ^ n - 1"
    using card_image [OF inj_on_subset [OF inj]] by simp
  ultimately show ?thesis by (intro card_subset_eq) auto
qed

text \<open>From a legal state the register runs through every legal state exactly once.\<close>

lemma row_orbit:
  assumes "row_ok xm n" "unat v < 2 ^ n - 1"
  shows "distinct (orbit (row_step xm n) v (2 ^ n - 1)) \<and>
    unat ` set (orbit (row_step xm n) v (2 ^ n - 1)) = {0..<2 ^ n - 1}"
proof -
  let ?o = "orbit (row_step xm n) v (2 ^ n - 1)"
  have v: "unat v < 2 ^ n" and n: "n \<le> 63" using assms by (auto simp: row_ok_def)
  have "compl_nat n v \<noteq> 0"
    using compl_nat_back [OF n v] assms(2) by (metis less_irrefl xor.right_neutral)
  moreover have "compl_nat n v < 2 ^ n" using n v by (rule compl_nat_less)
  ultimately have o: "distinct (map (compl_nat n) ?o)" "compl_nat n ` set ?o = {1..<2 ^ n}"
    using gstep_orbit [of "unat xm" n "compl_nat n v"] assms(1) compl_orbit [OF assms(1) v]
    by (auto simp: row_ok_def simp flip: set_map)
  have "unat u = (2 ^ n - 1) XOR compl_nat n u" if "u \<in> set ?o" for u
    using compl_nat_back [OF n orbit_less [OF assms(1) v that]] by simp
  then have "unat ` set ?o = (\<lambda>c. (2 ^ n - 1) XOR c) ` (compl_nat n ` set ?o)"
    unfolding image_image by (intro image_cong) auto
  with o xor_ones_image show ?thesis by (simp add: distinct_map)
qed


lemma row_step_legal:
  assumes "row_ok xm n" "unat v < 2 ^ n - 1"
  shows "unat (row_step xm n v) < 2 ^ n - 1"
proof -
  have "2 ^ n - 1 \<noteq> (0 :: nat)" using assms(2) by linarith
  then obtain k where k: "2 ^ n - 1 = Suc k" by (cases "2 ^ n - 1 :: nat") auto
  have "row_step xm n v \<in> set (orbit (row_step xm n) v (2 ^ n - 1))" unfolding k by simp
  then have "unat (row_step xm n v) \<in> {0..<2 ^ n - 1}" using row_orbit [OF assms] by blast
  then show ?thesis by simp
qed

section \<open>Runs\<close>

primrec lfsr_run :: "nat \<Rightarrow> fio_lfsr \<Rightarrow> (u64 option list \<times> fio_lfsr) option" where
  "lfsr_run 0 fl = Some ([], fl)"
| "lfsr_run (Suc k) fl =
    (case lfsr_next fl of
       None \<Rightarrow> None
     | Some (r, fl') \<Rightarrow>
         (case lfsr_run k fl' of None \<Rightarrow> None | Some (rs, fl'') \<Rightarrow> Some (r # rs, fl'')))"

definition steady :: "fio_lfsr \<Rightarrow> bool" where
  "steady fl \<longleftrightarrow> spin fl = 0 \<and> cycle_length fl = 0"

abbreviation fl_step :: "fio_lfsr \<Rightarrow> u64 \<Rightarrow> u64" where
  "fl_step fl \<equiv> val_step (xormask fl) (cached_bit fl)"

lemma LFSR_NEXT_eq: "LFSR_NEXT fl = fl\<lparr>last_val := fl_step fl (last_val fl)\<rparr>"
  by (simp add: LFSR_NEXT_def val_step_def)

lemma advance_steady: "steady fl \<Longrightarrow> lfsr_advance fl = fl\<lparr>last_val := fl_step fl (last_val fl)\<rparr>"
  by (simp add: steady_def lfsr_advance_def lfsr_next_internal_def LFSR_NEXT_eq)

lemma advance_first:
  assumes "spin fl = 0" "cycle_length fl = 1" "cached_cycle_length fl = 0"
  shows "lfsr_advance fl = lfsr_advance (fl\<lparr>last_val := fl_step fl (last_val fl), cycle_length := 0\<rparr>)"
proof -
  have "unat (1 :: u32) + 1 = 2" by simp
  then have "(LFSR_NEXT ^^ (unat (1 :: u32) + 1)) f = LFSR_NEXT (LFSR_NEXT f)" for f
    by (simp add: numeral_2_eq_2)
  then show ?thesis
    using assms by (simp add: lfsr_advance_def lfsr_next_internal_def LFSR_NEXT_eq)
qed

lemma lfsr_next_cong:
  assumes "lfsr_advance (fl\<lparr>num_vals := num_vals fl + 1\<rparr>) = lfsr_advance (fl'\<lparr>num_vals := num_vals fl' + 1\<rparr>)"
    and "num_vals fl = num_vals fl'" "max_val fl = max_val fl'" "\<not> max_val fl < num_vals fl"
  shows "lfsr_next fl = lfsr_next fl'"
proof -
  have "lfsr_loop (fl\<lparr>num_vals := num_vals fl + 1\<rparr>) = lfsr_loop (fl'\<lparr>num_vals := num_vals fl' + 1\<rparr>)"
    by (subst (1 2) lfsr_loop.simps) (simp only: assms(1))
  with assms(2-4) show ?thesis by (simp add: lfsr_next_def Let_def)
qed

lemma advance_counted:
  assumes "steady fl"
  shows "lfsr_advance (fl\<lparr>num_vals := num_vals fl + 1\<rparr>) =
    fl\<lparr>last_val := fl_step fl (last_val fl), num_vals := num_vals fl + 1\<rparr>"
proof -
  have "steady (fl\<lparr>num_vals := num_vals fl + 1\<rparr>)" using assms by (simp add: steady_def)
  from advance_steady [OF this] show ?thesis by (cases fl) simp
qed

lemma next_hit:
  assumes "steady fl" "fl_step fl (last_val fl) \<le> max_val fl" "\<not> max_val fl < num_vals fl"
  shows "lfsr_next fl = Some (Some (fl_step fl (last_val fl)),
    fl\<lparr>last_val := fl_step fl (last_val fl), num_vals := num_vals fl + 1\<rparr>)"
  using leD [OF assms(2)] assms(3)
  by (simp add: lfsr_next_def lfsr_loop.simps [of "fl\<lparr>num_vals := num_vals fl + 1\<rparr>"] Let_def
      advance_counted [OF assms(1)])

lemma next_skip:
  assumes "steady fl" "\<not> fl_step fl (last_val fl) \<le> max_val fl" "\<not> max_val fl < num_vals fl"
  shows "lfsr_next fl = lfsr_next (fl\<lparr>last_val := fl_step fl (last_val fl)\<rparr>)"
  using assms(2,3)
  by (simp add: lfsr_next_def lfsr_loop.simps [of "fl\<lparr>num_vals := num_vals fl + 1\<rparr>"] Let_def not_le
      advance_counted [OF assms(1)])

lemma run_orbit:
  assumes "steady fl" "ys = filter (\<lambda>v. v \<le> max_val fl) (orbit (fl_step fl) (last_val fl) m)"
    and "unat (num_vals fl) + length ys \<le> unat (max_val fl) + 1" "max_val fl \<noteq> -1"
  shows "\<exists>fl'. lfsr_run (length ys) fl = Some (map Some ys, fl') \<and> max_val fl' = max_val fl \<and>
    unat (num_vals fl') = unat (num_vals fl) + length ys"
  using assms
proof (induction m arbitrary: fl ys)
  case (Suc m)
  let ?v = "fl_step fl (last_val fl)" and ?fl = "fl\<lparr>last_val := fl_step fl (last_val fl)\<rparr>"
  let ?zs = "filter (\<lambda>v. v \<le> max_val fl) (orbit (fl_step fl) ?v m)"
  show ?case
  proof (cases "ys = []")
    case False
    then have "unat (num_vals fl) \<le> unat (max_val fl)"
      using Suc.prems(3) by (cases ys) simp_all
    then have nv: "\<not> max_val fl < num_vals fl" by (simp add: word_less_nat_alt)
    show ?thesis
    proof (cases "?v \<le> max_val fl")
      case True
      let ?fl1 = "fl\<lparr>last_val := ?v, num_vals := num_vals fl + 1\<rparr>"
      have ys: "ys = ?v # ?zs" using True Suc.prems(2) by simp
      have "unat (max_val fl) \<noteq> unat (-1 :: u64)" using Suc.prems(4) by (simp only: word_unat_eq_iff) simp
      then have "unat (max_val fl) + 1 < 2 ^ 64"
        using unat_u64_less [of "max_val fl"] unfolding unat_u64_max by linarith
      then have n1: "unat (num_vals fl + 1) = unat (num_vals fl) + 1"
        using Suc.prems(3) unfolding ys by (subst unat_add_no_wrap) simp_all
      have "steady ?fl1" using Suc.prems(1) by (simp add: steady_def)
      moreover have "unat (num_vals ?fl1) + length ?zs \<le> unat (max_val ?fl1) + 1"
        using Suc.prems(3) n1 unfolding ys by simp
      ultimately obtain fl' where "lfsr_run (length ?zs) ?fl1 = Some (map Some ?zs, fl')" "max_val fl' = max_val fl"
        "unat (num_vals fl') = unat (num_vals fl) + 1 + length ?zs"
        using Suc.IH [of ?fl1 ?zs] Suc.prems(4) n1 by auto
      then show ?thesis using next_hit [OF Suc.prems(1) True nv] unfolding ys by simp
    next
      case False
      have ys: "ys = ?zs" using False Suc.prems(2) by simp
      obtain k where k: "length ys = Suc k" using \<open>ys \<noteq> []\<close> by (cases ys) auto
      have "lfsr_run (Suc k) fl = lfsr_run (Suc k) ?fl"
        using next_skip [OF Suc.prems(1) False nv] by simp
      moreover have "steady ?fl" using Suc.prems(1) by (simp add: steady_def)
      ultimately show ?thesis using Suc.IH [of ?fl ys] Suc.prems(3,4) ys unfolding k by simp
    qed
  qed simp
qed simp


lemma first_call:
  assumes "spin fl = 0" "cycle_length fl = 1" "cached_cycle_length fl = 0" "num_vals fl = 0"
  shows "lfsr_next fl = lfsr_next (fl\<lparr>last_val := fl_step fl (last_val fl), cycle_length := 0\<rparr>)"
proof (rule lfsr_next_cong)
  have "lfsr_advance (fl\<lparr>num_vals := 1\<rparr>) =
      lfsr_advance (fl\<lparr>num_vals := 1, last_val := fl_step fl (last_val fl), cycle_length := 0\<rparr>)"
    using advance_first [of "fl\<lparr>num_vals := 1\<rparr>"] assms by simp
  also have "fl\<lparr>num_vals := 1, last_val := fl_step fl (last_val fl), cycle_length := 0\<rparr> =
      fl\<lparr>last_val := fl_step fl (last_val fl), cycle_length := 0, num_vals := 1\<rparr>"
    by (cases fl) simp
  finally show "lfsr_advance (fl\<lparr>num_vals := num_vals fl + 1\<rparr>) =
      lfsr_advance (fl\<lparr>last_val := fl_step fl (last_val fl), cycle_length := 0,
        num_vals := num_vals (fl\<lparr>last_val := fl_step fl (last_val fl), cycle_length := 0\<rparr>) + 1\<rparr>)"
    using assms by simp
qed (simp_all add: assms)

section \<open>The tap table\<close>

lemma tap_row:
  assumes "3 \<le> n" "n \<le> 24"
  shows "row_ok (lfsr_create_xormask (lfsr_taps ! n)) n \<and> lfsr_taps ! n ! 0 = n"
proof -
  have upt: "[3..<25] = [3, 4, 5, 6, 7, 8, 9, 10, 11, 12, 13, 14, 15, 16, 17, 18, 19, 20, 21, 22, 23, 24]"
    by (simp add: upt_rec_numeral)
  have "n \<in> set [3..<25]" unfolding set_upt using assms by (intro atLeastLessThan_iff [THEN iffD2]) linarith
  then show ?thesis
    unfolding upt list.set by (elim insertE emptyE)
      (simp_all add: row_ok_def lfsr_create_xormask_def lfsr_taps_def FIO_MAX_TAPS_def
        full_period_3 full_period_4 full_period_5 full_period_6 full_period_7 full_period_8
        full_period_9 full_period_10 full_period_11 full_period_12 full_period_13 full_period_14
        full_period_15 full_period_16 full_period_17 full_period_18 full_period_19 full_period_20
        full_period_21 full_period_22 full_period_23 full_period_24)
qed

lemma find_lfsr_row:
  assumes "unat nums < 2 ^ 24"
  shows "\<exists>n. find_lfsr nums = Some (lfsr_taps ! n) \<and> 3 \<le> n \<and> n \<le> 24 \<and> unat nums < 2 ^ n \<and>
    (3 < n \<longrightarrow> 2 ^ (n - 1) \<le> unat nums)"
proof -
  let ?P = "\<lambda>i. push_bit i (1::u64) > nums"
  have P: "?P i \<longleftrightarrow> unat nums < 2 ^ i" if "i < 64" for i
    using that unat_push_bit_no_wrap [of "1 :: u64" i] power_strict_increasing [OF that, of "2 :: nat"]
    by (simp add: word_less_nat_alt)
  have "find ?P [3..<64] \<noteq> None"
    unfolding find_upt_None using assms P [of 24] by (intro notI) (drule spec [of _ 24], simp)
  then obtain n where n: "find ?P [3..<64] = Some n" by blast
  note f = find_upt_Some [OF n]
  have "\<not> 24 < n" using f(4) [of 24] P [of 24] assms by auto
  then have "n \<le> 24" by simp
  moreover have "2 ^ (n - 1) \<le> unat nums" if "3 < n"
  proof -
    have "3 \<le> n - 1" "n - 1 < n" "n - 1 < 64" using that f(2) by auto
    with f(4) [of "n - 1"] P [of "n - 1"] show ?thesis by (meson not_le)
  qed
  ultimately show ?thesis using f(1-3) P [of n] n by (auto simp: find_lfsr_def)
qed

lemma double_top: "0 < n \<Longrightarrow> n \<le> 63 \<Longrightarrow> push_bit 1 (push_bit (n - 1) 1) - 1 = (mask n :: u64)"
  by (cases n) (simp_all add: mask_eq_exp_minus_1 push_bit_eq_mult)

lemma lfsr_init_row:
  assumes "find_lfsr nums = Some taps" "taps ! 0 = n" "0 < n" "n \<le> 63"
  shows "lfsr_init fl nums seed 0 =
    (seed AND mask n = mask n,
     fl\<lparr>max_val := nums - 1, xormask := lfsr_create_xormask taps, cached_bit := push_bit (n - 1) 1,
        cycle_length := 1, spin := 0, cached_cycle_length := 0, num_vals := 0,
        last_val := seed AND mask n\<rparr>)"
proof -
  have "push_bit (n - Suc 0) 1 * 2 - 1 = (mask n :: u64)"
    using double_top [OF assms(3,4)] by (simp only: push_bit_eq_mult One_nat_def) (simp add: ac_simps)
  with assms show ?thesis
    by (simp add: lfsr_init_def prepare_spin_def lfsr_reset_def Let_def del: push_bit_of_1)
qed

lemma unat_and_mask_less: "n \<le> 63 \<Longrightarrow> seed AND mask n \<noteq> mask n \<Longrightarrow> unat (seed AND mask n) < 2 ^ n - 1"
  for seed :: u64
proof -
  assume n: "n \<le> 63" and ne: "seed AND mask n \<noteq> mask n"
  have "unat (seed AND mask n) \<le> unat (mask n :: u64)"
    using word_and_le1 [of seed "mask n"] by (simp add: word_le_nat_alt)
  moreover have "unat (seed AND mask n) \<noteq> unat (mask n :: u64)" using ne by (simp add: word_unat_eq_iff)
  ultimately show ?thesis using unat_mask_u64 [of n] n by simp
qed

lemma lfsr_run_all:
  assumes row: "row_ok xm n" and fl: "xormask fl = xm" "cached_bit fl = push_bit (n - 1) 1"
    and v: "unat (last_val fl) < 2 ^ n - 1" and st: "steady fl" "num_vals fl = 0"
    and nums: "max_val fl = nums - 1" "0 < unat nums" "unat nums < 2 ^ n"
  shows "\<exists>bs fl'. lfsr_run (unat nums) fl = Some (map Some bs, fl') \<and>
    distinct bs \<and> set bs = {b. b < nums} \<and> max_val fl' = nums - 1 \<and> num_vals fl' = nums"
proof -
  let ?o = "orbit (fl_step fl) (last_val fl) (2 ^ n - 1)"
  define ys where "ys = filter (\<lambda>v. v \<le> max_val fl) ?o"
  have "fl_step fl = row_step xm n" using fl by (auto simp: row_step_def)
  with row_orbit [OF row v] have o: "distinct ?o" "unat ` set ?o = {0..<2 ^ n - 1}" by auto
  have mx: "unat (nums - 1) = unat nums - 1"
    using nums(2) by (subst unat_sub_no_wrap) (simp_all add: word_le_nat_alt)
  have le: "v \<le> max_val fl \<longleftrightarrow> v < nums" for v
    using nums(2) by (simp add: nums(1) word_le_nat_alt word_less_nat_alt mx) linarith
  have "v \<in> set ?o" if "v < nums" for v
  proof -
    have "unat v \<in> {0..<2 ^ n - 1}" using that nums(3) by (simp add: word_less_nat_alt)
    then obtain u where u: "u \<in> set ?o" "unat u = unat v" unfolding o(2) [symmetric] by force
    from u(2) have "u = v" by (simp add: word_unat_eq_iff)
    with u(1) show ?thesis by simp
  qed
  then have set: "set ys = {b. b < nums}" unfolding ys_def set_filter le by blast
  have d: "distinct ys" using o(1) by (simp add: ys_def)
  have "card {b. b < nums} = unat nums" by (rule card_less_u64)
  then have len: "length ys = unat nums" using distinct_card [OF d] set by simp
  have "unat (num_vals fl) + length ys \<le> unat (max_val fl) + 1"
    using len st(2) nums(1,2) mx by simp
  moreover have "max_val fl \<noteq> -1"
    using mx nums unat_u64_less [of nums] unat_u64_max by auto
  ultimately obtain fl' where "lfsr_run (length ys) fl = Some (map Some ys, fl')"
    "max_val fl' = max_val fl" "unat (num_vals fl') = length ys"
    using run_orbit [OF st(1) ys_def] st(2) by auto
  with len d set nums(1) show ?thesis by (auto simp: word_unat_eq_iff)
qed


lemma find_lfsr_10: "find_lfsr 10 = Some (lfsr_taps ! 4)"
  by (simp add: find_lfsr_def upt_rec_numeral)

section \<open>Properties\<close>

text \<open>
  C1. Over any number of blocks below \<open>2 ^ 24\<close> the generator visits every block exactly once:
  after a successful \<open>lfsr_init\<close> the next \<open>nums\<close> calls of \<open>lfsr_next\<close> all return, their results
  are the numbers below \<open>nums\<close>, each once, and the call after them reports exhaustion.
\<close>

theorem lfsr_covers_every_block:
  assumes "0 < unat nums" "unat nums < 2 ^ 24" "lfsr_init fl nums seed 0 = (False, fl1)"
  shows "\<exists>bs fl2 fl3. lfsr_run (unat nums) fl1 = Some (map Some bs, fl2) \<and>
    distinct bs \<and> set bs = {b. b < nums} \<and> lfsr_next fl2 = Some (None, fl3)"
proof -
  obtain n where n: "find_lfsr nums = Some (lfsr_taps ! n)" "3 \<le> n" "n \<le> 24" "unat nums < 2 ^ n"
    using find_lfsr_row [OF assms(2)] by blast
  let ?xm = "lfsr_create_xormask (lfsr_taps ! n)"
  have row: "row_ok ?xm n" "lfsr_taps ! n ! 0 = n" using tap_row [OF n(2,3)] by auto
  have ini: "seed AND mask n \<noteq> mask n" "fl1 =
      fl\<lparr>max_val := nums - 1, xormask := ?xm, cached_bit := push_bit (n - 1) 1,
        cycle_length := 1, spin := 0, cached_cycle_length := 0, num_vals := 0, last_val := seed AND mask n\<rparr>"
    using lfsr_init_row [OF n(1) row(2), of fl seed] n(2,3) assms(3) by auto
  let ?v = "fl_step fl1 (last_val fl1)"
  let ?f = "fl1\<lparr>last_val := ?v, cycle_length := 0\<rparr>"
  have "unat (seed AND mask n) < 2 ^ n - 1" using ini(1) n(3) by (intro unat_and_mask_less) auto
  then have "unat ?v < 2 ^ n - 1" unfolding ini(2) using row_step_legal [OF row(1)] by (simp add: row_step_def)
  then obtain bs fl2 where run: "lfsr_run (unat nums) ?f = Some (map Some bs, fl2)"
    "distinct bs" "set bs = {b. b < nums}" "max_val fl2 = nums - 1" "num_vals fl2 = nums"
    using lfsr_run_all [OF row(1), of ?f nums] assms(1) n(4) ini(2) by (auto simp: steady_def)
  have "lfsr_next fl1 = lfsr_next ?f"
    using first_call [of fl1] ini(2) by simp
  then have "lfsr_run (unat nums) fl1 = lfsr_run (unat nums) ?f"
    using assms(1) by (cases "unat nums") simp_all
  moreover have "\<not> nums \<le> nums - 1"
    using assms(1) by (simp add: word_le_nat_alt unat_sub_no_wrap)
  then have "lfsr_next fl2 = Some (None, fl2\<lparr>num_vals := num_vals fl2 + 1\<rparr>)"
    using run(4,5) by (simp add: lfsr_next_def Let_def not_le)
  ultimately show ?thesis using run by auto
qed


theorem lfsr_covers_every_block_witness:
  "\<exists>fl1 bs fl2. lfsr_init \<lparr>xormask = 0, last_val = 0, cached_bit = 0, max_val = 0, num_vals = 0,
       cycle_length = 0, cached_cycle_length = 0, spin = 0\<rparr> 10 5 0 = (False, fl1) \<and>
     lfsr_run 10 fl1 = Some (map Some bs, fl2) \<and> distinct bs \<and> set bs = {b. b < 10}"
proof -
  let ?fl = "\<lparr>xormask = 0, last_val = 0, cached_bit = 0, max_val = 0, num_vals = 0,
       cycle_length = 0, cached_cycle_length = 0, spin = 0\<rparr>"
  have "lfsr_taps ! 4 ! 0 = 4" using tap_row [of 4] by simp
  from lfsr_init_row [OF find_lfsr_10 this, of ?fl 5]
  obtain fl1 where i: "lfsr_init ?fl 10 5 0 = (False, fl1)" by (simp add: mask_eq_exp_minus_1)
  with lfsr_covers_every_block [OF _ _ i] show ?thesis by fastforce
qed



end
