(* ===== verification/Peterson.thy ===== *)
theory Peterson
  imports Fio_Prelude "HOL-Library.Multiset"
begin

text \<open>
  The two-thread lock test, after \<open>test.cc\<close>: two threads append numbers to a shared array
  under Peterson's lock.  A state holds the shared globals and each thread's locals and
  program counter; a step is one thread executing one memory access (the two operands of
  the spin condition are read in two steps, \<open>arr_ind++\<close> is a load and a store), so a run is
  any interleaving of the two threads over a sequentially consistent memory.
\<close>

section \<open>State\<close>

datatype tid = T1 | T2

fun other :: "tid \<Rightarrow> tid" where
  "other T1 = T2"
| "other T2 = T1"

datatype loc =
    For_i          \<comment> \<open>\<open>for (int i = 0; i < MAX;)\<close>\<close>
  | Set_flag       \<comment> \<open>\<open>flag[me] = TRUE\<close>\<close>
  | Set_turn       \<comment> \<open>\<open>turn = other\<close>\<close>
  | Test_flag      \<comment> \<open>left operand of the \<open>while\<close> condition\<close>
  | Test_turn      \<comment> \<open>right operand of the \<open>while\<close> condition\<close>
  | For_j          \<comment> \<open>\<open>for (int j = 0; j < 100; j++)\<close>\<close>
  | Write          \<comment> \<open>\<open>data[arr_ind] = ...\<close>\<close>
  | Load           \<comment> \<open>\<open>arr_ind++\<close>: load\<close>
  | Store          \<comment> \<open>\<open>arr_ind++\<close>: store\<close>
  | Add_i          \<comment> \<open>\<open>i += 2\<close>, then \<open>j++\<close>\<close>
  | Clear_flag     \<comment> \<open>\<open>flag[me] = FALSE\<close>\<close>
  | Done

definition MAX_N :: nat where "MAX_N = 10000000"

record lock_state =
  flag :: "tid \<Rightarrow> bool"
  turn :: tid
  arr_ind :: nat
  data :: "nat list"
  pc :: "tid \<Rightarrow> loc"
  loc_i :: "tid \<Rightarrow> nat"
  loc_j :: "tid \<Rightarrow> nat"
  reg :: "tid \<Rightarrow> nat"

definition init_state :: lock_state where
  "init_state = \<lparr>flag = (\<lambda>_. False), turn = T1, arr_ind = 0, data = replicate MAX_N 0,
     pc = (\<lambda>_. For_i), loc_i = (\<lambda>_. 0), loc_j = (\<lambda>_. 0), reg = (\<lambda>_. 0)\<rparr>"

text \<open>Thread 1 stores \<open>i\<close>, thread 2 stores \<open>i + 1\<close>.\<close>

fun item :: "tid \<Rightarrow> nat \<Rightarrow> nat" where
  "item T1 i = i"
| "item T2 i = i + 1"

section \<open>Steps\<close>

definition goto :: "tid \<Rightarrow> loc \<Rightarrow> lock_state \<Rightarrow> lock_state" where
  "goto t l s = s\<lparr>pc := (pc s)(t := l)\<rparr>"

definition thread_step :: "tid \<Rightarrow> lock_state \<Rightarrow> lock_state" where
  "thread_step t s =
    (case pc s t of
       For_i \<Rightarrow> goto t (if loc_i s t < MAX_N then Set_flag else Done) s
     | Set_flag \<Rightarrow> goto t Set_turn (s\<lparr>flag := (flag s)(t := True)\<rparr>)
     | Set_turn \<Rightarrow> goto t Test_flag (s\<lparr>turn := other t\<rparr>)
     | Test_flag \<Rightarrow>
         if flag s (other t) then goto t Test_turn s
         else goto t For_j (s\<lparr>loc_j := (loc_j s)(t := 0)\<rparr>)
     | Test_turn \<Rightarrow>
         if turn s = other t then goto t Test_flag s
         else goto t For_j (s\<lparr>loc_j := (loc_j s)(t := 0)\<rparr>)
     | For_j \<Rightarrow> goto t (if loc_j s t < 100 then Write else Clear_flag) s
     | Write \<Rightarrow> goto t Load (s\<lparr>data := (data s)[arr_ind s := item t (loc_i s t)]\<rparr>)
     | Load \<Rightarrow> goto t Store (s\<lparr>reg := (reg s)(t := arr_ind s)\<rparr>)
     | Store \<Rightarrow> goto t Add_i (s\<lparr>arr_ind := reg s t + 1\<rparr>)
     | Add_i \<Rightarrow> goto t For_j (s\<lparr>loc_i := (loc_i s)(t := loc_i s t + 2),
                                loc_j := (loc_j s)(t := loc_j s t + 1)\<rparr>)
     | Clear_flag \<Rightarrow> goto t For_i (s\<lparr>flag := (flag s)(t := False)\<rparr>)
     | Done \<Rightarrow> s)"

inductive lock_step :: "lock_state \<Rightarrow> lock_state \<Rightarrow> bool" where
  "pc s t \<noteq> Done \<Longrightarrow> lock_step s (thread_step t s)"

inductive reachable :: "lock_state \<Rightarrow> bool" where
  start: "reachable init_state"
| step: "reachable s \<Longrightarrow> lock_step s s' \<Longrightarrow> reachable s'"

inductive_cases lock_stepE: "lock_step s s'"

text \<open>What \<open>main\<close> prints once both threads are joined.\<close>

definition final_sum :: "lock_state \<Rightarrow> nat" where
  "final_sum s = fold (\<lambda>i sum. sum + data s ! i) [0..<MAX_N] 0"

section \<open>Mutual exclusion\<close>

definition in_cs :: "loc \<Rightarrow> bool" where
  "in_cs l \<longleftrightarrow> l \<in> {For_j, Write, Load, Store, Add_i, Clear_flag}"

definition flagged :: "loc \<Rightarrow> bool" where
  "flagged l \<longleftrightarrow> in_cs l \<or> l \<in> {Set_turn, Test_flag, Test_turn}"

definition waiting :: "loc \<Rightarrow> bool" where
  "waiting l \<longleftrightarrow> l = Test_flag \<or> l = Test_turn"

lemma other_simps [simp]: "other (other t) = t" "other t \<noteq> t" "t \<noteq> other t"
  by (cases t; simp)+

lemma tid_cases: "u = t \<or> u = other t"
  by (cases u; cases t) auto

lemma all_tid: "(\<forall>u. P u) \<longleftrightarrow> P t \<and> P (other t)"
  by (metis tid_cases)

definition mutex_inv :: "lock_state \<Rightarrow> bool" where
  "mutex_inv s \<longleftrightarrow>
    (\<forall>t. flag s t = flagged (pc s t)) \<and>
    (\<forall>t. in_cs (pc s t) \<and> waiting (pc s (other t)) \<longrightarrow> turn s = t) \<and>
    (\<forall>t. \<not> (in_cs (pc s t) \<and> in_cs (pc s (other t))))"

lemmas loc_class = in_cs_def flagged_def waiting_def

lemma mutex_inv_init: "mutex_inv init_state"
  by (simp add: mutex_inv_def init_state_def loc_class)

lemma mutex_inv_step:
  assumes "mutex_inv s"
  shows "mutex_inv (thread_step t s)"
proof -
  have neq: "turn s = t \<longleftrightarrow> turn s \<noteq> other t" using tid_cases [of "turn s" t] by auto
  show ?thesis
    using assms neq unfolding mutex_inv_def all_tid [where t = t]
    by (cases "pc s t"; simp add: thread_step_def goto_def; auto simp: loc_class)
qed


section \<open>The shared array\<close>

definition done_n :: "lock_state \<Rightarrow> tid \<Rightarrow> nat" where
  "done_n s t = loc_i s t div 2 + (if pc s t = Add_i then 1 else 0)"

definition items :: "tid \<Rightarrow> nat \<Rightarrow> nat multiset" where
  "items t n = image_mset (\<lambda>k. item t (2 * k)) (mset [0..<n])"

definition local_inv :: "lock_state \<Rightarrow> tid \<Rightarrow> bool" where
  "local_inv s t \<longleftrightarrow>
    (\<exists>m. loc_i s t = 200 * m + (if in_cs (pc s t) then 2 * loc_j s t else 0) \<and>
         200 * m + (if pc s t = Set_flag \<or> flagged (pc s t) then 200 else 0) \<le> MAX_N) \<and>
    (in_cs (pc s t) \<longrightarrow> loc_j s t \<le> 100) \<and>
    (pc s t \<in> {Write, Load, Store, Add_i} \<longrightarrow> loc_j s t < 100) \<and>
    (pc s t = Clear_flag \<longrightarrow> loc_j s t = 100) \<and>
    (pc s t = Done \<longrightarrow> MAX_N \<le> loc_i s t)"

definition pending_inv :: "lock_state \<Rightarrow> tid \<Rightarrow> bool" where
  "pending_inv s t \<longleftrightarrow>
    (pc s t \<in> {Load, Store} \<longrightarrow> data s ! arr_ind s = item t (loc_i s t)) \<and>
    (pc s t = Store \<longrightarrow> reg s t = arr_ind s)"

definition array_inv :: "lock_state \<Rightarrow> bool" where
  "array_inv s \<longleftrightarrow>
    length (data s) = MAX_N \<and>
    arr_ind s = done_n s T1 + done_n s T2 \<and>
    mset (take (arr_ind s) (data s)) = items T1 (done_n s T1) + items T2 (done_n s T2)"

lemma items_Suc: "items t (Suc n) = add_mset (item t (2 * n)) (items t n)"
  by (simp add: items_def)

lemma items_0 [simp]: "items t 0 = {#}"
  by (simp add: items_def)

lemma array_inv_sym:
  "array_inv s \<longleftrightarrow> length (data s) = MAX_N \<and>
     arr_ind s = done_n s t + done_n s (other t) \<and>
     mset (take (arr_ind s) (data s)) = items t (done_n s t) + items (other t) (done_n s (other t))"
  by (cases t) (auto simp: array_inv_def add.commute)

lemma MAX_N_batches: "200 * m < MAX_N \<Longrightarrow> 200 * m + 200 \<le> MAX_N"
  by (simp add: MAX_N_def)

lemma local_inv_step:
  assumes "local_inv s t"
  shows "local_inv (thread_step t s) t"
proof -
  from assms obtain m where m: "loc_i s t = 200 * m + (if in_cs (pc s t) then 2 * loc_j s t else 0)"
    "200 * m + (if pc s t = Set_flag \<or> flagged (pc s t) then 200 else 0) \<le> MAX_N"
    by (auto simp: local_inv_def)
  have batch: "200 * m < MAX_N \<Longrightarrow> 200 * m + 200 \<le> MAX_N" by (rule MAX_N_batches)
  define m' where "m' = (if pc s t = Clear_flag then m + 1 else m)"
  let ?s = "thread_step t s"
  have j: "(in_cs (pc s t) \<longrightarrow> loc_j s t \<le> 100) \<and>
    (pc s t \<in> {Write, Load, Store, Add_i} \<longrightarrow> loc_j s t < 100) \<and>
    (pc s t = Clear_flag \<longrightarrow> loc_j s t = 100)"
    using assms unfolding local_inv_def by blast
  have "loc_i ?s t = 200 * m' + (if in_cs (pc ?s t) then 2 * loc_j ?s t else 0) \<and>
      200 * m' + (if pc ?s t = Set_flag \<or> flagged (pc ?s t) then 200 else 0) \<le> MAX_N"
    using m j batch by (cases "pc s t") (simp_all add: thread_step_def goto_def m'_def loc_class)
  moreover have "(in_cs (pc ?s t) \<longrightarrow> loc_j ?s t \<le> 100) \<and>
    (pc ?s t \<in> {Write, Load, Store, Add_i} \<longrightarrow> loc_j ?s t < 100) \<and>
    (pc ?s t = Clear_flag \<longrightarrow> loc_j ?s t = 100) \<and> (pc ?s t = Done \<longrightarrow> MAX_N \<le> loc_i ?s t)"
    using j assms by (cases "pc s t") (simp_all add: thread_step_def goto_def loc_class local_inv_def)
  ultimately show ?thesis unfolding local_inv_def by blast
qed

lemma thread_step_frame [simp]:
  "pc (thread_step t s) (other t) = pc s (other t)"
  "loc_i (thread_step t s) (other t) = loc_i s (other t)"
  "loc_j (thread_step t s) (other t) = loc_j s (other t)"
  "reg (thread_step t s) (other t) = reg s (other t)"
  by (cases "pc s t"; simp add: thread_step_def goto_def)+

lemma local_inv_frame: "local_inv s (other t) \<Longrightarrow> local_inv (thread_step t s) (other t)"
  unfolding local_inv_def thread_step_frame .

lemma done_n_frame: "done_n (thread_step t s) (other t) = done_n s (other t)"
  by (simp only: done_n_def thread_step_frame)

lemma thread_step_outside:
  "\<not> in_cs (pc s t) \<Longrightarrow> data (thread_step t s) = data s \<and> arr_ind (thread_step t s) = arr_ind s"
  by (cases "pc s t") (simp_all add: thread_step_def goto_def in_cs_def)

lemma pending_inv_step:
  assumes "mutex_inv s" "pending_inv s t" "arr_ind s < length (data s) \<or> pc s t \<noteq> Write"
  shows "pending_inv (thread_step t s) t"
  using assms by (cases "pc s t") (simp_all add: pending_inv_def thread_step_def goto_def)

lemma pending_inv_frame:
  assumes "mutex_inv s" "pending_inv s (other t)"
  shows "pending_inv (thread_step t s) (other t)"
proof (cases "in_cs (pc s (other t))")
  case True
  hence "\<not> in_cs (pc s t)" using assms(1) by (auto simp: mutex_inv_def)
  from thread_step_outside [OF this] show ?thesis
    using assms(2) by (simp add: pending_inv_def)
next
  case False
  thus ?thesis by (auto simp: pending_inv_def in_cs_def)
qed

lemma done_n_even: "local_inv s t \<Longrightarrow> 2 * (loc_i s t div 2) = loc_i s t"
  by (auto simp: local_inv_def)

lemma local_inv_batch:
  assumes "local_inv s t" "in_cs (pc s t)"
  obtains m where "loc_i s t = 200 * m + 2 * loc_j s t" "200 * m + 200 \<le> MAX_N" "loc_j s t \<le> 100"
proof -
  have "flagged (pc s t)" using assms(2) by (simp add: flagged_def)
  thus thesis using that assms by (auto simp: local_inv_def)
qed

lemma loc_i_bound:
  assumes "local_inv s t"
  shows "loc_i s t \<le> MAX_N"
proof (cases "in_cs (pc s t)")
  case True
  from local_inv_batch [OF assms this]
  obtain m where "loc_i s t = 200 * m + 2 * loc_j s t" "200 * m + 200 \<le> MAX_N" "loc_j s t \<le> 100"
    by blast
  thus ?thesis by linarith
next
  case False
  thus ?thesis using assms unfolding local_inv_def by force
qed

text \<open>Inside the critical section there is room for the item being written.\<close>

lemma arr_ind_room:
  assumes "local_inv s t" "local_inv s (other t)" "mutex_inv s" "array_inv s"
    and "pc s t \<in> {Write, Load, Store}"
  shows "arr_ind s < MAX_N"
proof -
  have "\<not> in_cs (pc s (other t))"
    using assms(3,5) by (auto simp: mutex_inv_def in_cs_def)
  hence o: "done_n s (other t) = loc_i s (other t) div 2" by (auto simp: done_n_def in_cs_def)
  have "in_cs (pc s t)" using assms(5) by (auto simp: in_cs_def)
  from local_inv_batch [OF assms(1) this]
  obtain m where "loc_i s t = 200 * m + 2 * loc_j s t" "200 * m + 200 \<le> MAX_N" by blast
  moreover have "loc_j s t < 100" using assms(1,5) unfolding local_inv_def by blast
  ultimately have t: "loc_i s t < MAX_N" by linarith
  have "arr_ind s = loc_i s t div 2 + loc_i s (other t) div 2"
    using assms(4,5) o unfolding array_inv_sym [where t = t] by (auto simp: done_n_def [of s t])
  thus ?thesis
    using t loc_i_bound [OF assms(2)] done_n_even [OF assms(1)] done_n_even [OF assms(2)] by linarith
qed

lemma done_n_step:
  assumes "local_inv s t"
  shows "done_n (thread_step t s) t = done_n s t + (if pc s t = Store then 1 else 0)"
  using done_n_even [OF assms] by (cases "pc s t") (simp_all add: done_n_def thread_step_def goto_def)

lemma thread_step_array:
  "data (thread_step t s) =
     (if pc s t = Write then (data s)[arr_ind s := item t (loc_i s t)] else data s)"
  "arr_ind (thread_step t s) = (if pc s t = Store then reg s t + 1 else arr_ind s)"
  by (cases "pc s t"; simp add: thread_step_def goto_def)+

lemma array_inv_step:
  assumes "local_inv s t" "local_inv s (other t)" "mutex_inv s" "array_inv s" "pending_inv s t"
  shows "array_inv (thread_step t s)"
proof (cases "pc s t = Store")
  case True
  have room: "arr_ind s < length (data s)"
    using arr_ind_room [OF assms(1-4)] assms(4) True by (simp add: array_inv_def)
  have now: "data s ! arr_ind s = item t (2 * done_n s t)" "reg s t = arr_ind s"
    using assms(5) True done_n_even [OF assms(1)] by (simp_all add: pending_inv_def done_n_def)
  show ?thesis
    using assms(4) True now take_Suc_conv_app_nth [OF room]
    unfolding array_inv_sym [where t = t] done_n_frame done_n_step [OF assms(1)] thread_step_array
    by (elim conjE) (simp add: items_Suc)
next
  case False
  thus ?thesis
    using assms(4)
    unfolding array_inv_sym [where t = t] done_n_frame done_n_step [OF assms(1)] thread_step_array
    by (elim conjE) simp
qed

definition lock_inv :: "lock_state \<Rightarrow> bool" where
  "lock_inv s \<longleftrightarrow> mutex_inv s \<and> array_inv s \<and> (\<forall>t. local_inv s t \<and> pending_inv s t)"

lemma lock_inv_init: "lock_inv init_state"
proof -
  have "array_inv init_state" by (simp add: array_inv_def init_state_def done_n_def)
  moreover have "local_inv init_state t \<and> pending_inv init_state t" for t
    by (simp add: local_inv_def pending_inv_def init_state_def loc_class)
  ultimately show ?thesis by (simp add: lock_inv_def mutex_inv_init)
qed

lemma lock_inv_step:
  assumes "lock_inv s"
  shows "lock_inv (thread_step t s)"
proof -
  have m: "mutex_inv s" and a: "array_inv s" and l: "\<And>u. local_inv s u" and p: "\<And>u. pending_inv s u"
    using assms by (auto simp: lock_inv_def)
  have "arr_ind s < length (data s) \<or> pc s t \<noteq> Write"
    using arr_ind_room [OF l l m a, of t] a by (auto simp: array_inv_def)
  hence "\<forall>u. local_inv (thread_step t s) u \<and> pending_inv (thread_step t s) u"
    unfolding all_tid [where t = t]
    by (simp add: l p m local_inv_step local_inv_frame pending_inv_step pending_inv_frame)
  thus ?thesis
    by (simp add: lock_inv_def mutex_inv_step [OF m] array_inv_step [OF l l m a p])
qed

lemma reachable_lock_inv: "reachable s \<Longrightarrow> lock_inv s"
  by (induction rule: reachable.induct) (auto simp: lock_inv_init lock_inv_step elim: lock_stepE)


section \<open>The final array\<close>

lemma items_split: "items T1 n + items T2 n = mset [0..<2 * n]"
  by (induction n) (simp_all add: items_Suc)

lemma sum_fold: "fold (\<lambda>i sum. sum + f i) xs a = a + sum_list (map f xs)" for a :: nat
  by (induction xs arbitrary: a) (simp_all add: add.assoc)

lemma MAX_N_even: "2 * (MAX_N div 2) = MAX_N"
  by (simp add: MAX_N_def)

lemma lock_inv_final:
  assumes "lock_inv s" "pc s T1 = Done" "pc s T2 = Done"
  shows "mset (data s) = mset [0..<MAX_N]" "arr_ind s = MAX_N"
proof -
  have l: "local_inv s T1" "local_inv s T2" and a: "array_inv s" using assms(1) by (auto simp: lock_inv_def)
  have i: "loc_i s T1 = MAX_N" "loc_i s T2 = MAX_N"
    using l assms(2,3) loc_i_bound [OF l(1)] loc_i_bound [OF l(2)] by (auto simp: local_inv_def)
  hence "mset (take (arr_ind s) (data s)) = mset [0..<MAX_N]" and "arr_ind s = MAX_N"
    using a assms(2,3) MAX_N_even items_split [of "MAX_N div 2"] by (auto simp: array_inv_def done_n_def)
  thus "mset (data s) = mset [0..<MAX_N]" "arr_ind s = MAX_N"
    using a by (auto simp: array_inv_def)
qed

lemma final_sum_eq:
  assumes "mset (data s) = mset [0..<MAX_N]"
  shows "final_sum s = \<Sum> {0..<MAX_N}"
proof -
  have "length (data s) = MAX_N" using mset_eq_length [OF assms] by simp
  hence "map ((!) (data s)) [0..<MAX_N] = data s" by (metis map_nth)
  hence "final_sum s = sum_list (data s)" by (simp add: final_sum_def sum_fold)
  also have "\<dots> = sum_list [0..<MAX_N]" using assms by (metis sum_mset_sum_list)
  finally show ?thesis by (simp add: sum_list_distinct_conv_sum_set)
qed

section \<open>The run can always be completed\<close>

fun loc_rank :: "loc \<Rightarrow> nat \<Rightarrow> nat" where
  "loc_rank Done j = 0"
| "loc_rank Add_i j = 0"
| "loc_rank Store j = 1"
| "loc_rank Load j = 2"
| "loc_rank Write j = 3"
| "loc_rank Test_turn j = 5"
| "loc_rank Test_flag j = 6"
| "loc_rank Set_turn j = 7"
| "loc_rank Set_flag j = 8"
| "loc_rank For_i j = 9"
| "loc_rank Clear_flag j = 10"
| "loc_rank For_j j = (if j < 100 then 4 else 11)"

definition thread_rank :: "lock_state \<Rightarrow> tid \<Rightarrow> nat" where
  "thread_rank s t = 10 * (MAX_N - loc_i s t) + loc_rank (pc s t) (loc_j s t)"

definition lock_rank :: "lock_state \<Rightarrow> nat" where
  "lock_rank s = thread_rank s T1 + thread_rank s T2"

lemma lock_rank_sym: "lock_rank s = thread_rank s t + thread_rank s (other t)"
  by (cases t) (simp_all add: lock_rank_def)

lemma thread_rank_frame [simp]: "thread_rank (thread_step t s) (other t) = thread_rank s (other t)"
  by (simp add: thread_rank_def)

lemma thread_rank_step:
  assumes "local_inv s t" "pc s t \<noteq> Done" "pc s t \<noteq> Test_turn \<or> turn s \<noteq> other t"
  shows "thread_rank (thread_step t s) t < thread_rank s t"
proof (cases "pc s t = Add_i")
  case True
  hence "in_cs (pc s t)" by (simp add: in_cs_def)
  from local_inv_batch [OF assms(1) this]
  obtain m where "loc_i s t = 200 * m + 2 * loc_j s t" "200 * m + 200 \<le> MAX_N" by blast
  moreover have "loc_j s t < 100" using assms(1) True unfolding local_inv_def by blast
  ultimately have "loc_i s t + 2 \<le> MAX_N" by linarith
  hence "MAX_N - loc_i s t = 2 + (MAX_N - (loc_i s t + 2))" by linarith
  thus ?thesis using True by (simp add: thread_rank_def thread_step_def goto_def)
next
  case False
  have "pc s t = Clear_flag \<longrightarrow> loc_j s t = 100" using assms(1) unfolding local_inv_def by blast
  with False assms(2,3) show ?thesis
    by (cases "pc s t") (simp_all add: thread_rank_def thread_step_def goto_def)
qed

lemma lock_rank_step:
  assumes "lock_inv s" "pc s t \<noteq> Done" "pc s t \<noteq> Test_turn \<or> turn s \<noteq> other t"
  shows "lock_rank (thread_step t s) < lock_rank s"
  using thread_rank_step [OF _ assms(2,3)] assms(1)
  by (simp add: lock_rank_sym [where t = t] lock_inv_def)

text \<open>Where no single step makes progress, a waiting thread leaves the loop in two.\<close>

lemma lock_progress:
  assumes "lock_inv s" "pc s u \<noteq> Done"
  shows "\<exists>s'. lock_step\<^sup>+\<^sup>+ s s' \<and> lock_rank s' < lock_rank s"
proof -
  have one: "\<exists>s'. lock_step\<^sup>+\<^sup>+ s s' \<and> lock_rank s' < lock_rank s"
    if "pc s t \<noteq> Done" "pc s t \<noteq> Test_turn \<or> turn s \<noteq> other t" for t
    using lock_rank_step [OF assms(1) that] lock_step.intros [OF that(1)] by blast
  show ?thesis
  proof (cases "pc s u \<noteq> Test_turn \<or> turn s \<noteq> other u")
    case True
    from one [OF assms(2) this] show ?thesis .
  next
    case False
    hence u: "pc s u = Test_turn" and turn: "turn s = other u" by auto
    show ?thesis
    proof (cases "pc s (other u) = Done")
      case False
      with turn one [of "other u"] show ?thesis by simp
    next
      case True
      hence nf: "\<not> flag s (other u)" using assms(1) by (auto simp: lock_inv_def mutex_inv_def loc_class)
      let ?s1 = "thread_step u s" and ?s2 = "thread_step u (thread_step u s)"
      have s1: "?s1 = goto u Test_flag s" using u turn by (simp add: thread_step_def)
      have "lock_step s ?s1" using u by (intro lock_step.intros) simp
      moreover have "lock_step ?s1 ?s2" unfolding s1 by (intro lock_step.intros) (simp add: goto_def)
      moreover have "lock_rank ?s2 < lock_rank s"
        unfolding s1 lock_rank_sym [where t = u]
        using u nf by (simp add: thread_step_def goto_def thread_rank_def)
      ultimately show ?thesis by (meson tranclp.r_into_trancl tranclp.trancl_into_trancl)
    qed
  qed
qed

lemma reachable_steps: "lock_step\<^sup>*\<^sup>* s s' \<Longrightarrow> reachable s \<Longrightarrow> reachable s'"
  by (induction rule: rtranclp_induct) (auto intro: reachable.step)

lemma thread_step_Done: "pc s t = Done \<Longrightarrow> thread_step t s = s"
  by (simp add: thread_step_def)

lemma reachable_thread_step: "reachable s \<Longrightarrow> reachable (thread_step t s)"
  by (cases "pc s t = Done") (auto intro: reachable.step lock_step.intros simp: thread_step_Done)

lemma lock_can_finish:
  assumes "reachable s"
  shows "\<exists>s'. lock_step\<^sup>*\<^sup>* s s' \<and> (\<forall>t. pc s' t = Done)"
  using assms
proof (induction "lock_rank s" arbitrary: s rule: less_induct)
  case less
  show ?case
  proof (cases "\<forall>t. pc s t = Done")
    case True
    thus ?thesis by blast
  next
    case False
    then obtain u where "pc s u \<noteq> Done" by blast
    from lock_progress [OF reachable_lock_inv [OF less.prems] this]
    obtain s1 where s1: "lock_step\<^sup>+\<^sup>+ s s1" "lock_rank s1 < lock_rank s" by blast
    hence "reachable s1" using less.prems by (meson reachable_steps tranclp_into_rtranclp)
    from less.hyps [OF s1(2) this] show ?thesis
      using s1(1) by (meson rtranclp_trans tranclp_into_rtranclp)
  qed
qed

section \<open>Properties\<close>

text \<open>
  C2. Mutual exclusion: in no interleaving are both threads between the exit of the spin
  loop and the store that clears their flag.
\<close>

theorem peterson_mutual_exclusion:
  "reachable s \<Longrightarrow> \<not> (in_cs (pc s T1) \<and> in_cs (pc s T2))"
  using reachable_lock_inv [of s] unfolding lock_inv_def mutex_inv_def by (metis other.simps(1))

theorem peterson_mutual_exclusion_witness:
  "\<not> (in_cs (pc init_state T1) \<and> in_cs (pc init_state T2))"
  by (rule peterson_mutual_exclusion [OF reachable.start])

text \<open>
  No write of either thread is outside the array: whenever a thread is about to execute
  \<open>data[arr_ind] = ...\<close>, the index is below \<open>MAX\<close>, in every interleaving.
\<close>

theorem peterson_write_in_bounds:
  "reachable s \<Longrightarrow> pc s t = Write \<Longrightarrow> arr_ind s < length (data s)"
  using reachable_lock_inv [of s] arr_ind_room [of s t] by (auto simp: lock_inv_def array_inv_def)

theorem peterson_write_in_bounds_witness:
  "\<exists>s. reachable s \<and> pc s T2 = Write \<and> arr_ind s < length (data s)"
proof -
  let ?s = "thread_step T2 (thread_step T2 (thread_step T2 (thread_step T2 (thread_step T2 init_state))))"
  have r: "reachable ?s" by (intro reachable_thread_step reachable.start)
  have "0 < MAX_N" by (simp add: MAX_N_def)
  hence "pc ?s T2 = Write" by (simp add: thread_step_def goto_def init_state_def)
  with r peterson_write_in_bounds [OF r this] show ?thesis by blast
qed

text \<open>
  C4. When both threads have returned the array holds each of the numbers \<open>0\<close> to \<open>MAX - 1\<close>
  exactly once, and the sum that \<open>main\<close> prints is \<open>MAX * (MAX - 1) / 2\<close>, which fits its
  64-bit counter.
\<close>

theorem peterson_final_array:
  assumes "reachable s" "pc s T1 = Done" "pc s T2 = Done"
  shows "mset (data s) = mset [0..<MAX_N] \<and> final_sum s = MAX_N * (MAX_N - 1) div 2 \<and>
    final_sum s < 2 ^ 64"
proof -
  have m: "mset (data s) = mset [0..<MAX_N]"
    using lock_inv_final(1) [OF reachable_lock_inv] assms by blast
  have g: "\<Sum> {0..<n} = n * (n - 1) div 2" for n :: nat by (simp add: Sum_Ico_nat)
  have "final_sum s = MAX_N * (MAX_N - 1) div 2" using final_sum_eq [OF m] g by simp
  with m show ?thesis by (simp add: MAX_N_def)
qed

theorem peterson_final_array_witness:
  "\<exists>s. reachable s \<and> pc s T1 = Done \<and> pc s T2 = Done \<and> mset (data s) = mset [0..<MAX_N] \<and>
       final_sum s = 49999995000000"
proof -
  obtain s where s: "lock_step\<^sup>*\<^sup>* init_state s" "\<forall>t. pc s t = Done"
    using lock_can_finish [OF reachable.start] by blast
  have r: "reachable s" using reachable_steps [OF s(1) reachable.start] .
  show ?thesis
    using r s(2) peterson_final_array [OF r] by (intro exI [of _ s]) (simp add: MAX_N_def)
qed

text \<open>
  C36. The threads never block each other for good: from every reachable state some schedule
  lets both of them return.
\<close>

theorem peterson_can_finish:
  "reachable s \<Longrightarrow> \<exists>s'. lock_step\<^sup>*\<^sup>* s s' \<and> pc s' T1 = Done \<and> pc s' T2 = Done"
  using lock_can_finish by blast

theorem peterson_can_finish_witness:
  "\<exists>s'. lock_step\<^sup>*\<^sup>* init_state s' \<and> pc s' T1 = Done \<and> pc s' T2 = Done"
  by (rule peterson_can_finish [OF reachable.start])

end
