(* ===== verification/Bytes.thy ===== *)
theory Bytes
  imports Fio_Prelude
begin

text \<open>
  Byte buffers: copies into a fixed buffer with the bounds written out, loads and stores of
  32- and 64-bit words in both byte orders, rotations.  The host is little-endian.
\<close>

section \<open>Copying into a buffer\<close>

text \<open>\<open>memcpy(buf + off, src, n)\<close> and \<open>memset\<close> on a buffer of known size.\<close>

definition blit :: "'a list \<Rightarrow> nat \<Rightarrow> 'a list \<Rightarrow> 'a list res" where
  "blit buf off src =
    (if off + length src \<le> length buf
     then Inr (take off buf @ src @ drop (off + length src) buf)
     else Inl Out_of_bounds)"

lemma blit_ok:
  "off + length src \<le> length buf \<Longrightarrow> blit buf off src = Inr (take off buf @ src @ drop (off + length src) buf)"
  by (simp add: blit_def)

lemma blit_length: "blit buf off src = Inr buf' \<Longrightarrow> length buf' = length buf"
  by (auto simp: blit_def split: if_splits)

lemma blit_take: "blit buf off src = Inr buf' \<Longrightarrow> take (off + length src) buf' = take off buf @ src"
  by (auto simp: blit_def split: if_splits)

section \<open>Words in memory\<close>

definition load_le32 :: "u8 list \<Rightarrow> nat \<Rightarrow> u32" where
  "load_le32 m i = ucast (m ! i) OR push_bit 8 (ucast (m ! (i + 1))) OR
     push_bit 16 (ucast (m ! (i + 2))) OR push_bit 24 (ucast (m ! (i + 3)))"

definition load_be32 :: "u8 list \<Rightarrow> nat \<Rightarrow> u32" where
  "load_be32 m i = ucast (m ! (i + 3)) OR push_bit 8 (ucast (m ! (i + 2))) OR
     push_bit 16 (ucast (m ! (i + 1))) OR push_bit 24 (ucast (m ! i))"

definition load_le64 :: "u8 list \<Rightarrow> nat \<Rightarrow> u64" where
  "load_le64 m i = ucast (load_le32 m i) OR push_bit 32 (ucast (load_le32 m (i + 4)))"

definition load_be64 :: "u8 list \<Rightarrow> nat \<Rightarrow> u64" where
  "load_be64 m i = ucast (load_be32 m (i + 4)) OR push_bit 32 (ucast (load_be32 m i))"

definition bytes_le32 :: "u32 \<Rightarrow> u8 list" where
  "bytes_le32 w = [ucast w, ucast (drop_bit 8 w), ucast (drop_bit 16 w), ucast (drop_bit 24 w)]"

definition bytes_be32 :: "u32 \<Rightarrow> u8 list" where
  "bytes_be32 w = [ucast (drop_bit 24 w), ucast (drop_bit 16 w), ucast (drop_bit 8 w), ucast w]"

definition bytes_le64 :: "u64 \<Rightarrow> u8 list" where
  "bytes_le64 w = bytes_le32 (ucast w) @ bytes_le32 (ucast (drop_bit 32 w))"

lemma length_bytes [simp]:
  "length (bytes_le32 w) = 4" "length (bytes_be32 w) = 4" "length (bytes_le64 v) = 8"
  by (simp_all add: bytes_le32_def bytes_be32_def bytes_le64_def)

section \<open>Rotations\<close>

definition rol :: "nat \<Rightarrow> 'a::len word \<Rightarrow> 'a word" where
  "rol s w = push_bit s w OR drop_bit (LENGTH('a) - s) w"

definition ror :: "nat \<Rightarrow> 'a::len word \<Rightarrow> 'a word" where
  "ror s w = drop_bit s w OR push_bit (LENGTH('a) - s) w"

end
