(* ===== verification/Block_Hash.thy ===== *)
theory Block_Hash
  imports Bytes
begin

text \<open>
  The contract of a digest that consumes its input in blocks of fixed size: an update
  compresses every full block of the pending bytes followed by the new ones and keeps the
  rest.  The locale fixes the concrete update together with its view as a hash value and a
  list of pending bytes; that input may be cut into pieces anywhere follows once for all
  digests that interpret it.
\<close>

section \<open>Reference\<close>

function absorb :: "('h \<Rightarrow> u8 list \<Rightarrow> 'h) \<Rightarrow> nat \<Rightarrow> 'h \<Rightarrow> u8 list \<Rightarrow> 'h \<times> u8 list" where
  "absorb f B h xs =
    (if B = 0 \<or> length xs < B then (h, xs) else absorb f B (f h (take B xs)) (drop B xs))"
  by pat_completeness auto
termination
  by (relation "measure (\<lambda>(f, B, h, xs). length xs)") auto

declare absorb.simps [simp del]

lemma absorb_short: "length xs < B \<Longrightarrow> absorb f B h xs = (h, xs)"
  by (simp add: absorb.simps)

lemma absorb_block: "0 < B \<Longrightarrow> length b = B \<Longrightarrow> absorb f B h (b @ xs) = absorb f B (f h b) xs"
  by (simp add: absorb.simps [of f B h "b @ xs"])

lemma absorb_rest: "0 < B \<Longrightarrow> length (snd (absorb f B h xs)) < B"
proof (induction f B h xs rule: absorb.induct)
  case (1 f B h xs)
  then show ?case by (subst absorb.simps) simp
qed

lemma absorb_rest_mod: "0 < B \<Longrightarrow> length (snd (absorb f B h xs)) = length xs mod B"
proof (induction f B h xs rule: absorb.induct)
  case (1 f B h xs)
  then show ?case by (subst absorb.simps) (simp add: le_mod_geq)
qed

lemma absorb_rest_drop: "0 < B \<Longrightarrow> snd (absorb f B h xs) = drop (length xs - length xs mod B) xs"
proof (induction f B h xs rule: absorb.induct)
  case (1 f B h xs)
  show ?case
  proof (cases "length xs < B")
    case True
    then show ?thesis by (simp add: absorb_short)
  next
    case False
    have "(length xs - B) mod B \<le> length xs - B" by simp
    then have "length xs - (B + (length xs - B) mod B) + B = length xs - (length xs - B) mod B"
      using False by linarith
    then show ?thesis
      using 1 False by (subst absorb.simps) (simp add: le_mod_geq)
  qed
qed

lemma absorb_append:
  "absorb f B h (xs @ ys) = (case absorb f B h xs of (h', r) \<Rightarrow> absorb f B h' (r @ ys))"
proof (induction f B h xs rule: absorb.induct)
  case (1 f B h xs)
  show ?case
  proof (cases "B = 0 \<or> length xs < B")
    case True
    then show ?thesis by (simp add: absorb.simps [of f B h xs])
  next
    case False
    then have "absorb f B h (xs @ ys) = absorb f B (f h (take B xs)) (drop B xs @ ys)"
      by (simp add: absorb.simps [of f B h "xs @ ys"])
    with 1 [OF False] False show ?thesis by (simp add: absorb.simps [of f B h xs])
  qed
qed

lemma absorb_cong:
  assumes "\<And>h b. P h \<Longrightarrow> f h b = g h b \<and> P (g h b)" "P h"
  shows "absorb f B h xs = absorb g B h xs \<and> P (fst (absorb g B h xs))"
  using assms(2)
proof (induction "length xs" arbitrary: h xs rule: less_induct)
  case less
  show ?case
  proof (cases "B = 0 \<or> length xs < B")
    case True
    then show ?thesis using less.prems by (simp add: absorb.simps)
  next
    case False
    then have "length (drop B xs) < length xs" by auto
    from less.hyps [OF this, of "g h (take B xs)"] assms(1) [OF less.prems] show ?thesis
      using False by (simp add: absorb.simps [of f B h xs] absorb.simps [of g B h xs])
  qed
qed

text \<open>The calls of a caller that passes its input in pieces.\<close>

primrec feed :: "('c \<Rightarrow> u8 list \<Rightarrow> 'c res) \<Rightarrow> 'c \<Rightarrow> u8 list list \<Rightarrow> 'c res" where
  "feed update c [] = Inr c"
| "feed update c (d # ds) = bindr (update c d) (\<lambda>c'. feed update c' ds)"

section \<open>Contract\<close>

locale block_digest =
  fixes compress :: "'h \<Rightarrow> u8 list \<Rightarrow> 'h"
    and blk :: nat
    and maxlen :: nat
    and inv :: "'c \<Rightarrow> bool"
    and hval :: "'c \<Rightarrow> 'h"
    and pend :: "'c \<Rightarrow> u8 list"
    and update :: "'c \<Rightarrow> u8 list \<Rightarrow> 'c res"
  assumes update_law: "inv c \<Longrightarrow> length d < maxlen \<Longrightarrow>
      \<exists>c'. update c d = Inr c' \<and> inv c' \<and> (hval c', pend c') = absorb compress blk (hval c) (pend c @ d)"
begin

text \<open>Two updates in a row have the effect of one with the concatenated input.\<close>

lemma update_append:
  assumes "inv c" "length a + length b < maxlen"
  shows "\<exists>c1 c2 c3. update c a = Inr c1 \<and> update c1 b = Inr c2 \<and> update c (a @ b) = Inr c3 \<and>
    inv c2 \<and> inv c3 \<and> hval c2 = hval c3 \<and> pend c2 = pend c3"
proof -
  obtain c1 where c1: "update c a = Inr c1" "inv c1"
    "(hval c1, pend c1) = absorb compress blk (hval c) (pend c @ a)"
    using update_law [OF assms(1), of a] assms(2) by auto
  obtain c2 where c2: "update c1 b = Inr c2" "inv c2"
    "(hval c2, pend c2) = absorb compress blk (hval c1) (pend c1 @ b)"
    using update_law [OF c1(2), of b] assms(2) by auto
  obtain c3 where c3: "update c (a @ b) = Inr c3" "inv c3"
    "(hval c3, pend c3) = absorb compress blk (hval c) (pend c @ (a @ b))"
    using update_law [OF assms(1), of "a @ b"] assms(2) by auto
  have "(hval c2, pend c2) = (hval c3, pend c3)"
    unfolding c2(3) c3(3) append_assoc [symmetric] absorb_append [of _ _ _ "pend c @ a"] c1(3) [symmetric]
    by simp
  with c1 c2 c3 show ?thesis by blast
qed

text \<open>Any sequence of updates amounts to one pass over the whole input.\<close>

lemma feed_absorb:
  assumes "inv c" "\<forall>d\<in>set ds. length d < maxlen" "0 < blk" "length (pend c) < blk"
  shows "\<exists>c'. feed update c ds = Inr c' \<and> inv c' \<and>
    (hval c', pend c') = absorb compress blk (hval c) (pend c @ concat ds)"
  using assms
proof (induction ds arbitrary: c)
  case Nil
  then show ?case by (simp add: absorb_short)
next
  case (Cons d ds)
  then obtain c1 where c1: "update c d = Inr c1" "inv c1"
    "(hval c1, pend c1) = absorb compress blk (hval c) (pend c @ d)"
    using update_law [of c d] by auto
  have "length (pend c1) < blk" using absorb_rest [OF Cons.prems(3)] c1(3) by (metis snd_conv)
  with Cons.IH [OF c1(2)] Cons.prems(2,3) obtain c' where
    "feed update c1 ds = Inr c'" "inv c'" "(hval c', pend c') = absorb compress blk (hval c1) (pend c1 @ concat ds)"
    by auto
  moreover have "absorb compress blk (hval c1) (pend c1 @ concat ds) =
      absorb compress blk (hval c) (pend c @ concat (d # ds))"
    unfolding concat.simps append_assoc [symmetric] absorb_append [of _ _ _ "pend c @ d"] c1(3) [symmetric]
    by simp
  ultimately show ?case using c1(1) by simp
qed

end

section \<open>Filling a buffer\<close>

text \<open>
  The two shapes that the updates of the digests share: the new bytes fit into the buffer
  behind the pending ones, or they complete the first block.
\<close>

lemma fill_partial:
  assumes "length buf = n" "p + length d \<le> n"
  shows "\<exists>buf'. blit buf p d = Inr buf' \<and> length buf' = n \<and> take (p + length d) buf' = take p buf @ d"
proof -
  have b: "blit buf p d = Inr (take p buf @ d @ drop (p + length d) buf)"
    using assms by (simp add: blit_ok)
  show ?thesis using b blit_length [OF b] blit_take [OF b] assms(1) by simp
qed

lemma fill_block: "length buf = n \<Longrightarrow> p \<le> n \<Longrightarrow> length d = n - p \<Longrightarrow> blit buf p d = Inr (take p buf @ d)"
  by (simp add: blit_ok)

lemma take_fill: "length xs = p \<Longrightarrow> p \<le> n \<Longrightarrow> take n (xs @ d) = xs @ take (n - p) d"
  by simp

lemma fold_upt_split: "m \<le> n \<Longrightarrow> n \<le> k \<Longrightarrow> fold f [m..<k] r = fold f [n..<k] (fold f [m..<n] r)"
  using upt_add_eq_append [of m n "k - n"] by simp

text \<open>A rolling window of size \<open>n\<close> has distinct slots.\<close>

lemma mod_window_neq:
  fixes j t n :: nat
  assumes "j < t" "t < j + n"
  shows "j mod n \<noteq> t mod n"
proof
  assume "j mod n = t mod n"
  then have "n dvd t - j" using assms(1) by (metis less_imp_le mod_eq_dvd_iff_nat)
  then have "n \<le> t - j" using assms(1) by (simp add: dvd_imp_le)
  with assms show False by linarith
qed

text \<open>The number of pending bytes after an update, for a counter that wraps at a multiple of the block size.\<close>

lemma unat_add_mod:
  fixes c :: "'a::len word"
  assumes "m dvd 2 ^ LENGTH('a)"
  shows "unat (c + of_nat n) mod m = (unat c mod m + n) mod m"
proof -
  have "unat (c + of_nat n) = (unat c + n) mod 2 ^ LENGTH('a)"
    by (simp add: unat_word_ariths unsigned_of_nat take_bit_eq_mod mod_simps)
  then show ?thesis using assms by (simp add: mod_mod_cancel mod_simps)
qed

section \<open>Whole blocks by a 32-bit index\<close>

text \<open>
  The loop \<open>while (i + (B - 1) < len) { compress(data + i); i += B; }\<close> over \<open>len\<close> bytes of data, with the
  index and the sum in the test of 32 bits as in the code.  A read past the data is an error.
\<close>

function blocks32 :: "('h \<Rightarrow> u8 list \<Rightarrow> 'h) \<Rightarrow> u32 \<Rightarrow> 'h \<Rightarrow> u8 list \<Rightarrow> u32 \<Rightarrow> ('h \<times> u32) res" where
  "blocks32 f B h data i =
    (if i + (B - 1) < of_nat (length data)
     then if B \<noteq> 0 \<and> unat i + unat B \<le> length data \<and> length data < 2 ^ 32
          then blocks32 f B (f h (take (unat B) (drop (unat i) data))) data (i + B)
          else Inl Out_of_bounds
     else Inr (h, i))"
  by pat_completeness auto
termination
proof (relation "measure (\<lambda>(f, B, h, data, i). length data - unat i)")
  fix f :: "'h \<Rightarrow> u8 list \<Rightarrow> 'h" and B :: u32 and h :: 'h and data :: "u8 list" and i :: u32
  assume B: "B \<noteq> 0 \<and> unat i + unat B \<le> length data \<and> length data < 2 ^ 32"
  then have "unat (i + B) = unat i + unat B" by (intro unat_add_no_wrap) simp
  moreover have "0 < unat B" using B by (simp add: unat_gt_0)
  ultimately show "((f, B, f h (take (unat B) (drop (unat i) data)), data, i + B), f, B, h, data, i) \<in>
      measure (\<lambda>(f, B, h, data, i). length data - unat i)"
    using B by simp linarith
qed simp

declare blocks32.simps [simp del]

lemma blocks32_absorb:
  assumes "0 < unat B" "length data + unat B \<le> 2 ^ 32" "unat i \<le> length data"
  shows "\<exists>j. blocks32 f B h data i = Inr (fst (absorb f (unat B) h (drop (unat i) data)), j) \<and>
    unat j \<le> length data \<and> drop (unat j) data = snd (absorb f (unat B) h (drop (unat i) data))"
  using assms
proof (induction f B h data i rule: blocks32.induct)
  case (1 f B h data i)
  have Bu: "unat (B - 1) = unat B - 1"
    using 1(2) by (metis unat_minus_one unat_0 less_irrefl)
  have len: "unat (of_nat (length data) :: u32) = length data"
    using 1(2,3) by (simp add: unsigned_of_nat take_bit_nat_eq_self)
  have "unat (i + (B - 1)) = unat i + (unat B - 1)"
    using 1(2-4) Bu by (subst unat_add_no_wrap) simp_all
  then have test: "i + (B - 1) < of_nat (length data) \<longleftrightarrow> unat B \<le> length data - unat i"
    using 1(2) len by (simp add: word_less_nat_alt) linarith
  show ?case
  proof (cases "unat B \<le> length data - unat i")
    case True
    have le: "unat i + unat B \<le> length data" using True 1(2) by linarith
    have ok: "B \<noteq> 0 \<and> unat i + unat B \<le> length data \<and> length data < 2 ^ 32"
      using le 1(2,3) by auto
    have i: "unat (i + B) = unat i + unat B" using 1(2,3) le by (intro unat_add_no_wrap) simp
    have "blocks32 f B h data i = blocks32 f B (f h (take (unat B) (drop (unat i) data))) data (i + B)"
      using True test ok by (simp add: blocks32.simps [of f B h data i])
    moreover have "absorb f (unat B) h (drop (unat i) data) =
        absorb f (unat B) (f h (take (unat B) (drop (unat i) data))) (drop (unat (i + B)) data)"
      using True 1(2) unfolding i by (simp add: absorb.simps [of f "unat B" h] add.commute)
    ultimately show ?thesis using 1(1) [OF _ ok] 1(2,3) True test le i by simp
  next
    case False
    then have "blocks32 f B h data i = Inr (h, i)" using test by (simp add: blocks32.simps [of f B h data i])
    then show ?thesis using False 1(4) by (simp add: absorb_short)
  qed
qed

text \<open>
  The body that the updates of SHA-256 and SHA-3 share: the block under way is completed in the
  buffer with a count \<open>done\<close> that starts at \<open>-partial\<close>, whole blocks are taken from the data and the
  rest goes to the buffer.  The result is the state, the buffer and the number of pending bytes.
\<close>

definition update32 :: "('h \<Rightarrow> u8 list \<Rightarrow> 'h) \<Rightarrow> u32 \<Rightarrow> u32 \<Rightarrow> 'h \<Rightarrow> u8 list \<Rightarrow> u8 list \<Rightarrow> ('h \<times> u8 list \<times> u32) res" where
  "update32 f B partial h buf data =
    (let len = of_nat (length data) :: u32
     in if partial + len > B - 1
        then bindr (if partial \<noteq> 0
                    then bindr (blit buf (unat partial) (take (unat (- partial + B)) data)) (\<lambda>buf. Inr (buf, - partial, buf))
                    else Inr (buf, 0, data)) (\<lambda>(buf, done, src).
             bindr (blocks32 f B (f h (take (unat B) src)) data (done + B)) (\<lambda>(h, done).
             bindr (blit buf 0 (take (unat (len - done)) (drop (unat done) data))) (\<lambda>buf.
             Inr (h, buf, len - done))))
        else bindr (blit buf (unat partial) data) (\<lambda>buf. Inr (h, buf, partial + len)))"

lemma update32_absorb:
  assumes "unat B \<le> length buf" "unat partial < unat B" "length d + unat B \<le> 2 ^ 32"
  shows "\<exists>h' buf' q. update32 f B partial h buf d = Inr (h', buf', q) \<and> length buf' = length buf \<and>
    unat q = (unat partial + length d) mod unat B \<and>
    (h', take (unat q) buf') = absorb f (unat B) h (take (unat partial) buf @ d)"
proof -
  define p where "p = unat partial"
  define n where "n = unat B"
  have p: "p < n" "n \<le> length buf" "length d + n \<le> 2 ^ 32" "0 < n"
    using assms by (simp_all add: p_def n_def)
  have len: "unat (of_nat (length d) :: u32) = length d"
    using p(3,4) by (simp add: unsigned_of_nat take_bit_nat_eq_self)
  have plen: "unat (partial + of_nat (length d)) = p + length d"
    using p len by (subst unat_add_no_wrap) (simp_all add: p_def)
  have "unat (B - 1) = n - 1" using p(4) unfolding n_def by (metis unat_minus_one unat_0 less_irrefl)
  then have test: "partial + of_nat (length d) > B - 1 \<longleftrightarrow> n \<le> p + length d"
    using plen p(4) by (simp add: word_less_nat_alt) linarith
  show ?thesis
  proof (cases "n \<le> p + length d")
    case False
    have "p + length d \<le> length buf" using False p(2) by linarith
    then obtain b where "blit buf p d = Inr b" "length b = length buf" "take (p + length d) b = take p buf @ d"
      using fill_partial [OF refl, of p d buf] by auto
    with False test plen show ?thesis
      using p(1,2) by (simp add: update32_def Let_def absorb_short flip: p_def n_def)
  next
    case True
    have Bp: "unat (- partial + B) = n - p"
    proof -
      have "- partial + B = B - partial" by simp
      then show ?thesis using assms(2) by (simp add: unat_sub_no_wrap word_le_nat_alt p_def n_def)
    qed
    define b0 where "b0 = take p buf @ take (n - p) d"
    have b0: "length b0 = n" using True p(1,2) by (simp add: b0_def)
    obtain buf1 dn src where s: "(if partial \<noteq> 0
        then bindr (blit buf p (take (unat (- partial + B)) d)) (\<lambda>buf. Inr (buf, - partial, buf))
        else Inr (buf, 0, d)) = Inr (buf1, dn, src)"
      "length buf1 = length buf" "take n src = b0" "unat (dn + B) = n - p"
    proof (cases "partial = 0")
      case True
      then show thesis using that [of buf 0 d] by (simp add: b0_def p_def n_def)
    next
      case False
      have "p + length (take (n - p) d) \<le> length buf" using p(1,2) True by simp
      then obtain b where b: "blit buf p (take (n - p) d) = Inr b" "length b = length buf"
        "take (p + length (take (n - p) d)) b = b0"
        using fill_partial [OF refl, of p "take (n - p) d" buf] unfolding b0_def by auto
      have "p + length (take (n - p) d) = n" using p(1) True by simp
      with b have "take n b = b0" by simp
      with b(1,2) False show thesis using that [of b "- partial" b] Bp by simp
    qed
    have le: "unat (dn + B) \<le> length d" using True s(4) by linarith
    obtain j where j: "blocks32 f B (f h b0) d (dn + B) = Inr (fst (absorb f n (f h b0) (drop (n - p) d)), j)"
      "unat j \<le> length d" "drop (unat j) d = snd (absorb f n (f h b0) (drop (n - p) d))"
      using blocks32_absorb [of B d "dn + B" f "f h b0"] le p(3,4) s(4) by (auto simp: n_def)
    have abs: "absorb f n h (take p buf @ d) = absorb f n (f h b0) (drop (n - p) d)"
      using absorb_block [OF p(4) b0, of f h "drop (n - p) d"] by (simp add: b0_def)
    have q: "unat (of_nat (length d) - j) = length (drop (unat j) d)"
      using j(2) len by (simp add: unat_sub_no_wrap word_le_nat_alt)
    have r: "length (drop (unat j) d) = (p + length d) mod n"
      using absorb_rest_mod [OF p(4), of f h "take p buf @ d"] p(1,2) j(3) abs by (simp add: min_def)
    have "length (drop (unat j) d) \<le> length buf1" using r p(2,4) s(2) by (metis less_imp_le mod_less_divisor order_trans)
    then obtain b2 where b2: "blit buf1 0 (drop (unat j) d) = Inr b2" "length b2 = length buf"
      "take (length (drop (unat j) d)) b2 = drop (unat j) d"
      using fill_partial [OF s(2), of 0 "drop (unat j) d"] s(2) by auto
    have "take (unat (of_nat (length d) - j)) (drop (unat j) d) = drop (unat j) d" using q by simp
    then have "update32 f B partial h buf d =
        Inr (fst (absorb f n (f h b0) (drop (n - p) d)), b2, of_nat (length d) - j)"
      unfolding update32_def Let_def p_def [symmetric] n_def [symmetric] s(1)
      using True test s(3) j(1) b2(1) by simp
    then show ?thesis using q r b2(2,3) j(3) abs by (simp flip: p_def n_def)
  qed
qed

end
