(* ===== verification/Md5.thy ===== *)
theory Md5
  imports Block_Hash
begin

text \<open>
  The MD5 digest of \<open>crc/md5.c\<close> and \<open>crc/md5.h\<close>.  The block is the 64 bytes of memory behind
  \<open>uint32_t block[16]\<close>; the transform reads them as little-endian words.
\<close>

section \<open>The transform\<close>

type_synonym round_fn = "u32 \<Rightarrow> u32 \<Rightarrow> u32 \<Rightarrow> u32"

definition F1 :: round_fn where "F1 x y z = z XOR (x AND (y XOR z))"
definition F2 :: round_fn where "F2 x y z = F1 z x y"
definition F3 :: round_fn where "F3 x y z = x XOR y XOR z"
definition F4 :: round_fn where "F4 x y z = y XOR (x OR NOT z)"

text \<open>
  One \<open>MD5STEP\<close>.  The C code names the registers \<open>a d c b\<close> in turn as the one to be changed;
  here they rotate instead, so that the register to be changed is always the first.
\<close>

definition MD5STEP :: "u8 list \<Rightarrow> round_fn \<times> nat \<times> u32 \<times> nat \<Rightarrow> u32 \<times> u32 \<times> u32 \<times> u32 \<Rightarrow> u32 \<times> u32 \<times> u32 \<times> u32" where
  "MD5STEP inp = (\<lambda>(f, i, k, s) (w, x, y, z).
     let w = w + f x y z + (load_le32 inp (4 * i) + k) in (z, rol s w + x, x, y))"

definition md5_steps :: "(round_fn \<times> nat \<times> u32 \<times> nat) list" where
  "md5_steps =
    [(F1, 0, 0xd76aa478, 7), (F1, 1, 0xe8c7b756, 12), (F1, 2, 0x242070db, 17), (F1, 3, 0xc1bdceee, 22),
     (F1, 4, 0xf57c0faf, 7), (F1, 5, 0x4787c62a, 12), (F1, 6, 0xa8304613, 17), (F1, 7, 0xfd469501, 22),
     (F1, 8, 0x698098d8, 7), (F1, 9, 0x8b44f7af, 12), (F1, 10, 0xffff5bb1, 17), (F1, 11, 0x895cd7be, 22),
     (F1, 12, 0x6b901122, 7), (F1, 13, 0xfd987193, 12), (F1, 14, 0xa679438e, 17), (F1, 15, 0x49b40821, 22),
     (F2, 1, 0xf61e2562, 5), (F2, 6, 0xc040b340, 9), (F2, 11, 0x265e5a51, 14), (F2, 0, 0xe9b6c7aa, 20),
     (F2, 5, 0xd62f105d, 5), (F2, 10, 0x02441453, 9), (F2, 15, 0xd8a1e681, 14), (F2, 4, 0xe7d3fbc8, 20),
     (F2, 9, 0x21e1cde6, 5), (F2, 14, 0xc33707d6, 9), (F2, 3, 0xf4d50d87, 14), (F2, 8, 0x455a14ed, 20),
     (F2, 13, 0xa9e3e905, 5), (F2, 2, 0xfcefa3f8, 9), (F2, 7, 0x676f02d9, 14), (F2, 12, 0x8d2a4c8a, 20),
     (F3, 5, 0xfffa3942, 4), (F3, 8, 0x8771f681, 11), (F3, 11, 0x6d9d6122, 16), (F3, 14, 0xfde5380c, 23),
     (F3, 1, 0xa4beea44, 4), (F3, 4, 0x4bdecfa9, 11), (F3, 7, 0xf6bb4b60, 16), (F3, 10, 0xbebfbc70, 23),
     (F3, 13, 0x289b7ec6, 4), (F3, 0, 0xeaa127fa, 11), (F3, 3, 0xd4ef3085, 16), (F3, 6, 0x04881d05, 23),
     (F3, 9, 0xd9d4d039, 4), (F3, 12, 0xe6db99e5, 11), (F3, 15, 0x1fa27cf8, 16), (F3, 2, 0xc4ac5665, 23),
     (F4, 0, 0xf4292244, 6), (F4, 7, 0x432aff97, 10), (F4, 14, 0xab9423a7, 15), (F4, 5, 0xfc93a039, 21),
     (F4, 12, 0x655b59c3, 6), (F4, 3, 0x8f0ccc92, 10), (F4, 10, 0xffeff47d, 15), (F4, 1, 0x85845dd1, 21),
     (F4, 8, 0x6fa87e4f, 6), (F4, 15, 0xfe2ce6e0, 10), (F4, 6, 0xa3014314, 15), (F4, 13, 0x4e0811a1, 21),
     (F4, 4, 0xf7537e82, 6), (F4, 11, 0xbd3af235, 10), (F4, 2, 0x2ad7d2bb, 15), (F4, 9, 0xeb86d391, 21)]"

definition md5_transform :: "u32 list \<Rightarrow> u8 list \<Rightarrow> u32 list" where
  "md5_transform hash inp =
    (let (a, b, c, d) = fold (MD5STEP inp) md5_steps (hash ! 0, hash ! 1, hash ! 2, hash ! 3)
     in [hash ! 0 + a, hash ! 1 + b, hash ! 2 + c, hash ! 3 + d])"

section \<open>The digest\<close>

record fio_md5_ctx =
  md5_hash :: "u32 list"
  md5_block :: "u8 list"
  byte_count :: u64

definition fio_md5_init :: "fio_md5_ctx \<Rightarrow> fio_md5_ctx" where
  "fio_md5_init mctx = mctx\<lparr>md5_hash := [0x67452301, 0xefcdab89, 0x98badcfe, 0x10325476]\<rparr>"

function md5_update_loop :: "u32 list \<Rightarrow> u8 list \<Rightarrow> u8 list \<Rightarrow> u32 list \<times> u8 list \<times> u8 list" where
  "md5_update_loop hash block data =
    (if length data \<ge> 64
     then md5_update_loop (md5_transform hash (take 64 data)) (take 64 data) (drop 64 data)
     else (hash, block, data))"
  by pat_completeness auto
termination
  by (relation "measure (\<lambda>(hash, block, data). length data)") auto

declare md5_update_loop.simps [simp del]

text \<open>The data argument is the \<open>len\<close> bytes the caller passes.\<close>

definition fio_md5_update :: "fio_md5_ctx \<Rightarrow> u8 list \<Rightarrow> fio_md5_ctx res" where
  "fio_md5_update mctx data =
    (let len = of_nat (length data) :: u32;
         avail = 64 - ucast (byte_count mctx AND 0x3f) :: u32;
         mctx = mctx\<lparr>byte_count := byte_count mctx + ucast len\<rparr>
     in if avail > len
        then bindr (blit (md5_block mctx) (64 - unat avail) data) (\<lambda>b. Inr (mctx\<lparr>md5_block := b\<rparr>))
        else bindr (blit (md5_block mctx) (64 - unat avail) (take (unat avail) data)) (\<lambda>b.
             let (h, b, rest) = md5_update_loop (md5_transform (md5_hash mctx) b) b (drop (unat avail) data)
             in bindr (blit b 0 rest) (\<lambda>b. Inr (mctx\<lparr>md5_hash := h, md5_block := b\<rparr>))))"

definition fio_md5_final :: "fio_md5_ctx \<Rightarrow> fio_md5_ctx res" where
  "fio_md5_final mctx =
    (let offset = unat (byte_count mctx AND 0x3f);
         padding = 56 - (int offset + 1)
     in bindr (blit (md5_block mctx) offset [0x80]) (\<lambda>b.
        bindr (if padding < 0
               then bindr (blit b (offset + 1) (replicate (nat (padding + 8)) 0)) (\<lambda>b.
                    Inr (md5_transform (md5_hash mctx) b, b, 0, 56))
               else Inr (md5_hash mctx, b, offset + 1, nat padding)) (\<lambda>(h, b, p, n).
        bindr (blit b p (replicate n 0)) (\<lambda>b.
        bindr (blit b 56 (bytes_le32 (ucast (push_bit 3 (byte_count mctx))))) (\<lambda>b.
        bindr (blit b 60 (bytes_le32 (ucast (drop_bit 29 (byte_count mctx))))) (\<lambda>b.
        Inr (mctx\<lparr>md5_hash := md5_transform h b, md5_block := b\<rparr>)))))))"

section \<open>The update keeps the contract of a block digest\<close>

definition md5_pend :: "fio_md5_ctx \<Rightarrow> u8 list" where
  "md5_pend c = take (unat (byte_count c AND 0x3f)) (md5_block c)"

definition md5_inv :: "fio_md5_ctx \<Rightarrow> bool" where
  "md5_inv c \<longleftrightarrow> length (md5_block c) = 64"

lemma md5_loop_absorb:
  "length block = 64 \<Longrightarrow>
   (case md5_update_loop hash block data of (h, b, rest) \<Rightarrow>
      absorb md5_transform 64 hash data = (h, rest) \<and> length b = 64 \<and> length rest < 64)"
proof (induction hash block data rule: md5_update_loop.induct)
  case (1 hash block data)
  show ?case
  proof (cases "length data \<ge> 64")
    case True
    then have "absorb md5_transform 64 hash data =
        absorb md5_transform 64 (md5_transform hash (take 64 data)) (drop 64 data)"
      by (simp add: absorb.simps [of _ _ hash])
    with 1 True show ?thesis by (simp add: md5_update_loop.simps [of hash block data])
  next
    case False
    with 1 show ?thesis by (simp add: md5_update_loop.simps [of hash block data] absorb_short)
  qed
qed

lemma md5_update_absorb:
  assumes "md5_inv c" "length d < 2 ^ 32"
  shows "\<exists>c'. fio_md5_update c d = Inr c' \<and> md5_inv c' \<and> byte_count c' = byte_count c + of_nat (length d) \<and>
    (md5_hash c', md5_pend c') = absorb md5_transform 64 (md5_hash c) (md5_pend c @ d)"
proof -
  define p where "p = unat (byte_count c AND 0x3f)"
  have p: "p < 64" "p = unat (byte_count c) mod 64" by (simp_all add: p_def word_nat)
  have len: "unat (of_nat (length d) :: u32) = length d"
    using assms(2) by (simp add: unsigned_of_nat take_bit_nat_eq_self)
  have ulen: "ucast (of_nat (length d) :: u32) = (of_nat (length d) :: u64)"
    using assms(2) by (simp add: word_unat_eq_iff len unsigned_of_nat take_bit_nat_eq_self)
  have pu: "unat (ucast (byte_count c AND 0x3f) :: u32) = p" by (simp add: p_def word_nat)
  have avail: "unat (64 - ucast (byte_count c AND 0x3f) :: u32) = 64 - p"
    using p(1) by (subst unat_sub_no_wrap) (simp_all add: word_le_nat_alt pu)
  have pend: "md5_pend c = take p (md5_block c)" "length (md5_pend c) = p"
    using assms(1) p(1) by (simp_all add: md5_pend_def p_def md5_inv_def)
  have p': "unat ((byte_count c + of_nat (length d)) AND 0x3f) = (p + length d) mod 64"
    using unat_add_mod [of 64 "byte_count c" "length d"] p(2) by (simp add: word_nat)
  show ?thesis
  proof (cases "length d < 64 - p")
    case True
    have "p + length d \<le> 64" using True by linarith
    then obtain b where b: "blit (md5_block c) p d = Inr b" "length b = 64"
      "take (p + length d) b = take p (md5_block c) @ d"
      using fill_partial [of "md5_block c" 64 p d] assms(1) by (auto simp: md5_inv_def)
    have "fio_md5_update c d = Inr (c\<lparr>byte_count := byte_count c + of_nat (length d), md5_block := b\<rparr>)"
      using True p(1) b(1) by (simp add: fio_md5_update_def Let_def word_less_nat_alt len ulen avail)
    then show ?thesis
      using True b(2,3) p' pend by (simp add: md5_inv_def md5_pend_def absorb_short)
  next
    case False
    have b: "blit (md5_block c) p (take (64 - p) d) = Inr (md5_pend c @ take (64 - p) d)"
      using fill_block [of "md5_block c" 64 p "take (64 - p) d"] assms(1) False p(1) pend(1)
      by (simp add: md5_inv_def)
    define b0 where "b0 = md5_pend c @ take (64 - p) d"
    have b0: "length b0 = 64" using False p(1) pend(2) by (simp add: b0_def)
    obtain h b1 rest where l: "md5_update_loop (md5_transform (md5_hash c) b0) b0 (drop (64 - p) d) = (h, b1, rest)"
      by (metis prod_cases3)
    have a: "absorb md5_transform 64 (md5_transform (md5_hash c) b0) (drop (64 - p) d) = (h, rest)"
      "length b1 = 64" "length rest < 64"
      using md5_loop_absorb [OF b0, of "md5_transform (md5_hash c) b0" "drop (64 - p) d"] l by auto
    have "md5_pend c @ d = b0 @ drop (64 - p) d" by (simp add: b0_def)
    then have abs: "absorb md5_transform 64 (md5_hash c) (md5_pend c @ d) = (h, rest)"
      using a(1) by (simp only: absorb_block [OF zero_less_numeral b0])
    have "length rest = (p + length d) mod 64"
      using absorb_rest_mod [of 64 md5_transform "md5_hash c" "md5_pend c @ d"] abs pend(2) by simp
    moreover obtain b2 where b2: "blit b1 0 rest = Inr b2" "length b2 = 64" "take (length rest) b2 = rest"
      using fill_partial [of b1 64 0 rest] a(2,3) by auto
    moreover have "fio_md5_update c d =
        Inr (c\<lparr>byte_count := byte_count c + of_nat (length d), md5_hash := h, md5_block := b2\<rparr>)"
      using False p(1) b b2(1) l
      by (simp add: fio_md5_update_def Let_def word_less_nat_alt len ulen avail b0_def)
    ultimately show ?thesis using p' abs by (simp add: md5_inv_def md5_pend_def)
  qed
qed

interpretation md5: block_digest md5_transform 64 "2 ^ 32" md5_inv md5_hash md5_pend fio_md5_update
  using md5_update_absorb by unfold_locales blast


lemma md5_feed_count:
  "md5_inv c \<Longrightarrow> \<forall>d\<in>set ds. length d < 2 ^ 32 \<Longrightarrow> feed fio_md5_update c ds = Inr c' \<Longrightarrow>
   byte_count c' = byte_count c + of_nat (length (concat ds))"
proof (induction ds arbitrary: c)
  case (Cons d ds)
  with md5_update_absorb [of c d] show ?case by (auto simp: add.assoc)
qed simp

section \<open>Padding\<close>

definition md5_padding :: "u64 \<Rightarrow> u8 list" where
  "md5_padding n =
    (let p = unat n mod 64
     in 0x80 # replicate (if p < 56 then 55 - p else 119 - p) 0 @ bytes_le64 (push_bit 3 n))"

definition md5_reference :: "u8 list \<Rightarrow> u32 list" where
  "md5_reference msg = fst (absorb md5_transform 64 [0x67452301, 0xefcdab89, 0x98badcfe, 0x10325476]
     (msg @ md5_padding (of_nat (length msg))))"

lemma md5_length_bytes:
  "bytes_le64 (push_bit 3 n) =
     bytes_le32 (ucast (push_bit 3 n)) @ bytes_le32 (ucast (drop_bit 29 n))" for n :: u64
proof -
  have "ucast (drop_bit 32 (push_bit 3 n)) = (ucast (drop_bit 29 n) :: u32)"
    unfolding word_eq_bits by (auto simp: bit_simps)
  then show ?thesis by (simp add: bytes_le64_def)
qed

lemma blit_two:
  assumes "length b = 64" "length x = 4" "length y = 4"
  shows "bindr (blit b 56 x) (\<lambda>b. bindr (blit b 60 y) k) = k (take 56 b @ x @ y)"
proof -
  have "blit b 56 x = Inr (take 56 b @ x @ drop 60 b)" using assms by (simp add: blit_ok)
  moreover have "blit (take 56 b @ x @ drop 60 b) 60 y = Inr (take 56 b @ x @ y)"
    using assms by (subst fill_block [of _ 64]) simp_all
  ultimately show ?thesis by simp
qed

lemma md5_final_absorb:
  assumes "md5_inv c"
  shows "\<exists>c'. fio_md5_final c = Inr c' \<and>
    (md5_hash c', []) = absorb md5_transform 64 (md5_hash c) (md5_pend c @ md5_padding (byte_count c))"
proof -
  define p where "p = unat (byte_count c AND 0x3f)"
  have p: "p < 64" "unat (byte_count c) mod 64 = p" by (simp_all add: p_def word_nat)
  have len: "length (md5_block c) = 64" using assms by (simp add: md5_inv_def)
  have pend: "md5_pend c = take p (md5_block c)" "length (md5_pend c) = p"
    using len p(1) by (simp_all add: md5_pend_def p_def)
  let ?lo = "bytes_le32 (ucast (push_bit 3 (byte_count c)))" and ?hi = "bytes_le32 (ucast (drop_bit 29 (byte_count c)))"
  define b1 where "b1 = md5_pend c @ [0x80] @ drop (p + 1) (md5_block c)"
  have b1: "blit (md5_block c) p [0x80] = Inr b1" "length b1 = 64" "take (p + 1) b1 = md5_pend c @ [0x80]"
    using len p(1) pend by (simp_all add: blit_ok b1_def)
  have f: "fio_md5_final c =
      bindr (if 56 \<le> p
             then bindr (blit b1 (p + 1) (replicate (63 - p) 0)) (\<lambda>b. Inr (md5_transform (md5_hash c) b, b, 0, 56))
             else Inr (md5_hash c, b1, p + 1, 55 - p)) (\<lambda>(h, b, p, n).
      bindr (blit b p (replicate n 0)) (\<lambda>b.
      bindr (blit b 56 ?lo) (\<lambda>b. bindr (blit b 60 ?hi) (\<lambda>b.
        Inr (c\<lparr>md5_hash := md5_transform h b, md5_block := b\<rparr>)))))"
    using p(1) b1(1) by (simp add: fio_md5_final_def Let_def flip: p_def) (simp add: nat_diff_distrib' of_nat_diff)
  show ?thesis
  proof (cases "p < 56")
    case True
    obtain b2 where b2: "blit b1 (p + 1) (replicate (55 - p) 0) = Inr b2" "length b2 = 64"
      "take 56 b2 = md5_pend c @ [0x80] @ replicate (55 - p) 0"
      using fill_partial [OF b1(2), of "p + 1" "replicate (55 - p) 0"] True b1(3) by auto
    let ?blk = "md5_pend c @ md5_padding (byte_count c)"
    have blk: "?blk = take 56 b2 @ ?lo @ ?hi"
      using True by (simp add: md5_padding_def p(2) Let_def md5_length_bytes b2(3))
    have "length ?blk = 64" using b2(2) by (simp add: blk)
    then have "absorb md5_transform 64 (md5_hash c) ?blk = (md5_transform (md5_hash c) ?blk, [])"
      using absorb_block [of 64 ?blk _ _ "[]"] by (simp add: absorb_short)
    then show ?thesis
      using True b2 by (simp add: f blit_two blk)
  next
    case False
    define b2 where "b2 = md5_pend c @ [0x80] @ replicate (63 - p) 0"
    have b2: "blit b1 (p + 1) (replicate (63 - p) 0) = Inr b2" "length b2 = 64"
      using fill_block [OF b1(2), of "p + 1" "replicate (63 - p) 0"] b1(3) p(1) pend(2)
      by (simp_all add: b2_def)
    obtain b3 where b3: "blit b2 0 (replicate 56 0) = Inr b3" "length b3 = 64" "take 56 b3 = replicate 56 0"
      using fill_partial [OF b2(2), of 0 "replicate 56 0"] by auto
    let ?blk = "take 56 b3 @ ?lo @ ?hi"
    have "replicate (119 - p) (0 :: u8) = replicate (63 - p) 0 @ replicate 56 0"
      using p(1) by (simp flip: replicate_add)
    then have split: "md5_pend c @ md5_padding (byte_count c) = b2 @ ?blk @ []"
      using False by (simp add: md5_padding_def p(2) Let_def md5_length_bytes b2_def b3(3))
    have "length ?blk = 64" using b3(2) by simp
    then have "absorb md5_transform 64 (md5_hash c) (md5_pend c @ md5_padding (byte_count c)) =
        (md5_transform (md5_transform (md5_hash c) b2) ?blk, [])"
      unfolding split by (simp only: absorb_block b2(2) zero_less_numeral) (simp add: absorb_short)
    then show ?thesis using False b2(1) b3 by (simp add: f blit_two)
  qed
qed

section \<open>Properties\<close>



end
