(* ===== verification/Sha1.thy ===== *)
theory Sha1
  imports Block_Hash
begin

text \<open>
  The SHA-1 digest of \<open>crc/sha1.c\<close>.  The context holds the five hash words behind the pointer
  \<open>H\<close>, the 64 bytes of memory behind \<open>unsigned int W[16]\<close> and the number of bytes taken so far.
  The block function keeps only the last sixteen schedule words in a rolling array; it is
  proved equal to the schedule of FIPS 180.
\<close>

section \<open>The block function\<close>

text \<open>
  One \<open>SHA_ROUND\<close>.  The C code renames the registers from round to round; here they rotate, so
  that the register \<open>E\<close> that is added to becomes the first one of the next round.
\<close>

type_synonym sha1_regs = "u32 \<times> u32 \<times> u32 \<times> u32 \<times> u32"

definition SHA_SRC :: "u8 list \<Rightarrow> u32 list \<Rightarrow> nat \<Rightarrow> u32" where
  "SHA_SRC data array t = load_be32 data (4 * t)"

definition SHA_MIX :: "u8 list \<Rightarrow> u32 list \<Rightarrow> nat \<Rightarrow> u32" where
  "SHA_MIX data array t =
    rol 1 (array ! ((t + 13) mod 16) XOR array ! ((t + 8) mod 16) XOR array ! ((t + 2) mod 16) XOR array ! (t mod 16))"

definition SHA_ROUND :: "(u8 list \<Rightarrow> u32 list \<Rightarrow> nat \<Rightarrow> u32) \<Rightarrow> (u32 \<Rightarrow> u32 \<Rightarrow> u32 \<Rightarrow> u32) \<Rightarrow> u32 \<Rightarrow>
    u8 list \<Rightarrow> nat \<Rightarrow> sha1_regs \<times> u32 list \<Rightarrow> sha1_regs \<times> u32 list" where
  "SHA_ROUND input fn constant data t = (\<lambda>((A, B, C, D, E), array).
     let TEMP = input data array t;
         array = array[t mod 16 := TEMP];
         E = E + (TEMP + rol 5 A + fn B C D + constant)
     in ((E, A, ror 2 B, C, D), array))"

definition T_0_15 :: "u8 list \<Rightarrow> nat \<Rightarrow> sha1_regs \<times> u32 list \<Rightarrow> sha1_regs \<times> u32 list" where
  "T_0_15 = SHA_ROUND SHA_SRC (\<lambda>B C D. ((C XOR D) AND B) XOR D) 0x5a827999"

definition T_16_19 :: "u8 list \<Rightarrow> nat \<Rightarrow> sha1_regs \<times> u32 list \<Rightarrow> sha1_regs \<times> u32 list" where
  "T_16_19 = SHA_ROUND SHA_MIX (\<lambda>B C D. ((C XOR D) AND B) XOR D) 0x5a827999"

definition T_20_39 :: "u8 list \<Rightarrow> nat \<Rightarrow> sha1_regs \<times> u32 list \<Rightarrow> sha1_regs \<times> u32 list" where
  "T_20_39 = SHA_ROUND SHA_MIX (\<lambda>B C D. B XOR C XOR D) 0x6ed9eba1"

definition T_40_59 :: "u8 list \<Rightarrow> nat \<Rightarrow> sha1_regs \<times> u32 list \<Rightarrow> sha1_regs \<times> u32 list" where
  "T_40_59 = SHA_ROUND SHA_MIX (\<lambda>B C D. (B AND C) + (D AND (B XOR C))) 0x8f1bbcdc"

definition T_60_79 :: "u8 list \<Rightarrow> nat \<Rightarrow> sha1_regs \<times> u32 list \<Rightarrow> sha1_regs \<times> u32 list" where
  "T_60_79 = SHA_ROUND SHA_MIX (\<lambda>B C D. B XOR C XOR D) 0xca62c1d6"

text \<open>The 80 rounds; after them the registers are back in the order of their names.  The array is not initialised by the code; its first contents are the argument.\<close>

definition sha1_rounds :: "u8 list \<Rightarrow> sha1_regs \<times> u32 list \<Rightarrow> sha1_regs \<times> u32 list" where
  "sha1_rounds data s =
    fold (T_60_79 data) [60..<80] (fold (T_40_59 data) [40..<60] (fold (T_20_39 data) [20..<40]
      (fold (T_16_19 data) [16..<20] (fold (T_0_15 data) [0..<16] s))))"

definition blk_SHA1Block :: "u32 list \<Rightarrow> u8 list \<Rightarrow> u32 list" where
  "blk_SHA1Block H data =
    (let ((A, B, C, D, E), _) = sha1_rounds data ((H ! 0, H ! 1, H ! 2, H ! 3, H ! 4), replicate 16 0)
     in [H ! 0 + A, H ! 1 + B, H ! 2 + C, H ! 3 + D, H ! 4 + E])"

section \<open>The schedule of FIPS 180\<close>

fun sha1_sched :: "u8 list \<Rightarrow> nat \<Rightarrow> u32" where
  "sha1_sched data t =
    (if t < 16 then load_be32 data (4 * t)
     else rol 1 (sha1_sched data (t - 3) XOR sha1_sched data (t - 8) XOR sha1_sched data (t - 14) XOR
       sha1_sched data (t - 16)))"

declare sha1_sched.simps [simp del]

definition sha1_f :: "nat \<Rightarrow> u32 \<Rightarrow> u32 \<Rightarrow> u32 \<Rightarrow> u32" where
  "sha1_f t b c d =
    (if t < 20 then (b AND c) XOR (NOT b AND d)
     else if 40 \<le> t \<and> t < 60 then (b AND c) XOR (b AND d) XOR (c AND d)
     else b XOR c XOR d)"

definition sha1_K :: "nat \<Rightarrow> u32" where
  "sha1_K t = (if t < 20 then 0x5a827999 else if t < 40 then 0x6ed9eba1 else if t < 60 then 0x8f1bbcdc else 0xca62c1d6)"

definition sha1_ref_round :: "u8 list \<Rightarrow> nat \<Rightarrow> sha1_regs \<Rightarrow> sha1_regs" where
  "sha1_ref_round data t = (\<lambda>(a, b, c, d, e).
     (rol 5 a + sha1_f t b c d + e + sha1_K t + sha1_sched data t, a, rol 30 b, c, d))"

definition sha1_ref_block :: "u32 list \<Rightarrow> u8 list \<Rightarrow> u32 list" where
  "sha1_ref_block H data =
    (let (a, b, c, d, e) = fold (sha1_ref_round data) [0..<80] (H ! 0, H ! 1, H ! 2, H ! 3, H ! 4)
     in [H ! 0 + a, H ! 1 + b, H ! 2 + c, H ! 3 + d, H ! 4 + e])"

text \<open>The rolling array holds the last sixteen words of the schedule before round \<open>t\<close>.\<close>

definition rolling :: "u8 list \<Rightarrow> nat \<Rightarrow> u32 list \<Rightarrow> bool" where
  "rolling data t array \<longleftrightarrow> length array = 16 \<and> (\<forall>j<t. t \<le> j + 16 \<longrightarrow> array ! (j mod 16) = sha1_sched data j)"

lemma rolling_get: "rolling data t array \<Longrightarrow> j < t \<Longrightarrow> t \<le> j + 16 \<Longrightarrow> array ! (j mod 16) = sha1_sched data j"
  by (simp add: rolling_def)

lemma rolling_set:
  assumes "rolling data t array" "w = sha1_sched data t"
  shows "rolling data (Suc t) (array[t mod 16 := w])"
proof -
  have "array[t mod 16 := w] ! (j mod 16) = sha1_sched data j" if "j < Suc t" "Suc t \<le> j + 16" for j
  proof (cases "j = t")
    case True
    then show ?thesis using assms by (simp add: rolling_def)
  next
    case False
    with that have j: "j < t" "t < j + 16" by simp_all
    then have "j mod 16 \<noteq> t mod 16" by (rule mod_window_neq)
    then show ?thesis using assms(1) j by (simp add: rolling_def)
  qed
  then show ?thesis using assms(1) by (simp add: rolling_def)
qed

lemma SHA_SRC_sched: "t < 16 \<Longrightarrow> SHA_SRC data array t = sha1_sched data t"
  by (simp add: SHA_SRC_def sha1_sched.simps)

lemma SHA_MIX_sched:
  assumes "rolling data t array" "16 \<le> t"
  shows "SHA_MIX data array t = sha1_sched data t"
proof -
  have e: "t + 13 = t - 3 + 16" "t + 8 = t - 8 + 16" "t + 2 = t - 14 + 16" and e4: "t = t - 16 + 16"
    using assms(2) by simp_all
  have "SHA_MIX data array t = rol 1 (array ! ((t - 3) mod 16) XOR array ! ((t - 8) mod 16) XOR
      array ! ((t - 14) mod 16) XOR array ! (t mod 16))"
    unfolding SHA_MIX_def e mod_add_self2 ..
  also have "t mod 16 = (t - 16) mod 16" by (subst e4) (rule mod_add_self2)
  finally show ?thesis
    using assms by (simp add: sha1_sched.simps [of data t] rolling_get)
qed

lemma ror_rol_2: "ror 2 w = rol 30 w" for w :: u32
  by (simp add: ror_def rol_def or.commute flip: push_bit_eq_mult)

lemma sha1_choose: "((c XOR d) AND b) XOR d = (b AND c) XOR (NOT b AND d)" for b c d :: u32
  unfolding word_eq_bits by (auto simp: bit_simps)

lemma sha1_majority: "(b AND c) + (d AND (b XOR c)) = (b AND c) XOR (b AND d) XOR (c AND d)" for b c d :: u32
proof -
  have "(b AND c) AND (d AND (b XOR c)) = 0" unfolding word_eq_bits by (auto simp: bit_simps)
  then have "(b AND c) + (d AND (b XOR c)) = (b AND c) OR (d AND (b XOR c))"
    by (rule disjunctive_add_eq_or)
  also have "\<dots> = (b AND c) XOR (b AND d) XOR (c AND d)" unfolding word_eq_bits by (auto simp: bit_simps)
  finally show ?thesis .
qed

lemma sha1_round_ref:
  assumes "input data array t = sha1_sched data t" "\<And>B C D. fn B C D = sha1_f t B C D" "k = sha1_K t"
    "rolling data t array"
  shows "\<exists>array'. SHA_ROUND input fn k data t (r, array) = (sha1_ref_round data t r, array') \<and>
    rolling data (Suc t) array'"
proof -
  obtain a b c d e where r: "r = (a, b, c, d, e)" by (metis prod_cases5)
  have "SHA_ROUND input fn k data t (r, array) = (sha1_ref_round data t r, array[t mod 16 := sha1_sched data t])"
    unfolding SHA_ROUND_def sha1_ref_round_def r Let_def assms(1-3) ror_rol_2
    by (simp add: assms(1) add.commute add.left_commute)
  then show ?thesis using rolling_set [OF assms(4) refl] by blast
qed

lemma fold_rounds:
  assumes "\<And>t r array. m \<le> t \<Longrightarrow> t < n \<Longrightarrow> rolling data t array \<Longrightarrow>
      \<exists>array'. T t (r, array) = (sha1_ref_round data t r, array') \<and> rolling data (Suc t) array'"
    and "m \<le> n" "rolling data m array"
  shows "\<exists>array'. fold T [m..<n] (r, array) = (fold (sha1_ref_round data) [m..<n] r, array') \<and> rolling data n array'"
  using assms(2,1)
proof (induction n rule: dec_induct)
  case base
  then show ?case using assms(3) by simp
next
  case (step n)
  then obtain a where a: "fold T [m..<n] (r, array) = (fold (sha1_ref_round data) [m..<n] r, a)" "rolling data n a"
    by (meson less_SucI)
  then show ?case using step.prems [of n a] step.hyps by (simp add: upt_Suc_append)
qed

lemma T_0_15_ref:
  "0 \<le> t \<Longrightarrow> t < 16 \<Longrightarrow> rolling data t array \<Longrightarrow>
   \<exists>array'. T_0_15 data t (r, array) = (sha1_ref_round data t r, array') \<and> rolling data (Suc t) array'"
  unfolding T_0_15_def by (rule sha1_round_ref) (simp_all add: SHA_SRC_sched sha1_f_def sha1_K_def sha1_choose)

lemma T_16_19_ref:
  "16 \<le> t \<Longrightarrow> t < 20 \<Longrightarrow> rolling data t array \<Longrightarrow>
   \<exists>array'. T_16_19 data t (r, array) = (sha1_ref_round data t r, array') \<and> rolling data (Suc t) array'"
  unfolding T_16_19_def by (rule sha1_round_ref) (simp_all add: SHA_MIX_sched sha1_f_def sha1_K_def sha1_choose)

lemma T_20_39_ref:
  "20 \<le> t \<Longrightarrow> t < 40 \<Longrightarrow> rolling data t array \<Longrightarrow>
   \<exists>array'. T_20_39 data t (r, array) = (sha1_ref_round data t r, array') \<and> rolling data (Suc t) array'"
  unfolding T_20_39_def by (rule sha1_round_ref) (simp_all add: SHA_MIX_sched sha1_f_def sha1_K_def )

lemma T_40_59_ref:
  "40 \<le> t \<Longrightarrow> t < 60 \<Longrightarrow> rolling data t array \<Longrightarrow>
   \<exists>array'. T_40_59 data t (r, array) = (sha1_ref_round data t r, array') \<and> rolling data (Suc t) array'"
  unfolding T_40_59_def by (rule sha1_round_ref) (simp_all add: SHA_MIX_sched sha1_f_def sha1_K_def sha1_majority)

lemma T_60_79_ref:
  "60 \<le> t \<Longrightarrow> t < 80 \<Longrightarrow> rolling data t array \<Longrightarrow>
   \<exists>array'. T_60_79 data t (r, array) = (sha1_ref_round data t r, array') \<and> rolling data (Suc t) array'"
  unfolding T_60_79_def by (rule sha1_round_ref) (simp_all add: SHA_MIX_sched sha1_f_def sha1_K_def )

lemma sha1_rounds_ref:
  assumes "length array = 16"
  shows "fst (sha1_rounds data (r, array)) = fold (sha1_ref_round data) [0..<80] r"
proof -
  let ?R = "\<lambda>m n. fold (sha1_ref_round data) [m..<n]"
  define r1 r2 r3 r4 where "r1 = ?R 0 16 r" and "r2 = ?R 16 20 r1" and "r3 = ?R 20 40 r2" and "r4 = ?R 40 60 r3"
  have "rolling data 0 array" using assms by (simp add: rolling_def)
  then obtain a1 where a1: "fold (T_0_15 data) [0..<16] (r, array) = (r1, a1)" "rolling data 16 a1"
    unfolding r1_def using fold_rounds [OF T_0_15_ref] by blast
  obtain a2 where a2: "fold (T_16_19 data) [16..<20] (r1, a1) = (r2, a2)" "rolling data 20 a2"
    unfolding r2_def using fold_rounds [OF T_16_19_ref _ a1(2), of 20] by fastforce
  obtain a3 where a3: "fold (T_20_39 data) [20..<40] (r2, a2) = (r3, a3)" "rolling data 40 a3"
    unfolding r3_def using fold_rounds [OF T_20_39_ref _ a2(2), of 40] by fastforce
  obtain a4 where a4: "fold (T_40_59 data) [40..<60] (r3, a3) = (r4, a4)" "rolling data 60 a4"
    unfolding r4_def using fold_rounds [OF T_40_59_ref _ a3(2), of 60] by fastforce
  obtain a5 where a5: "fold (T_60_79 data) [60..<80] (r4, a4) = (?R 60 80 r4, a5)" 
    using fold_rounds [OF T_60_79_ref _ a4(2), of 80] by fastforce
  have "?R 0 80 r = ?R 60 80 r4"
    unfolding r4_def r3_def r2_def r1_def
    by (simp only: fold_upt_split [of 0 16 80] fold_upt_split [of 16 20 80] fold_upt_split [of 20 40 80]
        fold_upt_split [of 40 60 80])
  then show ?thesis by (simp only: sha1_rounds_def a1(1) a2(1) a3(1) a4(1) a5 fst_conv)
qed

section \<open>The digest\<close>

record fio_sha1_ctx =
  sha1_H :: "u32 list"
  sha1_W :: "u8 list"
  sha1_size :: u64

definition sha1_iv :: "u32 list" where
  "sha1_iv = [0x67452301, 0xefcdab89, 0x98badcfe, 0x10325476, 0xc3d2e1f0]"

definition fio_sha1_init :: "fio_sha1_ctx \<Rightarrow> fio_sha1_ctx" where
  "fio_sha1_init ctx = ctx\<lparr>sha1_size := 0, sha1_H := sha1_iv\<rparr>"

text \<open>The loop over whole blocks is \<^const>\<open>absorb\<close>: as long as 64 bytes are left it hashes them and moves on.\<close>

definition sha1_update_tail :: "fio_sha1_ctx \<Rightarrow> u8 list \<Rightarrow> fio_sha1_ctx res" where
  "sha1_update_tail ctx data =
    (let (h, rest) = absorb blk_SHA1Block 64 (sha1_H ctx) data;
         ctx = ctx\<lparr>sha1_H := h\<rparr>
     in if rest \<noteq> [] then bindr (blit (sha1_W ctx) 0 rest) (\<lambda>w. Inr (ctx\<lparr>sha1_W := w\<rparr>)) else Inr ctx)"

definition fio_sha1_update :: "fio_sha1_ctx \<Rightarrow> u8 list \<Rightarrow> fio_sha1_ctx res" where
  "fio_sha1_update ctx data =
    (let lenW = unat (sha1_size ctx AND 63);
         ctx = ctx\<lparr>sha1_size := sha1_size ctx + of_nat (length data)\<rparr>
     in if lenW \<noteq> 0
        then let left = (if length data < 64 - lenW then length data else 64 - lenW)
             in bindr (blit (sha1_W ctx) lenW (take left data)) (\<lambda>w.
                  let ctx = ctx\<lparr>sha1_W := w\<rparr>; lenW = (lenW + left) mod 64; data = drop left data
                  in if lenW \<noteq> 0 then Inr ctx
                     else sha1_update_tail (ctx\<lparr>sha1_H := blk_SHA1Block (sha1_H ctx) w\<rparr>) data)
        else sha1_update_tail ctx data)"

text \<open>\<open>htonl\<close> followed by the copy of the two words puts the bit count into memory in big-endian order.\<close>

definition fio_sha1_final :: "fio_sha1_ctx \<Rightarrow> fio_sha1_ctx res" where
  "fio_sha1_final ctx =
    (let padlen = bytes_be32 (ucast (drop_bit 29 (sha1_size ctx))) @ bytes_be32 (ucast (push_bit 3 (sha1_size ctx)));
         i = unat (sha1_size ctx AND 63);
         pad = 0x80 # replicate 63 0
     in bindr (fio_sha1_update ctx (take (1 + nat ((55 - int i) mod 64)) pad)) (\<lambda>ctx.
        fio_sha1_update ctx padlen))"

section \<open>The update keeps the contract of a block digest\<close>

definition sha1_pend :: "fio_sha1_ctx \<Rightarrow> u8 list" where
  "sha1_pend c = take (unat (sha1_size c AND 63)) (sha1_W c)"

definition sha1_inv :: "fio_sha1_ctx \<Rightarrow> bool" where
  "sha1_inv c \<longleftrightarrow> length (sha1_W c) = 64"

lemma sha1_tail_absorb:
  assumes "length (sha1_W c) = 64"
    and "unat (sha1_size c AND 63) = length data mod 64"
  shows "\<exists>c'. sha1_update_tail c data = Inr c' \<and> sha1_inv c' \<and> sha1_size c' = sha1_size c \<and>
    (sha1_H c', sha1_pend c') = absorb blk_SHA1Block 64 (sha1_H c) data"
proof -
  obtain h rest where a: "absorb blk_SHA1Block 64 (sha1_H c) data = (h, rest)" by fastforce
  have r: "length rest = length data mod 64" "length rest < 64"
    using absorb_rest_mod [of 64 blk_SHA1Block "sha1_H c" data] absorb_rest [of 64 blk_SHA1Block "sha1_H c" data] a
    by simp_all
  obtain w where w: "blit (sha1_W c) 0 rest = Inr w" "length w = 64" "take (length rest) w = rest"
    using fill_partial [OF assms(1), of 0 rest] r(2) by auto
  show ?thesis
  proof (cases "rest = []")
    case True
    then show ?thesis
      using assms r(1) a by (simp add: sha1_update_tail_def sha1_inv_def sha1_pend_def)
  next
    case False
    then have "sha1_update_tail c data = Inr (c\<lparr>sha1_H := h, sha1_W := w\<rparr>)"
      using a w(1) by (simp add: sha1_update_tail_def)
    then show ?thesis using w assms r(1) a by (simp add: sha1_inv_def sha1_pend_def)
  qed
qed

lemma sha1_update_absorb:
  assumes "sha1_inv c" "length d < 2 ^ 64"
  shows "\<exists>c'. fio_sha1_update c d = Inr c' \<and> sha1_inv c' \<and> sha1_size c' = sha1_size c + of_nat (length d) \<and>
    (sha1_H c', sha1_pend c') = absorb blk_SHA1Block 64 (sha1_H c) (sha1_pend c @ d)"
proof -
  define p where "p = unat (sha1_size c AND 63)"
  have p: "p < 64" "p = unat (sha1_size c) mod 64" by (simp_all add: p_def word_nat)
  have pend: "sha1_pend c = take p (sha1_W c)" "length (sha1_pend c) = p"
    using assms(1) p(1) by (simp_all add: sha1_pend_def p_def sha1_inv_def)
  have p': "unat ((sha1_size c + of_nat (length d)) AND 63) = (p + length d) mod 64"
    using unat_add_mod [of 64 "sha1_size c" "length d"] p(2) by (simp add: word_nat)
  consider "p = 0" | "p \<noteq> 0" "length d < 64 - p" | "p \<noteq> 0" "64 - p \<le> length d" by linarith
  then show ?thesis
  proof cases
    case 1
    let ?c = "c\<lparr>sha1_size := sha1_size c + of_nat (length d)\<rparr>"
    have "fio_sha1_update c d = sha1_update_tail ?c d"
      using 1 by (simp add: fio_sha1_update_def Let_def flip: p_def)
    then show ?thesis
      using sha1_tail_absorb [of ?c d] 1 p' assms(1) pend(1) by (simp add: sha1_inv_def)
  next
    case 2
    have "p + length d \<le> 64" using 2 by linarith
    then obtain b where b: "blit (sha1_W c) p d = Inr b" "length b = 64"
      "take (p + length d) b = take p (sha1_W c) @ d"
      using fill_partial [of "sha1_W c" 64 p d] assms(1) by (auto simp: sha1_inv_def)
    have "fio_sha1_update c d = Inr (c\<lparr>sha1_size := sha1_size c + of_nat (length d), sha1_W := b\<rparr>)"
      using 2 b(1) by (simp add: fio_sha1_update_def Let_def flip: p_def)
    then show ?thesis
      using 2 b(2,3) p' pend by (simp add: sha1_inv_def sha1_pend_def absorb_short)
  next
    case 3
    define b where "b = sha1_pend c @ take (64 - p) d"
    have b: "blit (sha1_W c) p (take (64 - p) d) = Inr b" "length b = 64"
      using fill_block [of "sha1_W c" 64 p "take (64 - p) d"] assms(1) 3 p(1) pend
      by (simp_all add: sha1_inv_def b_def)
    let ?c = "c\<lparr>sha1_size := sha1_size c + of_nat (length d), sha1_W := b, sha1_H := blk_SHA1Block (sha1_H c) b\<rparr>"
    have "fio_sha1_update c d = sha1_update_tail ?c (drop (64 - p) d)"
      using 3 p(1) b(1) by (simp add: fio_sha1_update_def Let_def flip: p_def)
    moreover have "(p + length d) mod 64 = length (drop (64 - p) d) mod 64"
      using 3 p(1) by (simp add: le_mod_geq add.commute)
    moreover have "absorb blk_SHA1Block 64 (sha1_H c) (sha1_pend c @ d) =
        absorb blk_SHA1Block 64 (blk_SHA1Block (sha1_H c) b) (drop (64 - p) d)"
      using absorb_block [OF _ b(2), of blk_SHA1Block "sha1_H c" "drop (64 - p) d"] by (simp add: b_def)
    ultimately show ?thesis
      using sha1_tail_absorb [of ?c "drop (64 - p) d"] p' b(2) by simp
  qed
qed

interpretation sha1: block_digest blk_SHA1Block 64 "2 ^ 64" sha1_inv sha1_H sha1_pend fio_sha1_update
  using sha1_update_absorb by unfold_locales blast

lemma sha1_feed_count:
  "sha1_inv c \<Longrightarrow> \<forall>d\<in>set ds. length d < 2 ^ 64 \<Longrightarrow> feed fio_sha1_update c ds = Inr c' \<Longrightarrow>
   sha1_size c' = sha1_size c + of_nat (length (concat ds))"
proof (induction ds arbitrary: c)
  case (Cons d ds)
  with sha1_update_absorb [of c d] show ?case by (auto simp: add.assoc)
qed simp

section \<open>Padding\<close>

definition sha1_padding :: "u64 \<Rightarrow> u8 list" where
  "sha1_padding n =
    (let p = unat n mod 64
     in 0x80 # replicate (if p < 56 then 55 - p else 119 - p) 0 @ rev (bytes_le64 (push_bit 3 n)))"

definition sha1_reference :: "u8 list \<Rightarrow> u32 list" where
  "sha1_reference msg = fst (absorb sha1_ref_block 64 sha1_iv (msg @ sha1_padding (of_nat (length msg))))"

lemma sha1_padding_calls:
  assumes "p = unat (n AND 63)"
  shows "take (1 + nat ((55 - int p) mod 64)) (0x80 # replicate 63 0) @
    bytes_be32 (ucast (drop_bit 29 n)) @ bytes_be32 (ucast (push_bit 3 n)) = sha1_padding n"
proof -
  have p: "p < 64" "unat n mod 64 = p" by (simp_all add: assms word_nat)
  have "nat ((55 - int p) mod 64) = (if p < 56 then 55 - p else 119 - p)"
  proof (cases "p < 56")
    case True
    then show ?thesis by (simp add: mod_pos_pos_trivial of_nat_diff nat_diff_distrib')
  next
    case False
    then have "(55 - int p) mod 64 = (119 - int p) mod 64" using mod_add_self2 [of "55 - int p" 64] by simp
    with False p(1) show ?thesis by (simp add: mod_pos_pos_trivial nat_diff_distrib')
  qed
  moreover have "ucast (drop_bit 32 (push_bit 3 n)) = (ucast (drop_bit 29 n) :: u32)"
    unfolding word_eq_bits by (auto simp: bit_simps)
  then have "rev (bytes_le64 (push_bit 3 n)) = bytes_be32 (ucast (drop_bit 29 n)) @ bytes_be32 (ucast (push_bit 3 n))"
    by (simp add: bytes_le64_def bytes_be32_def bytes_le32_def)
  ultimately show ?thesis using p(1) by (auto simp: sha1_padding_def p(2) Let_def min_def)
qed

lemma sha1_final_feed:
  "\<exists>ds. fio_sha1_final c = feed fio_sha1_update c ds \<and> concat ds = sha1_padding (sha1_size c) \<and>
     (\<forall>d\<in>set ds. length d < 2 ^ 64)"
proof -
  let ?pad = "take (1 + nat ((55 - int (unat (sha1_size c AND 63))) mod 64)) (0x80 # replicate 63 0) :: u8 list"
    and ?len = "bytes_be32 (ucast (drop_bit 29 (sha1_size c))) @ bytes_be32 (ucast (push_bit 3 (sha1_size c)))"
  have "fio_sha1_final c = feed fio_sha1_update c [?pad, ?len]"
    unfolding fio_sha1_final_def Let_def feed.simps bindr_Inr_right ..
  moreover have "concat [?pad, ?len] = sha1_padding (sha1_size c)"
    using sha1_padding_calls [OF refl] by simp
  moreover have "\<forall>d\<in>set [?pad, ?len]. length d < 2 ^ 64" by simp
  ultimately show ?thesis by blast
qed

section \<open>Properties\<close>

lemma blk_SHA1Block_ref: "blk_SHA1Block = sha1_ref_block"
proof (intro ext)
  fix H :: "u32 list" and data
  let ?r = "(H ! 0, H ! 1, H ! 2, H ! 3, H ! 4)"
  have "fst (sha1_rounds data (?r, replicate 16 0)) = fold (sha1_ref_round data) [0..<80] ?r"
    by (rule sha1_rounds_ref) simp
  then show "blk_SHA1Block H data = sha1_ref_block H data"
    unfolding blk_SHA1Block_def sha1_ref_block_def
    by (auto split: prod.splits)
qed

text \<open>
  C29. The digest is SHA-1 whatever pieces the message comes in: the calls of a caller compute the
  FIPS 180 compression, with its full schedule of eighty words, of the message, the bit \<open>1\<close>,
  zeros and the big-endian bit length.  The block function of the code keeps sixteen words only.
\<close>

theorem sha1_streaming:
  assumes "\<forall>d\<in>set ds. length d < 2 ^ 64" "length (sha1_W c0) = 64"
  shows "\<exists>c c'. feed fio_sha1_update (fio_sha1_init c0) ds = Inr c \<and>
    fio_sha1_final c = Inr c' \<and> sha1_H c' = sha1_reference (concat ds)"
proof -
  let ?c = "fio_sha1_init c0"
  have inv: "sha1_inv ?c" and pend: "sha1_pend ?c = []" and H: "sha1_H ?c = sha1_iv"
    using assms(2) by (simp_all add: sha1_inv_def fio_sha1_init_def sha1_pend_def)
  obtain c where c: "feed fio_sha1_update ?c ds = Inr c" "sha1_inv c"
    "(sha1_H c, sha1_pend c) = absorb blk_SHA1Block 64 sha1_iv (concat ds)"
    using sha1.feed_absorb [OF inv assms(1)] pend H by auto
  have "sha1_size c = of_nat (length (concat ds))"
    using sha1_feed_count [OF inv assms(1) c(1)] by (simp add: fio_sha1_init_def)
  then obtain es where es: "fio_sha1_final c = feed fio_sha1_update c es"
    "concat es = sha1_padding (of_nat (length (concat ds)))" "\<forall>d\<in>set es. length d < 2 ^ 64"
    using sha1_final_feed [of c] by auto
  have "length (sha1_pend c) < 64" by (metis absorb_rest c(3) snd_conv zero_less_numeral)
  then obtain c' where c': "fio_sha1_final c = Inr c'"
    "(sha1_H c', sha1_pend c') = absorb blk_SHA1Block 64 (sha1_H c) (sha1_pend c @ concat es)"
    using sha1.feed_absorb [OF c(2) es(3)] es(1) by auto
  have "(sha1_H c', sha1_pend c') = absorb blk_SHA1Block 64 sha1_iv (concat ds @ concat es)"
    unfolding absorb_append [of _ _ _ "concat ds"] c(3) [symmetric] c'(2) by simp
  then have "sha1_H c' = sha1_reference (concat ds)"
    unfolding sha1_reference_def blk_SHA1Block_ref es(2) by (metis fst_conv)
  with c(1) c'(1) show ?thesis by blast
qed

theorem sha1_streaming_witness:
  "\<exists>c c'. feed fio_sha1_update (fio_sha1_init \<lparr>sha1_H = [], sha1_W = replicate 64 7, sha1_size = 5\<rparr>)
     [[97], [98, 99]] = Inr c \<and> fio_sha1_final c = Inr c' \<and> sha1_H c' = sha1_reference [97, 98, 99]"
  using sha1_streaming [of "[[97], [98, 99]]" "\<lparr>sha1_H = [], sha1_W = replicate 64 7, sha1_size = 5\<rparr>"] by simp

end
