(* ===== verification/Sha2.thy ===== *)
theory Sha2
  imports Block_Hash
begin

text \<open>
  What \<open>crc/sha256.c\<close> and \<open>crc/sha512.c\<close> have in common, for words of any width: the choice and
  majority functions, the extension of the message schedule and the eight steps that both
  files spell out with the registers renamed.  The word functions \<open>e0\<close>, \<open>e1\<close>, \<open>s0\<close>, \<open>s1\<close> and the
  constants are arguments.
\<close>

section \<open>The code\<close>

definition Ch :: "'w::len word \<Rightarrow> 'w word \<Rightarrow> 'w word \<Rightarrow> 'w word" where
  "Ch x y z = z XOR (x AND (y XOR z))"

definition Maj :: "'w::len word \<Rightarrow> 'w word \<Rightarrow> 'w word \<Rightarrow> 'w word" where
  "Maj x y z = (x AND y) OR (z AND (x OR y))"

definition BLEND_OP :: "('w::len word \<Rightarrow> 'w word) \<Rightarrow> ('w word \<Rightarrow> 'w word) \<Rightarrow> nat \<Rightarrow> 'w word list \<Rightarrow> 'w word list" where
  "BLEND_OP s0 s1 i W = W @ [s1 (W ! (i - 2)) + W ! (i - 7) + s0 (W ! (i - 15)) + W ! (i - 16)]"

type_synonym 'w regs8 = "'w word \<times> 'w word \<times> 'w word \<times> 'w word \<times> 'w word \<times> 'w word \<times> 'w word \<times> 'w word"

text \<open>The two lines of one step: the new values of \<open>d\<close> and \<open>h\<close>.\<close>

definition sha2_line :: "('w::len word \<Rightarrow> 'w word) \<Rightarrow> ('w word \<Rightarrow> 'w word) \<Rightarrow> 'w word \<Rightarrow> 'w word \<Rightarrow> 'w word \<Rightarrow> 'w word \<Rightarrow>
    'w word \<Rightarrow> 'w word \<Rightarrow> 'w word \<Rightarrow> 'w word \<Rightarrow> 'w word \<Rightarrow> 'w word \<Rightarrow> 'w word \<times> 'w word" where
  "sha2_line e0 e1 k w a b c d e f g h =
    (let t1 = h + e1 e + Ch e f g + k + w;
         t2 = e0 a + Maj a b c
     in (d + t1, t1 + t2))"

definition sha2_eight :: "('w::len word \<Rightarrow> 'w word) \<Rightarrow> ('w word \<Rightarrow> 'w word) \<Rightarrow> 'w word list \<Rightarrow> 'w word list \<Rightarrow> nat \<Rightarrow>
    'w regs8 \<Rightarrow> 'w regs8" where
  "sha2_eight e0 e1 K W i = (\<lambda>(a, b, c, d, e, f, g, h).
     let (d, h) = sha2_line e0 e1 (K ! i) (W ! i) a b c d e f g h;
         (c, g) = sha2_line e0 e1 (K ! (i + 1)) (W ! (i + 1)) h a b c d e f g;
         (b, f) = sha2_line e0 e1 (K ! (i + 2)) (W ! (i + 2)) g h a b c d e f;
         (a, e) = sha2_line e0 e1 (K ! (i + 3)) (W ! (i + 3)) f g h a b c d e;
         (h, d) = sha2_line e0 e1 (K ! (i + 4)) (W ! (i + 4)) e f g h a b c d;
         (g, c) = sha2_line e0 e1 (K ! (i + 5)) (W ! (i + 5)) d e f g h a b c;
         (f, b) = sha2_line e0 e1 (K ! (i + 6)) (W ! (i + 6)) c d e f g h a b;
         (e, a) = sha2_line e0 e1 (K ! (i + 7)) (W ! (i + 7)) b c d e f g h a
     in (a, b, c, d, e, f, g, h))"

section \<open>The reference of FIPS 180\<close>

fun sha2_sched :: "('w::len word \<Rightarrow> 'w word) \<Rightarrow> ('w word \<Rightarrow> 'w word) \<Rightarrow> (nat \<Rightarrow> 'w word) \<Rightarrow> nat \<Rightarrow> 'w word" where
  "sha2_sched s0 s1 M t =
    (if t < 16 then M t
     else s1 (sha2_sched s0 s1 M (t - 2)) + sha2_sched s0 s1 M (t - 7) + s0 (sha2_sched s0 s1 M (t - 15)) +
       sha2_sched s0 s1 M (t - 16))"

declare sha2_sched.simps [simp del]

definition sha2_round :: "('w::len word \<Rightarrow> 'w word) \<Rightarrow> ('w word \<Rightarrow> 'w word) \<Rightarrow> 'w word list \<Rightarrow> (nat \<Rightarrow> 'w word) \<Rightarrow> nat \<Rightarrow>
    'w regs8 \<Rightarrow> 'w regs8" where
  "sha2_round e0 e1 K S t = (\<lambda>(a, b, c, d, e, f, g, h).
     let t1 = h + e1 e + ((e AND f) XOR (NOT e AND g)) + K ! t + S t;
         t2 = e0 a + ((a AND b) XOR (a AND c) XOR (b AND c))
     in (t1 + t2, a, b, c, d + t1, e, f, g))"

lemma Ch_fips: "Ch x y z = (x AND y) XOR (NOT x AND z)"
  unfolding word_eq_bits by (auto simp: Ch_def bit_simps)

lemma Maj_fips: "Maj x y z = (x AND y) XOR (x AND z) XOR (y AND z)"
  unfolding word_eq_bits by (auto simp: Maj_def bit_simps)

lemma sha2_round_line:
  "sha2_round e0 e1 K S t (a, b, c, d, e, f, g, h) =
    (snd (sha2_line e0 e1 (K ! t) (S t) a b c d e f g h), a, b, c, fst (sha2_line e0 e1 (K ! t) (S t) a b c d e f g h), e, f, g)"
  by (simp add: sha2_round_def sha2_line_def Let_def Ch_fips Maj_fips)

lemma sha2_eight_rounds:
  "sha2_eight e0 e1 K W i r = fold (sha2_round e0 e1 K ((!) W)) [i..<i + 8] r"
proof -
  obtain a b c d e f g h where r: "r = (a, b, c, d, e, f, g, h)" by (cases r) auto
  have u: "[i..<i + 8] = [i, i + 1, i + 2, i + 3, i + 4, i + 5, i + 6, i + 7]"
    by (simp add: upt_conv_Cons)
  show ?thesis
    unfolding r u sha2_eight_def fold_simps sha2_round_line prod.case by (simp add: split_beta Let_def)
qed

text \<open>Passes over all steps by groups of eight, as the code writes them.\<close>

lemma sha2_eights:
  "fold (\<lambda>i. sha2_eight e0 e1 K W (8 * i)) [0..<n] r = fold (sha2_round e0 e1 K ((!) W)) [0..<8 * n] r"
proof (induction n)
  case (Suc n)
  have "[0..<8 * Suc n] = [0..<8 * n] @ [8 * n..<8 * n + 8]"
    by (metis add.commute mult_Suc_right upt_add_eq_append zero_le)
  with Suc show ?case by (simp add: sha2_eight_rounds)
qed simp

lemma fold_BLEND_OP:
  assumes "16 \<le> n" "length W = 16" "\<And>t. t < 16 \<Longrightarrow> W ! t = M t"
  shows "length (fold (BLEND_OP s0 s1) [16..<n] W) = n \<and>
    (\<forall>t<n. fold (BLEND_OP s0 s1) [16..<n] W ! t = sha2_sched s0 s1 M t)"
  using assms(1)
proof (induction n rule: dec_induct)
  case base
  then show ?case using assms(2,3) by (simp add: sha2_sched.simps)
next
  case (step n)
  then show ?case
    by (auto simp: BLEND_OP_def nth_append less_Suc_eq sha2_sched.simps [of s0 s1 M n])
qed

lemma sha2_round_cong: "S t = S' t \<Longrightarrow> sha2_round e0 e1 K S t r = sha2_round e0 e1 K S' t r"
  by (simp add: sha2_round_def)

lemma sha2_rounds_cong:
  "(\<And>t. t < n \<Longrightarrow> S t = S' t) \<Longrightarrow> fold (sha2_round e0 e1 K S) [0..<n] r = fold (sha2_round e0 e1 K S') [0..<n] r"
  by (intro fold_cong) (auto intro: sha2_round_cong)

end
