(* ===== verification/Sha256.thy ===== *)
theory Sha256
  imports Sha2
begin

text \<open>
  The digest of \<open>crc/sha256.c\<close>.  The compression is proved to be that of FIPS 180; the
  finalisation is modelled as it is, which appends the bit count in the byte order of the
  host and keeps one byte of each state word.
\<close>

section \<open>The transform\<close>

definition sha256_e0 :: "u32 \<Rightarrow> u32" where "sha256_e0 x = ror 2 x XOR ror 13 x XOR ror 22 x"
definition sha256_e1 :: "u32 \<Rightarrow> u32" where "sha256_e1 x = ror 6 x XOR ror 11 x XOR ror 25 x"
definition sha256_s0 :: "u32 \<Rightarrow> u32" where "sha256_s0 x = ror 7 x XOR ror 18 x XOR drop_bit 3 x"
definition sha256_s1 :: "u32 \<Rightarrow> u32" where "sha256_s1 x = ror 17 x XOR ror 19 x XOR drop_bit 10 x"

text \<open>The constants of the 64 steps, which the code has in its lines.\<close>

definition sha256_K :: "u32 list" where
  "sha256_K = concat
    [[0x428a2f98, 0x71374491, 0xb5c0fbcf, 0xe9b5dba5],
     [0x3956c25b, 0x59f111f1, 0x923f82a4, 0xab1c5ed5],
     [0xd807aa98, 0x12835b01, 0x243185be, 0x550c7dc3],
     [0x72be5d74, 0x80deb1fe, 0x9bdc06a7, 0xc19bf174],
     [0xe49b69c1, 0xefbe4786, 0x0fc19dc6, 0x240ca1cc],
     [0x2de92c6f, 0x4a7484aa, 0x5cb0a9dc, 0x76f988da],
     [0x983e5152, 0xa831c66d, 0xb00327c8, 0xbf597fc7],
     [0xc6e00bf3, 0xd5a79147, 0x06ca6351, 0x14292967],
     [0x27b70a85, 0x2e1b2138, 0x4d2c6dfc, 0x53380d13],
     [0x650a7354, 0x766a0abb, 0x81c2c92e, 0x92722c85],
     [0xa2bfe8a1, 0xa81a664b, 0xc24b8b70, 0xc76c51a3],
     [0xd192e819, 0xd6990624, 0xf40e3585, 0x106aa070],
     [0x19a4c116, 0x1e376c08, 0x2748774c, 0x34b0bcb5],
     [0x391c0cb3, 0x4ed8aa4a, 0x5b9cca4f, 0x682e6ff3],
     [0x748f82ee, 0x78a5636f, 0x84c87814, 0x8cc70208],
     [0x90befffa, 0xa4506ceb, 0xbef9a3f7, 0xc67178f2]]"

definition sha256_load :: "u8 list \<Rightarrow> u32 list" where
  "sha256_load input = map (\<lambda>i. load_be32 input (4 * i)) [0..<16]"

definition sha256_transform :: "u32 list \<Rightarrow> u8 list \<Rightarrow> u32 list" where
  "sha256_transform state input =
    (let W = fold (BLEND_OP sha256_s0 sha256_s1) [16..<64] (sha256_load input);
         (a, b, c, d, e, f, g, h) = fold (\<lambda>i. sha2_eight sha256_e0 sha256_e1 sha256_K W (8 * i)) [0..<8]
           (state ! 0, state ! 1, state ! 2, state ! 3, state ! 4, state ! 5, state ! 6, state ! 7)
     in [state ! 0 + a, state ! 1 + b, state ! 2 + c, state ! 3 + d,
         state ! 4 + e, state ! 5 + f, state ! 6 + g, state ! 7 + h])"

section \<open>The digest\<close>

record fio_sha256_ctx =
  sha256_count :: u32
  sha256_state :: "u32 list"
  sha256_buf :: "u8 list"

definition sha256_iv :: "u32 list" where
  "sha256_iv = [0x6a09e667, 0xbb67ae85, 0x3c6ef372, 0xa54ff53a, 0x510e527f, 0x9b05688c, 0x1f83d9ab, 0x5be0cd19]"

definition fio_sha256_init :: "fio_sha256_ctx \<Rightarrow> fio_sha256_ctx" where
  "fio_sha256_init sctx = sctx\<lparr>sha256_state := sha256_iv, sha256_count := 0\<rparr>"

definition fio_sha256_update :: "fio_sha256_ctx \<Rightarrow> u8 list \<Rightarrow> fio_sha256_ctx res" where
  "fio_sha256_update sctx data =
    (let partial = sha256_count sctx AND 0x3f;
         sctx = sctx\<lparr>sha256_count := sha256_count sctx + of_nat (length data)\<rparr>
     in bindr (update32 sha256_transform 64 partial (sha256_state sctx) (sha256_buf sctx) data) (\<lambda>(st, buf, _).
        Inr (sctx\<lparr>sha256_state := st, sha256_buf := buf\<rparr>)))"

text \<open>The caller's view of \<open>bits\<close> as bytes is the little-endian memory of the 64-bit count.\<close>

definition fio_sha256_final :: "fio_sha256_ctx \<Rightarrow> fio_sha256_ctx res" where
  "fio_sha256_final sctx =
    (let bits = push_bit 3 (ucast (sha256_count sctx)) :: u64;
         index = unat (sha256_count sctx AND 0x3f);
         pad_len = (if index < 56 then 56 - index else (64 + 56) - index)
     in bindr (fio_sha256_update sctx (take pad_len (0x80 # replicate 63 0))) (\<lambda>sctx.
        bindr (fio_sha256_update sctx (bytes_le64 bits)) (\<lambda>sctx.
        bindr (blit (sha256_buf sctx) 0 (map ucast (take 8 (sha256_state sctx)))) (\<lambda>buf.
        Inr (sctx\<lparr>sha256_buf := buf\<rparr>)))))"

section \<open>The compression of FIPS 180\<close>

definition sha256_ref_block :: "u32 list \<Rightarrow> u8 list \<Rightarrow> u32 list" where
  "sha256_ref_block H input =
    (let S = sha2_sched sha256_s0 sha256_s1 (\<lambda>t. load_be32 input (4 * t));
         (a, b, c, d, e, f, g, h) = fold (sha2_round sha256_e0 sha256_e1 sha256_K S) [0..<64]
           (H ! 0, H ! 1, H ! 2, H ! 3, H ! 4, H ! 5, H ! 6, H ! 7)
     in [H ! 0 + a, H ! 1 + b, H ! 2 + c, H ! 3 + d, H ! 4 + e, H ! 5 + f, H ! 6 + g, H ! 7 + h])"

lemma sha256_transform_ref: "sha256_transform = sha256_ref_block"
proof (intro ext)
  fix H input
  let ?S = "sha2_sched sha256_s0 sha256_s1 (\<lambda>t. load_be32 input (4 * t))"
  let ?W = "fold (BLEND_OP sha256_s0 sha256_s1) [16..<64] (sha256_load input)"
  have "sha256_load input ! t = load_be32 input (4 * t)" if "t < 16" for t
    using that unfolding sha256_load_def by (subst nth_map) simp_all
  then have W: "?W ! t = ?S t" if "t < 64" for t
    using that fold_BLEND_OP [of 64 "sha256_load input" "\<lambda>t. load_be32 input (4 * t)" sha256_s0 sha256_s1]
    by (simp add: sha256_load_def)
  have "fold (\<lambda>i. sha2_eight sha256_e0 sha256_e1 sha256_K ?W (8 * i)) [0..<8] r =
      fold (sha2_round sha256_e0 sha256_e1 sha256_K ?S) [0..<64] r" for r
    using sha2_eights [of sha256_e0 sha256_e1 sha256_K ?W 8 r]
      sha2_rounds_cong [of 64 "(!) ?W" ?S sha256_e0 sha256_e1 sha256_K r] W by simp
  then show "sha256_transform H input = sha256_ref_block H input"
    unfolding sha256_transform_def sha256_ref_block_def Let_def by presburger
qed

section \<open>The update keeps the contract of a block digest\<close>

definition sha256_pend :: "fio_sha256_ctx \<Rightarrow> u8 list" where
  "sha256_pend c = take (unat (sha256_count c AND 0x3f)) (sha256_buf c)"

definition sha256_inv :: "fio_sha256_ctx \<Rightarrow> bool" where
  "sha256_inv c \<longleftrightarrow> 64 \<le> length (sha256_buf c)"

lemma sha256_update_absorb:
  assumes "sha256_inv c" "length d < 2 ^ 32 - 64"
  shows "\<exists>c'. fio_sha256_update c d = Inr c' \<and> sha256_inv c' \<and>
    sha256_count c' = sha256_count c + of_nat (length d) \<and> length (sha256_buf c') = length (sha256_buf c) \<and>
    (sha256_state c', sha256_pend c') = absorb sha256_transform 64 (sha256_state c) (sha256_pend c @ d)"
proof -
  let ?p = "sha256_count c AND 0x3f"
  have "unat ?p < unat (64 :: u32)" by (simp add: word_nat)
  then obtain h b q where u: "update32 sha256_transform 64 ?p (sha256_state c) (sha256_buf c) d = Inr (h, b, q)"
    "length b = length (sha256_buf c)" "unat q = (unat ?p + length d) mod 64"
    "(h, take (unat q) b) = absorb sha256_transform 64 (sha256_state c) (sha256_pend c @ d)"
    using update32_absorb [of 64 "sha256_buf c" ?p d sha256_transform "sha256_state c"] assms
    by (auto simp: sha256_inv_def sha256_pend_def)
  have "unat ((sha256_count c + of_nat (length d)) AND 0x3f) = unat q"
    using unat_add_mod [of 64 "sha256_count c" "length d"] u(3) by (simp add: word_nat)
  with u assms(1) show ?thesis
    by (simp add: fio_sha256_update_def sha256_inv_def sha256_pend_def Let_def)
qed

interpretation sha256: block_digest sha256_transform 64 "2 ^ 32 - 64" sha256_inv sha256_state sha256_pend fio_sha256_update
  using sha256_update_absorb by unfold_locales blast

lemma sha256_feed_count:
  "sha256_inv c \<Longrightarrow> \<forall>d\<in>set ds. length d < 2 ^ 32 - 64 \<Longrightarrow> feed fio_sha256_update c ds = Inr c' \<Longrightarrow>
   sha256_count c' = sha256_count c + of_nat (length (concat ds)) \<and> length (sha256_buf c') = length (sha256_buf c)"
proof (induction ds arbitrary: c)
  case (Cons d ds)
  then obtain c1 where c1: "fio_sha256_update c d = Inr c1" "sha256_inv c1"
    "sha256_count c1 = sha256_count c + of_nat (length d)" "length (sha256_buf c1) = length (sha256_buf c)"
    using sha256_update_absorb [of c d] by auto
  with Cons.IH [OF c1(2)] Cons.prems show ?case by (simp add: add.assoc)
qed simp

section \<open>Padding\<close>

text \<open>The padding as the code does it: the bit count is taken from a 32-bit byte count and stored little-endian.\<close>

definition sha256_padding :: "u32 \<Rightarrow> u8 list" where
  "sha256_padding n =
    (let p = unat n mod 64
     in 0x80 # replicate (if p < 56 then 55 - p else 119 - p) 0 @ bytes_le64 (push_bit 3 (ucast n)))"

definition sha256_reference :: "u8 list \<Rightarrow> u32 list" where
  "sha256_reference msg = fst (absorb sha256_ref_block 64 sha256_iv (msg @ sha256_padding (of_nat (length msg))))"

lemma length_sha256_transform: "length (sha256_transform h b) = 8"
  by (simp add: sha256_transform_def Let_def split: prod.split)

lemma length_absorb: "(\<And>h b. length (f h b) = n) \<Longrightarrow> length h = n \<Longrightarrow> length (fst (absorb f B h xs)) = n"
proof (induction f B h xs rule: absorb.induct)
  case (1 f B h xs)
  then show ?case by (subst absorb.simps) simp
qed

lemma sha256_final_feed:
  "\<exists>ds. fio_sha256_final c = bindr (feed fio_sha256_update c ds) (\<lambda>c.
       bindr (blit (sha256_buf c) 0 (map ucast (take 8 (sha256_state c)))) (\<lambda>buf. Inr (c\<lparr>sha256_buf := buf\<rparr>))) \<and>
     concat ds = sha256_padding (sha256_count c) \<and> (\<forall>d\<in>set ds. length d < 2 ^ 32 - 64)"
proof -
  define p where "p = unat (sha256_count c AND 0x3f)"
  have p: "p < 64" "unat (sha256_count c) mod 64 = p" by (simp_all add: p_def word_nat)
  let ?pad = "take (if p < 56 then 56 - p else (64 + 56) - p) (0x80 # replicate 63 0) :: u8 list"
    and ?len = "bytes_le64 (push_bit 3 (ucast (sha256_count c)))"
  have "fio_sha256_final c = bindr (feed fio_sha256_update c [?pad, ?len]) (\<lambda>c.
       bindr (blit (sha256_buf c) 0 (map ucast (take 8 (sha256_state c)))) (\<lambda>buf. Inr (c\<lparr>sha256_buf := buf\<rparr>)))"
    unfolding fio_sha256_final_def Let_def feed.simps bindr_Inr_right p_def [symmetric]
    by (simp add: bindr_assoc)
  moreover have "concat [?pad, ?len] = sha256_padding (sha256_count c)"
    using p(1) by (auto simp: sha256_padding_def p(2) Let_def min_def take_Cons')
  moreover have "\<forall>d\<in>set [?pad, ?len]. length d < 2 ^ 32 - 64" by simp
  ultimately show ?thesis by blast
qed

section \<open>Properties\<close>

text \<open>
  C37. Whatever pieces the message comes in, initialising, updating and finalising leave the
  FIPS 180 compression of the padded message in the state and the low bytes of its eight words
  in the first eight bytes of the buffer; the padding ends in the bit count in little-endian
  order.
\<close>

theorem sha256_streaming:
  assumes "\<forall>d\<in>set ds. length d < 2 ^ 32 - 64" "64 \<le> length (sha256_buf c0)"
  shows "\<exists>c c'. feed fio_sha256_update (fio_sha256_init c0) ds = Inr c \<and> fio_sha256_final c = Inr c' \<and>
    sha256_state c' = sha256_reference (concat ds) \<and>
    take 8 (sha256_buf c') = map ucast (sha256_reference (concat ds)) \<and> length (sha256_buf c') = length (sha256_buf c0)"
proof -
  let ?c = "fio_sha256_init c0"
  have inv: "sha256_inv ?c" and pend: "sha256_pend ?c = []" and H: "sha256_state ?c = sha256_iv"
    using assms(2) by (simp_all add: sha256_inv_def fio_sha256_init_def sha256_pend_def)
  obtain c where c: "feed fio_sha256_update ?c ds = Inr c" "sha256_inv c"
    "(sha256_state c, sha256_pend c) = absorb sha256_transform 64 sha256_iv (concat ds)"
    using sha256.feed_absorb [OF inv assms(1)] pend H by auto
  have cnt: "sha256_count c = of_nat (length (concat ds))" "length (sha256_buf c) = length (sha256_buf c0)"
    using sha256_feed_count [OF inv assms(1) c(1)] by (simp_all add: fio_sha256_init_def)
  then obtain es where es: "fio_sha256_final c = bindr (feed fio_sha256_update c es) (\<lambda>c.
       bindr (blit (sha256_buf c) 0 (map ucast (take 8 (sha256_state c)))) (\<lambda>buf. Inr (c\<lparr>sha256_buf := buf\<rparr>)))"
    "concat es = sha256_padding (of_nat (length (concat ds)))" "\<forall>d\<in>set es. length d < 2 ^ 32 - 64"
    using sha256_final_feed [of c] by auto
  have "length (sha256_pend c) < 64" by (metis absorb_rest c(3) snd_conv zero_less_numeral)
  then obtain c1 where c1: "feed fio_sha256_update c es = Inr c1" "sha256_inv c1"
    "(sha256_state c1, sha256_pend c1) = absorb sha256_transform 64 (sha256_state c) (sha256_pend c @ concat es)"
    using sha256.feed_absorb [OF c(2) es(3)] by auto
  have "(sha256_state c1, sha256_pend c1) = absorb sha256_transform 64 sha256_iv (concat ds @ concat es)"
    unfolding absorb_append [of _ _ _ "concat ds"] c(3) [symmetric] c1(3) by simp
  then have st: "sha256_state c1 = fst (absorb sha256_transform 64 sha256_iv (concat ds @ concat es))"
    by (metis fst_conv)
  have len: "length (sha256_state c1) = 8"
    unfolding st by (intro length_absorb length_sha256_transform) (simp add: sha256_iv_def)
  have ref: "sha256_state c1 = sha256_reference (concat ds)"
    unfolding st sha256_reference_def sha256_transform_ref es(2) ..
  have buf: "length (sha256_buf c1) = length (sha256_buf c0)"
    using sha256_feed_count [OF c(2) es(3) c1(1)] cnt(2) by simp
  obtain b where b: "blit (sha256_buf c1) 0 (map ucast (take 8 (sha256_state c1))) = Inr b"
    "length b = length (sha256_buf c0)" "take 8 b = map ucast (sha256_state c1)"
    using fill_partial [OF buf, of 0 "map ucast (take 8 (sha256_state c1))"] len assms(2) by auto
  show ?thesis using c(1) es(1) c1(1) b ref by simp
qed

theorem sha256_streaming_witness:
  "\<exists>c c'. feed fio_sha256_update (fio_sha256_init \<lparr>sha256_count = 5, sha256_state = [], sha256_buf = replicate 64 7\<rparr>)
     [[97], [98, 99]] = Inr c \<and> fio_sha256_final c = Inr c' \<and> sha256_state c' = sha256_reference [97, 98, 99] \<and>
     take 8 (sha256_buf c') = map ucast (sha256_reference [97, 98, 99]) \<and> length (sha256_buf c') = 64"
  using sha256_streaming [of "[[97], [98, 99]]" "\<lparr>sha256_count = 5, sha256_state = [], sha256_buf = replicate 64 7\<rparr>"]
  by simp

end
