(* ===== verification/Sha512.thy ===== *)
theory Sha512
  imports Sha2
begin

text \<open>
  The digest of \<open>crc/sha512.c\<close>: an update without a finalisation.  The compression is that of
  FIPS 180; the buffer, which is all that the callers in \<open>verify.c\<close> compare, is characterised
  at the end.
\<close>

section \<open>The transform\<close>

definition sha512_e0 :: "u64 \<Rightarrow> u64" where "sha512_e0 x = ror 28 x XOR ror 34 x XOR ror 39 x"
definition sha512_e1 :: "u64 \<Rightarrow> u64" where "sha512_e1 x = ror 14 x XOR ror 18 x XOR ror 41 x"
definition sha512_s0 :: "u64 \<Rightarrow> u64" where "sha512_s0 x = ror 1 x XOR ror 8 x XOR drop_bit 7 x"
definition sha512_s1 :: "u64 \<Rightarrow> u64" where "sha512_s1 x = ror 19 x XOR ror 61 x XOR drop_bit 6 x"

definition sha512_K :: "u64 list" where
  "sha512_K = concat
    [[0x428a2f98d728ae22, 0x7137449123ef65cd, 0xb5c0fbcfec4d3b2f],
     [0xe9b5dba58189dbbc, 0x3956c25bf348b538, 0x59f111f1b605d019],
     [0x923f82a4af194f9b, 0xab1c5ed5da6d8118, 0xd807aa98a3030242],
     [0x12835b0145706fbe, 0x243185be4ee4b28c, 0x550c7dc3d5ffb4e2],
     [0x72be5d74f27b896f, 0x80deb1fe3b1696b1, 0x9bdc06a725c71235],
     [0xc19bf174cf692694, 0xe49b69c19ef14ad2, 0xefbe4786384f25e3],
     [0x0fc19dc68b8cd5b5, 0x240ca1cc77ac9c65, 0x2de92c6f592b0275],
     [0x4a7484aa6ea6e483, 0x5cb0a9dcbd41fbd4, 0x76f988da831153b5],
     [0x983e5152ee66dfab, 0xa831c66d2db43210, 0xb00327c898fb213f],
     [0xbf597fc7beef0ee4, 0xc6e00bf33da88fc2, 0xd5a79147930aa725],
     [0x06ca6351e003826f, 0x142929670a0e6e70, 0x27b70a8546d22ffc],
     [0x2e1b21385c26c926, 0x4d2c6dfc5ac42aed, 0x53380d139d95b3df],
     [0x650a73548baf63de, 0x766a0abb3c77b2a8, 0x81c2c92e47edaee6],
     [0x92722c851482353b, 0xa2bfe8a14cf10364, 0xa81a664bbc423001],
     [0xc24b8b70d0f89791, 0xc76c51a30654be30, 0xd192e819d6ef5218],
     [0xd69906245565a910, 0xf40e35855771202a, 0x106aa07032bbd1b8],
     [0x19a4c116b8d2d0c8, 0x1e376c085141ab53, 0x2748774cdf8eeb99],
     [0x34b0bcb5e19b48a8, 0x391c0cb3c5c95a63, 0x4ed8aa4ae3418acb],
     [0x5b9cca4f7763e373, 0x682e6ff3d6b2b8a3, 0x748f82ee5defb2fc],
     [0x78a5636f43172f60, 0x84c87814a1f0ab72, 0x8cc702081a6439ec],
     [0x90befffa23631e28, 0xa4506cebde82bde9, 0xbef9a3f7b2c67915],
     [0xc67178f2e372532b, 0xca273eceea26619c, 0xd186b8c721c0c207],
     [0xeada7dd6cde0eb1e, 0xf57d4f7fee6ed178, 0x06f067aa72176fba],
     [0x0a637dc5a2c898a6, 0x113f9804bef90dae, 0x1b710b35131c471b],
     [0x28db77f523047d84, 0x32caab7b40c72493, 0x3c9ebe0a15c9bebc],
     [0x431d67c49c100d4c, 0x4cc5d4becb3e42b6, 0x597f299cfc657e2a],
     [0x5fcb6fab3ad6faec, 0x6c44198c4a475817]]"

definition sha512_load :: "u8 list \<Rightarrow> u64 list" where
  "sha512_load input = map (\<lambda>i. load_be64 input (8 * i)) [0..<16]"

text \<open>The array \<open>W\<close> of the context is written before it is read, so that it is a local list here.\<close>

definition sha512_transform :: "u64 list \<Rightarrow> u8 list \<Rightarrow> u64 list" where
  "sha512_transform state input =
    (let W = fold (BLEND_OP sha512_s0 sha512_s1) [16..<80] (sha512_load input);
         (a, b, c, d, e, f, g, h) = fold (\<lambda>i. sha2_eight sha512_e0 sha512_e1 sha512_K W (8 * i)) [0..<10]
           (state ! 0, state ! 1, state ! 2, state ! 3, state ! 4, state ! 5, state ! 6, state ! 7)
     in [state ! 0 + a, state ! 1 + b, state ! 2 + c, state ! 3 + d,
         state ! 4 + e, state ! 5 + f, state ! 6 + g, state ! 7 + h])"

section \<open>The digest\<close>

record fio_sha512_ctx =
  sha512_state :: "u64 list"
  sha512_count :: "u32 \<times> u32 \<times> u32 \<times> u32"
  sha512_buf :: "u8 list"
  sha512_W :: "u64 list"

definition sha512_iv :: "u64 list" where
  "sha512_iv = [0x6a09e667f3bcc908, 0xbb67ae8584caa73b, 0x3c6ef372fe94f82b, 0xa54ff53a5f1d36f1,
     0x510e527fade682d1, 0x9b05688c2b3e6c1f, 0x1f83d9abfb41bd6b, 0x5be0cd19137e2179]"

definition fio_sha512_init :: "fio_sha512_ctx \<Rightarrow> fio_sha512_ctx" where
  "fio_sha512_init sctx = sctx\<lparr>sha512_state := sha512_iv, sha512_count := (0, 0, 0, 0)\<rparr>"

text \<open>The counter of bits: the high part of the length is added only when the low word carries.\<close>

definition sha512_count_add :: "u32 \<Rightarrow> u32 \<times> u32 \<times> u32 \<times> u32 \<Rightarrow> u32 \<times> u32 \<times> u32 \<times> u32" where
  "sha512_count_add len = (\<lambda>(c0, c1, c2, c3).
     let c0 = c0 + push_bit 3 len
     in if c0 < push_bit 3 len
        then let c1 = c1 + 1;
                 (c2, c3) = (if c1 < 1 then let c2 = c2 + 1 in (c2, if c2 < 1 then c3 + 1 else c3) else (c2, c3))
             in (c0, c1 + drop_bit 29 len, c2, c3)
        else (c0, c1, c2, c3))"

definition fio_sha512_update :: "fio_sha512_ctx \<Rightarrow> u8 list \<Rightarrow> fio_sha512_ctx res" where
  "fio_sha512_update sctx data =
    (let len = of_nat (length data) :: u32;
         idx = drop_bit 3 (fst (sha512_count sctx)) AND 0x7F;
         sctx = sctx\<lparr>sha512_count := sha512_count_add len (sha512_count sctx)\<rparr>;
         part_len = 128 - idx
     in bindr (if len \<ge> part_len
               then bindr (blit (sha512_buf sctx) (unat idx) (take (unat part_len) data)) (\<lambda>buf.
                    bindr (blocks32 sha512_transform 128 (sha512_transform (sha512_state sctx) buf) data part_len) (\<lambda>(st, i).
                    Inr (st, buf, 0, i)))
               else Inr (sha512_state sctx, sha512_buf sctx, idx, 0)) (\<lambda>(st, buf, idx, i).
        bindr (blit buf (unat idx) (take (unat (len - i)) (drop (unat i) data))) (\<lambda>buf.
        Inr (sctx\<lparr>sha512_state := st, sha512_buf := buf, sha512_W := replicate 80 0\<rparr>))))"

section \<open>The compression of FIPS 180\<close>

definition sha512_ref_block :: "u64 list \<Rightarrow> u8 list \<Rightarrow> u64 list" where
  "sha512_ref_block H input =
    (let S = sha2_sched sha512_s0 sha512_s1 (\<lambda>t. load_be64 input (8 * t));
         (a, b, c, d, e, f, g, h) = fold (sha2_round sha512_e0 sha512_e1 sha512_K S) [0..<80]
           (H ! 0, H ! 1, H ! 2, H ! 3, H ! 4, H ! 5, H ! 6, H ! 7)
     in [H ! 0 + a, H ! 1 + b, H ! 2 + c, H ! 3 + d, H ! 4 + e, H ! 5 + f, H ! 6 + g, H ! 7 + h])"

lemma sha512_transform_ref: "sha512_transform = sha512_ref_block"
proof (intro ext)
  fix H input
  let ?S = "sha2_sched sha512_s0 sha512_s1 (\<lambda>t. load_be64 input (8 * t))"
  let ?W = "fold (BLEND_OP sha512_s0 sha512_s1) [16..<80] (sha512_load input)"
  have "sha512_load input ! t = load_be64 input (8 * t)" if "t < 16" for t
    using that unfolding sha512_load_def by (subst nth_map) simp_all
  then have W: "?W ! t = ?S t" if "t < 80" for t
    using that fold_BLEND_OP [of 80 "sha512_load input" "\<lambda>t. load_be64 input (8 * t)" sha512_s0 sha512_s1]
    by (simp add: sha512_load_def)
  have "fold (\<lambda>i. sha2_eight sha512_e0 sha512_e1 sha512_K ?W (8 * i)) [0..<10] r =
      fold (sha2_round sha512_e0 sha512_e1 sha512_K ?S) [0..<80] r" for r
    using sha2_eights [of sha512_e0 sha512_e1 sha512_K ?W 10 r]
      sha2_rounds_cong [of 80 "(!) ?W" ?S sha512_e0 sha512_e1 sha512_K r] W by simp
  then show "sha512_transform H input = sha512_ref_block H input"
    unfolding sha512_transform_def sha512_ref_block_def Let_def by presburger
qed

section \<open>The update keeps the contract of a block digest\<close>

definition sha512_pend :: "fio_sha512_ctx \<Rightarrow> u8 list" where
  "sha512_pend c = take (unat (drop_bit 3 (fst (sha512_count c)) AND 0x7F)) (sha512_buf c)"

definition sha512_inv :: "fio_sha512_ctx \<Rightarrow> bool" where
  "sha512_inv c \<longleftrightarrow> length (sha512_buf c) = 128"

lemma sha512_count_idx:
  assumes "length d < 2 ^ 32"
  shows "unat (drop_bit 3 (fst (sha512_count_add (of_nat (length d)) cnt)) AND 0x7F) =
    (unat (drop_bit 3 (fst cnt) AND 0x7F) + length d) mod 128"
proof -
  obtain c0 c1 c2 c3 where c: "cnt = (c0, c1, c2, c3)" by (cases cnt) auto
  have "fst (sha512_count_add (of_nat (length d)) cnt) = c0 + push_bit 3 (of_nat (length d))"
    by (simp add: c sha512_count_add_def Let_def split: prod.split)
  moreover have "unat (c0 + push_bit 3 (of_nat (length d)) :: u32) div 8 mod 128 = (unat c0 div 8 mod 128 + length d) mod 128"
  proof -
    have "push_bit 3 (of_nat (length d)) = (of_nat (8 * length d) :: u32)"
      by (simp add: push_bit_eq_mult)
    then have "unat (c0 + push_bit 3 (of_nat (length d)) :: u32) mod 1024 = (unat c0 mod 1024 + 8 * length d) mod 1024"
      using unat_add_mod [of 1024 c0 "8 * length d"] by simp
    moreover have m: "n mod 1024 div 8 = n div 8 mod 128" for n :: nat
      using mod_mult2_eq [of n 8 128] by simp
    ultimately have "unat (c0 + push_bit 3 (of_nat (length d)) :: u32) div 8 mod 128 =
        (unat c0 mod 1024 + 8 * length d) div 8 mod 128"
      by (metis m)
    also have "(unat c0 mod 1024 + 8 * length d) div 8 = unat c0 div 8 mod 128 + length d"
      by (simp add: m)
    finally show ?thesis .
  qed
  ultimately show ?thesis by (simp add: word_nat c)
qed

lemma sha512_update_absorb:
  assumes "sha512_inv c" "length d < 2 ^ 32 - 128"
  shows "\<exists>c'. fio_sha512_update c d = Inr c' \<and> sha512_inv c' \<and>
    (sha512_state c', sha512_pend c') = absorb sha512_transform 128 (sha512_state c) (sha512_pend c @ d) \<and>
    (128 \<le> length (sha512_pend c) + length d \<longrightarrow>
       drop (length (sha512_pend c')) (sha512_buf c') = drop (length (sha512_pend c')) (take 128 (sha512_pend c @ d)))"
proof -
  define idx where "idx = drop_bit 3 (fst (sha512_count c)) AND 0x7F"
  define p where "p = unat idx"
  have p: "p < 128" by (simp add: p_def idx_def word_nat)
  have pend: "sha512_pend c = take p (sha512_buf c)" "length (sha512_pend c) = p"
    using assms(1) p by (simp_all add: sha512_pend_def p_def idx_def sha512_inv_def)
  have len: "unat (of_nat (length d) :: u32) = length d"
    using assms(2) by (simp add: unsigned_of_nat take_bit_nat_eq_self)
  have part: "unat (128 - idx) = 128 - p"
    using p by (simp add: unat_sub_no_wrap word_le_nat_alt p_def)
  have p': "unat (drop_bit 3 (fst (sha512_count_add (of_nat (length d)) (sha512_count c))) AND 0x7F) = (p + length d) mod 128"
    using sha512_count_idx [of d "sha512_count c"] assms(2) by (simp add: p_def idx_def)
  note upd = fio_sha512_update_def Let_def word_le_nat_alt idx_def [symmetric] p_def [symmetric] len part
  show ?thesis
  proof (cases "length d < 128 - p")
    case True
    have "p + length d \<le> 128" using True by linarith
    then obtain b where b: "blit (sha512_buf c) p d = Inr b" "length b = 128"
      "take (p + length d) b = take p (sha512_buf c) @ d"
      using fill_partial [of "sha512_buf c" 128 p d] assms(1) by (auto simp: sha512_inv_def)
    have "fio_sha512_update c d = Inr (c\<lparr>sha512_count := sha512_count_add (of_nat (length d)) (sha512_count c),
        sha512_buf := b, sha512_W := replicate 80 0\<rparr>)"
      using True b(1) by (simp add: upd)
    then show ?thesis
      using True b(2,3) p' pend by (simp add: sha512_inv_def sha512_pend_def absorb_short) linarith
  next
    case False
    define b where "b = sha512_pend c @ take (128 - p) d"
    have b: "blit (sha512_buf c) p (take (128 - p) d) = Inr b" "length b = 128" "b = take 128 (sha512_pend c @ d)"
      using fill_block [of "sha512_buf c" 128 p "take (128 - p) d"] assms(1) False p pend
      by (simp_all add: sha512_inv_def b_def)
    let ?h = "sha512_transform (sha512_state c) b"
    let ?a = "absorb sha512_transform 128 ?h (drop (128 - p) d)"
    obtain j where j: "blocks32 sha512_transform 128 ?h d (128 - idx) = Inr (fst ?a, j)"
      "unat j \<le> length d" "drop (unat j) d = snd ?a"
      using blocks32_absorb [of 128 d "128 - idx" sha512_transform ?h] False p assms(2) part by auto
    have abs: "absorb sha512_transform 128 (sha512_state c) (sha512_pend c @ d) = ?a"
      using absorb_block [OF _ b(2), of sha512_transform "sha512_state c" "drop (128 - p) d"] by (simp add: b_def)
    have q: "unat (of_nat (length d) - j) = length (drop (unat j) d)"
      using j(2) len by (simp add: unat_sub_no_wrap word_le_nat_alt)
    have r: "length (drop (unat j) d) = (p + length d) mod 128"
      using absorb_rest_mod [of 128 sha512_transform "sha512_state c" "sha512_pend c @ d"] abs j(3) pend(2) by simp
    then have "length (drop (unat j) d) \<le> length b" using b(2) by simp
    then have b2: "blit b 0 (drop (unat j) d) = Inr (drop (unat j) d @ drop (length (drop (unat j) d)) b)"
      by (simp add: blit_ok)
    have u: "fio_sha512_update c d = Inr (c\<lparr>sha512_count := sha512_count_add (of_nat (length d)) (sha512_count c),
        sha512_state := fst ?a, sha512_buf := drop (unat j) d @ drop (length (drop (unat j) d)) b, sha512_W := replicate 80 0\<rparr>)"
      using False p b(1) j(1) b2 q by (simp add: upd)
    let ?c = "c\<lparr>sha512_count := sha512_count_add (of_nat (length d)) (sha512_count c),
        sha512_state := fst ?a, sha512_buf := drop (unat j) d @ drop (length (drop (unat j) d)) b, sha512_W := replicate 80 0\<rparr>"
    have inv: "sha512_inv ?c" using r b(2) by (simp add: sha512_inv_def)
    have pend': "sha512_pend ?c = drop (unat j) d"
      unfolding sha512_pend_def using p' r by simp
    have "(sha512_state ?c, sha512_pend ?c) = absorb sha512_transform 128 (sha512_state c) (sha512_pend c @ d)"
      by (simp only: abs) (simp add: pend' [unfolded j(3)] j(3))
    moreover have "drop (length (sha512_pend ?c)) (sha512_buf ?c) = drop (length (sha512_pend ?c)) (take 128 (sha512_pend c @ d))"
      unfolding pend' b(3) [symmetric] by simp
    ultimately show ?thesis using u inv by blast
  qed
qed

interpretation sha512: block_digest sha512_transform 128 "2 ^ 32 - 128" sha512_inv sha512_state sha512_pend fio_sha512_update
  using sha512_update_absorb by unfold_locales blast

section \<open>Properties\<close>

text \<open>
  C38. Every sequence of updates leaves the FIPS 180 compression of the whole blocks of the
  message in the state and the rest of the message in the buffer; no access leaves the buffer.
\<close>

theorem sha512_streaming:
  assumes "\<forall>d\<in>set ds. length d < 2 ^ 32 - 128" "length (sha512_buf c0) = 128"
  shows "\<exists>c. feed fio_sha512_update (fio_sha512_init c0) ds = Inr c \<and>
    (sha512_state c, sha512_pend c) = absorb sha512_ref_block 128 sha512_iv (concat ds)"
proof -
  have "sha512_inv (fio_sha512_init c0)" "sha512_pend (fio_sha512_init c0) = []" "sha512_state (fio_sha512_init c0) = sha512_iv"
    using assms(2) by (simp_all add: sha512_inv_def fio_sha512_init_def sha512_pend_def)
  then show ?thesis
    using sha512.feed_absorb [OF _ assms(1), of "fio_sha512_init c0"] by (simp add: sha512_transform_ref) blast
qed

theorem sha512_streaming_witness:
  "\<exists>c. feed fio_sha512_update (fio_sha512_init \<lparr>sha512_state = [], sha512_count = (1, 2, 3, 4), sha512_buf = replicate 128 7,
      sha512_W = []\<rparr>) [[97], [98, 99]] = Inr c \<and>
    (sha512_state c, sha512_pend c) = absorb sha512_ref_block 128 sha512_iv [97, 98, 99]"
  using sha512_streaming [of "[[97], [98, 99]]" "\<lparr>sha512_state = [], sha512_count = (1, 2, 3, 4),
    sha512_buf = replicate 128 7, sha512_W = []\<rparr>"]
  by simp

text \<open>
  C39. The 128 bytes of the buffer, which the verification compares as the digest, depend on the
  first 128 bytes of the data and on those behind its last whole block only: equal there, two
  buffers of the same length have the same digest, whatever is between.
\<close>

theorem sha512_digest_blind:
  assumes "length d = length d'" "128 \<le> length d" "length d < 2 ^ 32 - 128"
    and "take 128 d = take 128 d'" "drop (length d - length d mod 128) d = drop (length d - length d mod 128) d'"
    and "length (sha512_buf c0) = 128"
  shows "\<exists>c c'. fio_sha512_update (fio_sha512_init c0) d = Inr c \<and> fio_sha512_update (fio_sha512_init c0) d' = Inr c' \<and>
    sha512_buf c = sha512_buf c'"
proof -
  let ?c = "fio_sha512_init c0"
  have inv: "sha512_inv ?c" and pend: "sha512_pend ?c = []"
    using assms(6) by (simp_all add: sha512_inv_def fio_sha512_init_def sha512_pend_def)
  have "\<exists>c. fio_sha512_update ?c e = Inr c \<and>
      sha512_buf c = drop (length e - length e mod 128) e @ drop (length e mod 128) (take 128 e)"
    if e: "128 \<le> length e" "length e < 2 ^ 32 - 128" for e
  proof -
    obtain c where c: "fio_sha512_update ?c e = Inr c"
      "(sha512_state c, sha512_pend c) = absorb sha512_transform 128 (sha512_state ?c) e"
      "drop (length (sha512_pend c)) (sha512_buf c) = drop (length (sha512_pend c)) (take 128 e)"
      using sha512_update_absorb [OF inv e(2)] pend e(1) by auto
    have "sha512_pend c = drop (length e - length e mod 128) e"
      using absorb_rest_drop [of 128 sha512_transform "sha512_state ?c" e] c(2) by (metis snd_conv zero_less_numeral)
    moreover have "sha512_buf c = sha512_pend c @ drop (length (sha512_pend c)) (sha512_buf c)"
      unfolding sha512_pend_def by (simp add: min_def) 
    ultimately show ?thesis using c(1,3) by simp
  qed
  from this [of d] this [of d'] show ?thesis using assms(1-5) by auto
qed

theorem sha512_digest_blind_witness:
  "\<exists>c c'. fio_sha512_update (fio_sha512_init \<lparr>sha512_state = [], sha512_count = (1, 2, 3, 4), sha512_buf = replicate 128 7,
      sha512_W = []\<rparr>) (replicate 256 0) = Inr c \<and>
    fio_sha512_update (fio_sha512_init \<lparr>sha512_state = [], sha512_count = (1, 2, 3, 4), sha512_buf = replicate 128 7,
      sha512_W = []\<rparr>) (replicate 255 0 @ [1]) = Inr c' \<and> sha512_buf c = sha512_buf c'"
  using sha512_digest_blind [of "replicate 256 0" "replicate 255 0 @ [1]" "\<lparr>sha512_state = [],
    sha512_count = (1, 2, 3, 4), sha512_buf = replicate 128 7, sha512_W = []\<rparr>"]
  by (simp add: min_def)

end
