(* ===== verification/Sha3.thy ===== *)
theory Sha3
  imports Block_Hash
begin

text \<open>
  The SHA-3 digests of \<open>crc/sha3.c\<close>.  The permutation works in place on the 25 words of the
  state; each of its steps is proved to be the one of FIPS 202 on the lanes
  \<open>A[x, y] = st[x + 5 * y]\<close>, and the digests to be the sponge over it.
\<close>

section \<open>The permutation\<close>

definition ROTL64 :: "u64 \<Rightarrow> nat \<Rightarrow> u64" where
  "ROTL64 x y = push_bit y x OR drop_bit (64 - y) x"

definition keccakf_rndc :: "u64 list" where
  "keccakf_rndc =
    [0x0000000000000001, 0x0000000000008082, 0x800000000000808a, 0x8000000080008000,
     0x000000000000808b, 0x0000000080000001, 0x8000000080008081, 0x8000000000008009,
     0x000000000000008a, 0x0000000000000088, 0x0000000080008009, 0x000000008000000a,
     0x000000008000808b, 0x800000000000008b, 0x8000000000008089, 0x8000000000008003,
     0x8000000000008002, 0x8000000000000080, 0x000000000000800a, 0x800000008000000a,
     0x8000000080008081, 0x8000000000008080, 0x0000000080000001, 0x8000000080008008]"

definition keccakf_rotc :: "nat list" where
  "keccakf_rotc =
    [1, 3, 6, 10, 15, 21, 28, 36, 45, 55, 2, 14, 27, 41, 56, 8, 25, 43, 62, 18, 39, 61, 20, 44]"

definition keccakf_piln :: "nat list" where
  "keccakf_piln =
    [10, 7, 11, 17, 18, 3, 5, 16, 8, 21, 24, 4, 15, 23, 19, 13, 12, 2, 20, 14, 22, 9, 6, 1]"

definition keccakf_theta :: "u64 list \<Rightarrow> u64 list" where
  "keccakf_theta st =
    (let bc = map (\<lambda>i. st ! i XOR st ! (i + 5) XOR st ! (i + 10) XOR st ! (i + 15) XOR st ! (i + 20)) [0..<5]
     in fold (\<lambda>i st.
          let t = bc ! ((i + 4) mod 5) XOR ROTL64 (bc ! ((i + 1) mod 5)) 1
          in fold (\<lambda>j st. st[j + i := st ! (j + i) XOR t]) [0, 5, 10, 15, 20] st) [0..<5] st)"

definition keccakf_rho_pi :: "u64 list \<Rightarrow> u64 list" where
  "keccakf_rho_pi st =
    snd (fold (\<lambda>i (t, st).
      let j = keccakf_piln ! i; bc0 = st ! j in (bc0, st[j := ROTL64 t (keccakf_rotc ! i)])) [0..<24] (st ! 1, st))"

definition keccakf_chi :: "u64 list \<Rightarrow> u64 list" where
  "keccakf_chi st =
    fold (\<lambda>j st.
      let bc = map (\<lambda>i. st ! (j + i)) [0..<5]
      in fold (\<lambda>i st. st[j + i := st ! (j + i) XOR (NOT (bc ! ((i + 1) mod 5)) AND bc ! ((i + 2) mod 5))]) [0..<5] st)
      [0, 5, 10, 15, 20] st"

definition keccakf_iota :: "nat \<Rightarrow> u64 list \<Rightarrow> u64 list" where
  "keccakf_iota round st = st[0 := st ! 0 XOR keccakf_rndc ! round]"

definition keccakf :: "u64 list \<Rightarrow> u64 list" where
  "keccakf st = fold (\<lambda>round st. keccakf_iota round (keccakf_chi (keccakf_rho_pi (keccakf_theta st)))) [0..<24] st"

section \<open>The digest\<close>

record fio_sha3_ctx =
  sha3_st :: "u64 list"
  md_len :: u32
  rsiz :: u32
  rsizw :: u32
  sha3_partial :: u32
  sha3_buf :: "u8 list"
  sha3_sha :: "u8 list"

definition fio_sha3_init :: "fio_sha3_ctx \<Rightarrow> u32 \<Rightarrow> fio_sha3_ctx" where
  "fio_sha3_init sctx digest_sz =
    (let rs = 200 - 2 * digest_sz
     in sctx\<lparr>sha3_st := replicate 25 0, md_len := digest_sz, rsiz := rs, rsizw := rs div 8,
          sha3_partial := 0, sha3_buf := replicate 144 0\<rparr>)"

definition fio_sha3_224_init :: "fio_sha3_ctx \<Rightarrow> fio_sha3_ctx" where
  "fio_sha3_224_init sctx = fio_sha3_init sctx 28"

definition fio_sha3_256_init :: "fio_sha3_ctx \<Rightarrow> fio_sha3_ctx" where
  "fio_sha3_256_init sctx = fio_sha3_init sctx 32"

definition fio_sha3_384_init :: "fio_sha3_ctx \<Rightarrow> fio_sha3_ctx" where
  "fio_sha3_384_init sctx = fio_sha3_init sctx 48"

definition fio_sha3_512_init :: "fio_sha3_ctx \<Rightarrow> fio_sha3_ctx" where
  "fio_sha3_512_init sctx = fio_sha3_init sctx 64"

text \<open>The block step of update and final: the words of the block are added to the state, which is then permuted.\<close>

definition sha3_block :: "nat \<Rightarrow> u64 list \<Rightarrow> u8 list \<Rightarrow> u64 list" where
  "sha3_block w st src = keccakf (fold (\<lambda>i st. st[i := st ! i XOR load_le64 src (8 * i)]) [0..<w] st)"

definition fio_sha3_update :: "fio_sha3_ctx \<Rightarrow> u8 list \<Rightarrow> fio_sha3_ctx res" where
  "fio_sha3_update sctx data =
    bindr (update32 (sha3_block (unat (rsizw sctx))) (rsiz sctx) (sha3_partial sctx) (sha3_st sctx) (sha3_buf sctx) data)
      (\<lambda>(st, buf, partial). Inr (sctx\<lparr>sha3_st := st, sha3_buf := buf, sha3_partial := partial\<rparr>))"

text \<open>The digest is copied to the memory behind \<open>sha\<close>.\<close>

definition fio_sha3_final :: "fio_sha3_ctx \<Rightarrow> fio_sha3_ctx res" where
  "fio_sha3_final sctx =
    (let inlen = unat (sha3_partial sctx)
     in bindr (blit (sha3_buf sctx) inlen [0x06]) (\<lambda>buf.
        bindr (blit buf (inlen + 1) (replicate (unat (rsiz sctx) - (inlen + 1)) 0)) (\<lambda>buf.
        bindr (rd buf (unat (rsiz sctx - 1))) (\<lambda>v.
        bindr (blit buf (unat (rsiz sctx - 1)) [v OR 0x80]) (\<lambda>buf.
        let st = sha3_block (unat (rsizw sctx)) (sha3_st sctx) buf
        in bindr (blit (sha3_sha sctx) 0 (take (unat (md_len sctx)) (concat (map bytes_le64 st)))) (\<lambda>sha.
           Inr (sctx\<lparr>sha3_st := st, sha3_buf := buf, sha3_sha := sha\<rparr>)))))))"

section \<open>The steps of FIPS 202\<close>

definition lanes :: "(nat \<Rightarrow> nat \<Rightarrow> u64) \<Rightarrow> u64 list" where
  "lanes A = map (\<lambda>k. A (k mod 5) (k div 5)) [0..<25]"

definition lane :: "u64 list \<Rightarrow> nat \<Rightarrow> nat \<Rightarrow> u64" where
  "lane st x y = st ! (x + 5 * y)"

definition ref_theta :: "(nat \<Rightarrow> nat \<Rightarrow> u64) \<Rightarrow> nat \<Rightarrow> nat \<Rightarrow> u64" where
  "ref_theta A x y =
    (let C = (\<lambda>x. A x 0 XOR A x 1 XOR A x 2 XOR A x 3 XOR A x 4)
     in A x y XOR (C ((x + 4) mod 5) XOR rol 1 (C ((x + 1) mod 5))))"

primrec rho_lane :: "nat \<Rightarrow> nat \<times> nat" where
  "rho_lane 0 = (1, 0)"
| "rho_lane (Suc t) = (case rho_lane t of (x, y) \<Rightarrow> (y, (2 * x + 3 * y) mod 5))"

definition rho_offset :: "nat \<Rightarrow> nat \<Rightarrow> nat" where
  "rho_offset x y =
    (case find (\<lambda>t. rho_lane t = (x, y)) [0..<24] of None \<Rightarrow> 0 | Some t \<Rightarrow> (t + 1) * (t + 2) div 2 mod 64)"

definition ref_rho :: "(nat \<Rightarrow> nat \<Rightarrow> u64) \<Rightarrow> nat \<Rightarrow> nat \<Rightarrow> u64" where
  "ref_rho A x y = rol (rho_offset x y) (A x y)"

definition ref_pi :: "(nat \<Rightarrow> nat \<Rightarrow> u64) \<Rightarrow> nat \<Rightarrow> nat \<Rightarrow> u64" where
  "ref_pi A x y = A ((x + 3 * y) mod 5) x"

definition ref_chi :: "(nat \<Rightarrow> nat \<Rightarrow> u64) \<Rightarrow> nat \<Rightarrow> nat \<Rightarrow> u64" where
  "ref_chi A x y = A x y XOR (NOT (A ((x + 1) mod 5) y) AND A ((x + 2) mod 5) y)"

definition ref_iota :: "nat \<Rightarrow> (nat \<Rightarrow> nat \<Rightarrow> u64) \<Rightarrow> nat \<Rightarrow> nat \<Rightarrow> u64" where
  "ref_iota r A x y = (if x = 0 \<and> y = 0 then A x y XOR keccakf_rndc ! r else A x y)"

definition ref_round :: "nat \<Rightarrow> u64 list \<Rightarrow> u64 list" where
  "ref_round r st = lanes (ref_iota r (ref_chi (ref_pi (ref_rho (ref_theta (lane st))))))"

lemma upt_explicit:
  "[0..<5] = [0, 1, 2, 3, 4 :: nat]"
  "[0..<24] = [0, 1, 2, 3, 4, 5, 6, 7, 8, 9, 10, 11, 12, 13, 14, 15, 16, 17, 18, 19, 20, 21, 22, 23]"
  "[0..<25] = [0, 1, 2, 3, 4, 5, 6, 7, 8, 9, 10, 11, 12, 13, 14, 15, 16, 17, 18, 19, 20, 21, 22, 23, 24]"
  by code_simp+

lemma expand25: "length st = 25 \<Longrightarrow> st = [st ! 0, st ! 1, st ! 2, st ! 3, st ! 4, st ! 5, st ! 6, st ! 7, st ! 8, st ! 9, st ! 10, st ! 11, st ! 12, st ! 13, st ! 14, st ! 15, st ! 16, st ! 17, st ! 18, st ! 19, st ! 20, st ! 21, st ! 22, st ! 23, st ! 24]"
  using map_nth [of st] by (simp only: upt_explicit list.map)

lemma lanes_explicit: "lanes A = [A 0 0, A 1 0, A 2 0, A 3 0, A 4 0, A 0 1, A 1 1, A 2 1, A 3 1, A 4 1,
    A 0 2, A 1 2, A 2 2, A 3 2, A 4 2, A 0 3, A 1 3, A 2 3, A 3 3, A 4 3, A 0 4, A 1 4, A 2 4, A 3 4, A 4 4]"
  by (simp add: lanes_def upt_explicit)

lemma ROTL64_rol: "ROTL64 x y = rol y x"
  by (simp add: ROTL64_def rol_def)

lemma theta_columns:
  "fold (\<lambda>i st. fold (\<lambda>j st. st[j + i := st ! (j + i) XOR D i]) [0, 5, 10, 15, 20] st) [0, 1, 2, 3, 4]
    [a0, a1, a2, a3, a4, a5, a6, a7, a8, a9, a10, a11, a12, a13, a14, a15, a16, a17, a18, a19, a20, a21, a22, a23, a24] =
    [a0 XOR D 0, a1 XOR D 1, a2 XOR D 2, a3 XOR D 3, a4 XOR D 4, a5 XOR D 0, a6 XOR D 1, a7 XOR D 2, a8 XOR D 3, a9 XOR D 4, a10 XOR D 0, a11 XOR D 1, a12 XOR D 2, a13 XOR D 3, a14 XOR D 4, a15 XOR D 0, a16 XOR D 1, a17 XOR D 2, a18 XOR D 3, a19 XOR D 4, a20 XOR D 0, a21 XOR D 1, a22 XOR D 2, a23 XOR D 3, a24 XOR D 4]" for D :: "nat \<Rightarrow> u64"
  by simp

lemma theta_explicit:
  "keccakf_theta [a0, a1, a2, a3, a4, a5, a6, a7, a8, a9, a10, a11, a12, a13, a14, a15, a16, a17, a18, a19, a20, a21, a22, a23, a24] = lanes (ref_theta (lane [a0, a1, a2, a3, a4, a5, a6, a7, a8, a9, a10, a11, a12, a13, a14, a15, a16, a17, a18, a19, a20, a21, a22, a23, a24]))"
  unfolding keccakf_theta_def Let_def upt_explicit theta_columns
  by (simp add: lanes_explicit ref_theta_def lane_def ROTL64_rol)

lemma rho_offsets:
  "rho_offset 0 0 = 0" "rho_offset 1 0 = 1" "rho_offset 2 0 = 62" "rho_offset 3 0 = 28" "rho_offset 4 0 = 27"
  "rho_offset 0 1 = 36" "rho_offset 1 1 = 44" "rho_offset 2 1 = 6" "rho_offset 3 1 = 55" "rho_offset 4 1 = 20"
  "rho_offset 0 2 = 3" "rho_offset 1 2 = 10" "rho_offset 2 2 = 43" "rho_offset 3 2 = 25" "rho_offset 4 2 = 39"
  "rho_offset 0 3 = 41" "rho_offset 1 3 = 45" "rho_offset 2 3 = 15" "rho_offset 3 3 = 21" "rho_offset 4 3 = 8"
  "rho_offset 0 4 = 18" "rho_offset 1 4 = 2" "rho_offset 2 4 = 61" "rho_offset 3 4 = 56" "rho_offset 4 4 = 14"
  by code_simp+

lemma rol_0 [simp]: "rol 0 w = w" for w :: u64
proof -
  have "drop_bit 64 w = 0" unfolding word_eq_bits by (auto simp: bit_simps dest: bit_imp_le_length)
  then show ?thesis by (simp add: rol_def)
qed

lemma rho_pi_explicit:
  "keccakf_rho_pi [a0, a1, a2, a3, a4, a5, a6, a7, a8, a9, a10, a11, a12, a13, a14, a15, a16, a17, a18, a19, a20, a21, a22, a23, a24] = lanes (ref_pi (ref_rho (lane [a0, a1, a2, a3, a4, a5, a6, a7, a8, a9, a10, a11, a12, a13, a14, a15, a16, a17, a18, a19, a20, a21, a22, a23, a24])))"
  unfolding keccakf_rho_pi_def upt_explicit keccakf_piln_def keccakf_rotc_def
  by (simp add: lanes_explicit ref_pi_def ref_rho_def lane_def rho_offsets rho_offsets [unfolded One_nat_def] ROTL64_rol)

lemma chi_explicit:
  "keccakf_chi [a0, a1, a2, a3, a4, a5, a6, a7, a8, a9, a10, a11, a12, a13, a14, a15, a16, a17, a18, a19, a20, a21, a22, a23, a24] = lanes (ref_chi (lane [a0, a1, a2, a3, a4, a5, a6, a7, a8, a9, a10, a11, a12, a13, a14, a15, a16, a17, a18, a19, a20, a21, a22, a23, a24]))"
  by (simp add: keccakf_chi_def lanes_explicit ref_chi_def lane_def upt_explicit)

lemma lanes_cong: "(\<And>x y. x < 5 \<Longrightarrow> y < 5 \<Longrightarrow> A x y = B x y) \<Longrightarrow> lanes A = lanes B"
  by (simp add: lanes_explicit)

lemma lane_lanes [simp]: "x < 5 \<Longrightarrow> y < 5 \<Longrightarrow> lane (lanes A) x y = A x y"
  by (simp add: lane_def lanes_def)

lemma length_lanes [simp]: "length (lanes A) = 25"
  by (simp add: lanes_def)

lemma keccakf_steps:
  assumes "length st = 25"
  shows "keccakf_theta st = lanes (ref_theta (lane st))"
    and "keccakf_rho_pi st = lanes (ref_pi (ref_rho (lane st)))"
    and "keccakf_chi st = lanes (ref_chi (lane st))"
  by (subst (1 2) expand25 [OF assms], rule theta_explicit rho_pi_explicit chi_explicit)+

lemma iota_lanes: "keccakf_iota r (lanes A) = lanes (ref_iota r A)"
  by (simp add: keccakf_iota_def lanes_explicit ref_iota_def)

lemma keccakf_round_ref:
  assumes "length st = 25"
  shows "keccakf_iota r (keccakf_chi (keccakf_rho_pi (keccakf_theta st))) = ref_round r st"
proof -
  have "keccakf_rho_pi (keccakf_theta st) = lanes (ref_pi (ref_rho (ref_theta (lane st))))"
    unfolding keccakf_steps(1) [OF assms] keccakf_steps(2) [OF length_lanes]
    by (rule lanes_cong) (simp add: ref_pi_def ref_rho_def)
  moreover have "keccakf_chi (lanes (ref_pi (ref_rho (ref_theta (lane st))))) =
      lanes (ref_chi (ref_pi (ref_rho (ref_theta (lane st)))))"
    unfolding keccakf_steps(3) [OF length_lanes] by (rule lanes_cong) (simp add: ref_chi_def)
  ultimately show ?thesis by (simp add: iota_lanes ref_round_def)
qed

section \<open>The sponge\<close>

definition sha3_ref_block :: "nat \<Rightarrow> u64 list \<Rightarrow> u8 list \<Rightarrow> u64 list" where
  "sha3_ref_block r st b =
    fold ref_round [0..<24] (map (\<lambda>k. if k < r div 8 then st ! k XOR load_le64 b (8 * k) else st ! k) [0..<25])"

lemma length_ref_round [simp]: "length (ref_round r st) = 25"
  by (simp add: ref_round_def)

lemma keccakf_ref: "length st = 25 \<Longrightarrow> keccakf st = fold ref_round [0..<24] st"
proof -
  have "length st = 25 \<Longrightarrow>
      fold (\<lambda>round st. keccakf_iota round (keccakf_chi (keccakf_rho_pi (keccakf_theta st)))) rs st = fold ref_round rs st" for rs
    by (induction rs arbitrary: st) (simp_all add: keccakf_round_ref)
  then show "length st = 25 \<Longrightarrow> keccakf st = fold ref_round [0..<24] st" by (simp add: keccakf_def)
qed

lemma length_fold_ref_round: "length st = 25 \<Longrightarrow> length (fold ref_round rs st) = 25"
  by (induction rs arbitrary: st) simp_all

lemma fold_xor_words:
  "n \<le> length st \<Longrightarrow> fold (\<lambda>i st. st[i := st ! i XOR g i]) [0..<n] st =
     map (\<lambda>k. if k < n then st ! k XOR g k else st ! k) [0..<length st]" for st :: "u64 list"
proof (induction n)
  case 0
  then show ?case by (simp add: map_nth)
next
  case (Suc n)
  then have "fold (\<lambda>i st. st[i := st ! i XOR g i]) [0..<n] st =
      map (\<lambda>k. if k < n then st ! k XOR g k else st ! k) [0..<length st]" by simp
  with Suc.prems show ?case by (auto intro!: nth_equalityI simp: nth_list_update)
qed

lemma sha3_block_ref:
  "length st = 25 \<Longrightarrow> r div 8 \<le> 25 \<Longrightarrow> sha3_block (r div 8) st b = sha3_ref_block r st b"
  by (simp add: sha3_block_def sha3_ref_block_def fold_xor_words keccakf_ref)

lemma length_sha3_ref_block: "length (sha3_ref_block r st b) = 25"
  by (simp add: sha3_ref_block_def length_fold_ref_round)

section \<open>The update keeps the contract of a block digest\<close>

definition sha3_sizes :: "u32 set" where
  "sha3_sizes = {28, 32, 48, 64}"

definition sha3_inv :: "u32 \<Rightarrow> fio_sha3_ctx \<Rightarrow> bool" where
  "sha3_inv ds c \<longleftrightarrow> md_len c = ds \<and> rsiz c = 200 - 2 * ds \<and> rsizw c = rsiz c div 8 \<and>
     unat (sha3_partial c) < unat (rsiz c) \<and> length (sha3_buf c) = 144 \<and> length (sha3_st c) = 25"

definition sha3_pend :: "fio_sha3_ctx \<Rightarrow> u8 list" where
  "sha3_pend c = take (unat (sha3_partial c)) (sha3_buf c)"

abbreviation sha3_rate :: "u32 \<Rightarrow> nat" where
  "sha3_rate ds \<equiv> unat (200 - 2 * ds)"

lemma sha3_rate_props:
  assumes "ds \<in> sha3_sizes"
  shows "0 < sha3_rate ds" "sha3_rate ds \<le> 144" "sha3_rate ds div 8 \<le> 25" "8 * (sha3_rate ds div 8) = sha3_rate ds"
    "unat ds \<le> 64"
  using assms by (auto simp: sha3_sizes_def)

lemma sha3_update_absorb:
  assumes "ds \<in> sha3_sizes" "sha3_inv ds c" "length d < 2 ^ 32 - 200"
  shows "\<exists>c'. fio_sha3_update c d = Inr c' \<and> sha3_inv ds c' \<and> sha3_sha c' = sha3_sha c \<and>
    (sha3_st c', sha3_pend c') = absorb (sha3_ref_block (sha3_rate ds)) (sha3_rate ds) (sha3_st c) (sha3_pend c @ d)"
proof -
  note r = sha3_rate_props [OF assms(1)]
  have w: "unat (rsizw c) = sha3_rate ds div 8" and B: "unat (rsiz c) = sha3_rate ds"
    using assms(2) by (simp_all add: sha3_inv_def unat_div)
  let ?f = "sha3_block (unat (rsizw c))"
  obtain h b q where u: "update32 ?f (rsiz c) (sha3_partial c) (sha3_st c) (sha3_buf c) d = Inr (h, b, q)"
    "length b = 144" "unat q < sha3_rate ds"
    "(h, take (unat q) b) = absorb ?f (sha3_rate ds) (sha3_st c) (sha3_pend c @ d)"
    using update32_absorb [of "rsiz c" "sha3_buf c" "sha3_partial c" d ?f "sha3_st c"] assms(2,3) r B
    by (auto simp: sha3_inv_def sha3_pend_def)
  have "absorb ?f B st xs = absorb (sha3_ref_block (sha3_rate ds)) B st xs \<and>
      length (fst (absorb (sha3_ref_block (sha3_rate ds)) B st xs)) = 25" if "length st = 25" for st B xs
    using that by (intro absorb_cong) (simp_all add: w sha3_block_ref r(3) length_sha3_ref_block)
  with u(4) assms(2) have "(h, take (unat q) b) = absorb (sha3_ref_block (sha3_rate ds)) (sha3_rate ds) (sha3_st c) (sha3_pend c @ d)"
    "length h = 25"
    by (simp_all add: sha3_inv_def) (metis fst_conv)
  with u assms(2) show ?thesis
    by (simp add: fio_sha3_update_def sha3_inv_def sha3_pend_def)
qed

lemma sha3_block_digest:
  assumes "ds \<in> sha3_sizes"
  shows "block_digest (sha3_ref_block (sha3_rate ds)) (sha3_rate ds) (2 ^ 32 - 200) (sha3_inv ds) sha3_st sha3_pend fio_sha3_update"
  using sha3_update_absorb [OF assms] by unfold_locales blast

interpretation sha3_224: block_digest "sha3_ref_block (sha3_rate 28)" "sha3_rate 28" "2 ^ 32 - 200" "sha3_inv 28" sha3_st sha3_pend fio_sha3_update
  by (rule sha3_block_digest) (simp add: sha3_sizes_def)

interpretation sha3_256: block_digest "sha3_ref_block (sha3_rate 32)" "sha3_rate 32" "2 ^ 32 - 200" "sha3_inv 32" sha3_st sha3_pend fio_sha3_update
  by (rule sha3_block_digest) (simp add: sha3_sizes_def)

interpretation sha3_384: block_digest "sha3_ref_block (sha3_rate 48)" "sha3_rate 48" "2 ^ 32 - 200" "sha3_inv 48" sha3_st sha3_pend fio_sha3_update
  by (rule sha3_block_digest) (simp add: sha3_sizes_def)

interpretation sha3_512: block_digest "sha3_ref_block (sha3_rate 64)" "sha3_rate 64" "2 ^ 32 - 200" "sha3_inv 64" sha3_st sha3_pend fio_sha3_update
  by (rule sha3_block_digest) (simp add: sha3_sizes_def)

lemma sha3_feed_sha:
  "ds \<in> sha3_sizes \<Longrightarrow> sha3_inv ds c \<Longrightarrow> \<forall>d\<in>set xs. length d < 2 ^ 32 - 200 \<Longrightarrow> feed fio_sha3_update c xs = Inr c' \<Longrightarrow>
   sha3_sha c' = sha3_sha c"
proof (induction xs arbitrary: c)
  case (Cons d xs)
  then obtain c1 where c1: "fio_sha3_update c d = Inr c1" "sha3_inv ds c1" "sha3_sha c1 = sha3_sha c"
    using sha3_update_absorb [of ds c d] by auto
  with Cons.IH [OF Cons.prems(1) c1(2)] Cons.prems show ?case by simp
qed simp

section \<open>Padding and finalisation\<close>

text \<open>The suffix \<open>01\<close> and the padding \<open>10*1\<close> as bytes; with one byte left both ends are in it.\<close>

definition sha3_padding :: "nat \<Rightarrow> nat \<Rightarrow> u8 list" where
  "sha3_padding r n =
    (let q = r - n mod r in if q = 1 then [0x86] else 0x06 # replicate (q - 2) 0 @ [0x80])"

definition sha3_reference :: "u32 \<Rightarrow> u8 list \<Rightarrow> u8 list" where
  "sha3_reference ds msg =
    (let r = sha3_rate ds
     in take (unat ds) (concat (map bytes_le64 (fst (absorb (sha3_ref_block r) r (replicate 25 0)
          (msg @ sha3_padding r (length msg)))))))"

text \<open>The three writes of the finalisation produce the padded block.\<close>

lemma sha3_pad_writes:
  assumes "length buf = n" "p < r" "r \<le> n"
  shows "\<exists>b1 b2 v b3. blit buf p [0x06] = Inr b1 \<and> blit b1 (p + 1) (replicate (r - (p + 1)) 0) = Inr b2 \<and>
    rd b2 (r - 1) = Inr v \<and> blit b2 (r - 1) [v OR 0x80] = Inr b3 \<and> length b3 = n \<and>
    take r b3 = take p buf @ sha3_padding r p"
proof -
  obtain k where k: "r = Suc (p + k)" using assms(2) less_iff_Suc_add by blast
  define b2 where "b2 = take p buf @ 0x06 # replicate k 0 @ drop r buf"
  have 1: "blit buf p [0x06] = Inr (take p buf @ 0x06 # drop (p + 1) buf)"
    using assms by (simp add: blit_ok)
  have 2: "blit (take p buf @ 0x06 # drop (p + 1) buf) (p + 1) (replicate (r - (p + 1)) 0) = Inr b2"
    using assms k by (simp add: blit_ok b2_def add.commute)
  have len: "length b2 = n" using assms k by (simp add: b2_def)
  have 3: "rd b2 (r - 1) = Inr (b2 ! (r - 1))" using len assms by (simp add: rd_def)
  define b3 where "b3 = take (r - 1) b2 @ (b2 ! (r - 1) OR 0x80) # drop r b2"
  have 4: "blit b2 (r - 1) [b2 ! (r - 1) OR 0x80] = Inr b3"
    using len assms by (simp add: blit_ok b3_def)
  have "length b3 = n" using len assms by (simp add: b3_def)
  moreover have "take r b3 = take p buf @ sha3_padding r p"
  proof (cases k)
    case 0
    then show ?thesis
      using assms k by (simp add: b3_def b2_def sha3_padding_def nth_append)
  next
    case (Suc j)
    then show ?thesis
      using assms k by (simp add: b3_def b2_def sha3_padding_def nth_append replicate_append_same [symmetric])
  qed
  ultimately show ?thesis using 1 2 3 4 by blast
qed

lemma load_le64_take: "i + 8 \<le> r \<Longrightarrow> load_le64 (take r b) i = load_le64 b i"
  by (simp add: load_le64_def load_le32_def)

lemma sha3_ref_block_take: "sha3_ref_block r st (take r b) = sha3_ref_block r st b"
proof -
  have "load_le64 (take r b) (8 * k) = load_le64 b (8 * k)" if "k < r div 8" for k
    using that by (intro load_le64_take) linarith
  then show ?thesis by (simp add: sha3_ref_block_def cong: if_cong)
qed

lemma sha3_final_absorb:
  assumes "ds \<in> sha3_sizes" "sha3_inv ds c" "unat ds \<le> length (sha3_sha c)"
  shows "\<exists>c'. fio_sha3_final c = Inr c' \<and> length (sha3_sha c') = length (sha3_sha c) \<and>
    take (unat ds) (sha3_sha c') = take (unat ds) (concat (map bytes_le64 (fst (absorb (sha3_ref_block (sha3_rate ds)) (sha3_rate ds)
      (sha3_st c) (sha3_pend c @ sha3_padding (sha3_rate ds) (length (sha3_pend c)))))))"
proof -
  note r = sha3_rate_props [OF assms(1)]
  let ?r = "sha3_rate ds"
  define p where "p = unat (sha3_partial c)"
  have p: "p < ?r" "length (sha3_buf c) = 144" "length (sha3_st c) = 25" and w: "unat (rsizw c) = ?r div 8"
    and B: "unat (rsiz c) = ?r" and ml: "md_len c = ds"
    using assms(2) by (auto simp: sha3_inv_def p_def unat_div)
  have B1: "unat (rsiz c - 1) = ?r - 1" using r(1) B by (metis unat_minus_one unat_0 less_irrefl)
  have pend: "sha3_pend c = take p (sha3_buf c)" "length (sha3_pend c) = p"
    using p r(2) by (simp_all add: sha3_pend_def p_def)
  obtain b1 b2 v b3 where b: "blit (sha3_buf c) p [0x06] = Inr b1" "blit b1 (p + 1) (replicate (?r - (p + 1)) 0) = Inr b2"
    "rd b2 (?r - 1) = Inr v" "blit b2 (?r - 1) [v OR 0x80] = Inr b3" "take ?r b3 = sha3_pend c @ sha3_padding ?r p" "length b3 = 144"
    using sha3_pad_writes [OF p(2,1) r(2)] pend(1) by auto
  let ?st = "sha3_ref_block ?r (sha3_st c) (take ?r b3)"
  have st: "sha3_block (unat (rsizw c)) (sha3_st c) b3 = ?st"
    unfolding w sha3_block_ref [OF p(3) r(3)] by (rule sha3_ref_block_take [symmetric])
  have blk: "length (take ?r b3) = ?r" using b(6) r(2) by simp
  have abs: "fst (absorb (sha3_ref_block ?r) ?r (sha3_st c) (take ?r b3)) = ?st"
    using absorb_block [OF r(1) blk, of "sha3_ref_block ?r" "sha3_st c" "[]"] r(1) by (simp add: absorb_short)
  have out: "length (concat (map bytes_le64 ?st)) = 200"
    by (simp add: length_concat o_def length_sha3_ref_block sum_list_triv)
  let ?out = "take (unat ds) (concat (map bytes_le64 ?st))"
  have lo: "length ?out = unat ds" using out r(5) by simp
  obtain sha where sha: "blit (sha3_sha c) 0 ?out = Inr sha" "length sha = length (sha3_sha c)" "take (unat ds) sha = ?out"
    using fill_partial [OF refl, of 0 ?out "sha3_sha c"] assms(3) lo by auto
  have "fio_sha3_final c = Inr (c\<lparr>sha3_st := ?st, sha3_buf := b3, sha3_sha := sha\<rparr>)"
    unfolding fio_sha3_final_def Let_def p_def [symmetric] B B1 b(1) bindr_simps b(2,3,4) st ml sha(1) ..
  moreover have "?out = take (unat ds) (concat (map bytes_le64 (fst (absorb (sha3_ref_block ?r) ?r
      (sha3_st c) (sha3_pend c @ sha3_padding ?r (length (sha3_pend c)))))))"
    unfolding pend(2) b(5) [symmetric] abs ..
  ultimately show ?thesis using sha(2,3) by simp
qed

section \<open>Properties\<close>

text \<open>
  C27. For each of the four digest sizes, whatever pieces the message comes in, initialising,
  updating and finalising write the SHA-3 digest of FIPS 202 to the caller's memory: the sponge
  over the permutation given by theta, rho, pi, chi and iota on lanes, with the padding
  \<open>01 10*1\<close>.
\<close>

theorem sha3_streaming:
  assumes "ds \<in> {28, 32, 48, 64}" "\<forall>d\<in>set xs. length d < 2 ^ 32 - 200" "unat ds \<le> length (sha3_sha c0)"
  shows "\<exists>c c'. feed fio_sha3_update (fio_sha3_init c0 ds) xs = Inr c \<and> fio_sha3_final c = Inr c' \<and>
    take (unat ds) (sha3_sha c') = sha3_reference ds (concat xs) \<and> length (sha3_sha c') = length (sha3_sha c0)"
proof -
  have ds: "ds \<in> sha3_sizes" using assms(1) by (simp add: sha3_sizes_def)
  note r = sha3_rate_props [OF ds]
  let ?r = "sha3_rate ds" and ?c = "fio_sha3_init c0 ds"
  have inv: "sha3_inv ds ?c" and pend: "sha3_pend ?c = []" and st: "sha3_st ?c = replicate 25 0" and sha: "sha3_sha ?c = sha3_sha c0"
    using r(1) by (simp_all add: sha3_inv_def fio_sha3_init_def sha3_pend_def Let_def)
  obtain c where c: "feed fio_sha3_update ?c xs = Inr c" "sha3_inv ds c"
    "(sha3_st c, sha3_pend c) = absorb (sha3_ref_block ?r) ?r (replicate 25 0) (concat xs)"
    using block_digest.feed_absorb [OF sha3_block_digest [OF ds] inv assms(2) r(1)] pend st r(1) by auto
  have sha_c: "sha3_sha c = sha3_sha c0" using sha3_feed_sha [OF ds inv assms(2) c(1)] sha by simp
  obtain c' where c': "fio_sha3_final c = Inr c'" "length (sha3_sha c') = length (sha3_sha c0)"
    "take (unat ds) (sha3_sha c') = take (unat ds) (concat (map bytes_le64 (fst (absorb (sha3_ref_block ?r) ?r
      (sha3_st c) (sha3_pend c @ sha3_padding ?r (length (sha3_pend c)))))))"
    using sha3_final_absorb [OF ds c(2)] assms(3) sha_c by auto
  have "length (sha3_pend c) = length (concat xs) mod ?r"
    using absorb_rest_mod [OF r(1), of "sha3_ref_block ?r" "replicate 25 0" "concat xs"] c(3) by (metis snd_conv)
  then have pad: "sha3_padding ?r (length (sha3_pend c)) = sha3_padding ?r (length (concat xs))"
    by (simp add: sha3_padding_def)
  have "absorb (sha3_ref_block ?r) ?r (sha3_st c) (sha3_pend c @ sha3_padding ?r (length (concat xs))) =
      absorb (sha3_ref_block ?r) ?r (replicate 25 0) (concat xs @ sha3_padding ?r (length (concat xs)))"
    unfolding absorb_append [of _ _ _ "concat xs"] c(3) [symmetric] by simp
  then have "take (unat ds) (sha3_sha c') = sha3_reference ds (concat xs)"
    unfolding c'(3) pad sha3_reference_def Let_def by simp
  with c(1) c'(1,2) show ?thesis by blast
qed

theorem sha3_streaming_witness:
  "\<exists>c c'. feed fio_sha3_update (fio_sha3_init \<lparr>sha3_st = [], md_len = 0, rsiz = 0, rsizw = 0, sha3_partial = 9,
      sha3_buf = [], sha3_sha = replicate 32 0\<rparr> 32) [[97], [98, 99]] = Inr c \<and> fio_sha3_final c = Inr c' \<and>
    take 32 (sha3_sha c') = sha3_reference 32 [97, 98, 99] \<and> length (sha3_sha c') = 32"
  using sha3_streaming [of 32 "[[97], [98, 99]]" "\<lparr>sha3_st = [], md_len = 0, rsiz = 0, rsizw = 0, sha3_partial = 9,
      sha3_buf = [], sha3_sha = replicate 32 0\<rparr>"]
  by simp

end
