(* ===== verification/Xxhash.thy ===== *)
theory Xxhash
  imports Block_Hash
begin

text \<open>
  The hash of \<open>crc/xxhash.c\<close>, in its two forms: the hash of a buffer in one call and the state
  that takes its input in pieces.  The host is little-endian, so that \<open>XXH_readLE32\<close> is a plain
  load.  Both forms are proved to compute the same value.
\<close>

section \<open>Constants and the lane step\<close>

definition PRIME32_1 :: u32 where "PRIME32_1 = 2654435761"
definition PRIME32_2 :: u32 where "PRIME32_2 = 2246822519"
definition PRIME32_3 :: u32 where "PRIME32_3 = 3266489917"
definition PRIME32_4 :: u32 where "PRIME32_4 = 668265263"
definition PRIME32_5 :: u32 where "PRIME32_5 = 374761393"

definition XXH_rotl32 :: "u32 \<Rightarrow> nat \<Rightarrow> u32" where
  "XXH_rotl32 x r = push_bit r x OR drop_bit (32 - r) x"

definition XXH_readLE32 :: "u8 list \<Rightarrow> nat \<Rightarrow> u32" where
  "XXH_readLE32 p i = load_le32 p i"

type_synonym xxh_acc = "u32 \<times> u32 \<times> u32 \<times> u32"

definition xxh_acc_init :: "u32 \<Rightarrow> xxh_acc" where
  "xxh_acc_init seed = (seed + PRIME32_1 + PRIME32_2, seed + PRIME32_2, seed + 0, seed - PRIME32_1)"

text \<open>The four accumulator lines, over sixteen bytes of input.\<close>

definition xxh_stripe :: "xxh_acc \<Rightarrow> u8 list \<Rightarrow> xxh_acc" where
  "xxh_stripe = (\<lambda>(v1, v2, v3, v4) p.
     (XXH_rotl32 (v1 + XXH_readLE32 p 0 * PRIME32_2) 13 * PRIME32_1,
      XXH_rotl32 (v2 + XXH_readLE32 p 4 * PRIME32_2) 13 * PRIME32_1,
      XXH_rotl32 (v3 + XXH_readLE32 p 8 * PRIME32_2) 13 * PRIME32_1,
      XXH_rotl32 (v4 + XXH_readLE32 p 12 * PRIME32_2) 13 * PRIME32_1))"

definition xxh_merge :: "xxh_acc \<Rightarrow> u32" where
  "xxh_merge = (\<lambda>(v1, v2, v3, v4). XXH_rotl32 v1 1 + XXH_rotl32 v2 7 + XXH_rotl32 v3 12 + XXH_rotl32 v4 18)"

section \<open>The tail\<close>

fun xxh_bytes :: "u32 \<Rightarrow> u8 list \<Rightarrow> u32" where
  "xxh_bytes h32 [] = h32"
| "xxh_bytes h32 (b # p) = xxh_bytes (XXH_rotl32 (h32 + ucast b * PRIME32_5) 11 * PRIME32_1) p"

function xxh_words :: "u32 \<Rightarrow> u8 list \<Rightarrow> u32 \<times> u8 list" where
  "xxh_words h32 p =
    (if length p \<ge> 4
     then xxh_words (XXH_rotl32 (h32 + XXH_readLE32 p 0 * PRIME32_3) 17 * PRIME32_4) (drop 4 p)
     else (h32, p))"
  by pat_completeness auto
termination
  by (relation "measure (\<lambda>(h32, p). length p)") auto

declare xxh_words.simps [simp del]

definition xxh_avalanche :: "u32 \<Rightarrow> u32" where
  "xxh_avalanche h32 =
    (let h32 = h32 XOR drop_bit 15 h32;
         h32 = h32 * PRIME32_2;
         h32 = h32 XOR drop_bit 13 h32;
         h32 = h32 * PRIME32_3
     in h32 XOR drop_bit 16 h32)"

section \<open>One call\<close>

text \<open>The loop over whole stripes ends when less than sixteen bytes are left, as \<^const>\<open>absorb\<close> does.\<close>

definition XXH32_endian_align :: "u8 list \<Rightarrow> u32 \<Rightarrow> u32" where
  "XXH32_endian_align input seed =
    (let (h32, p) = (if length input \<ge> 16
           then let (v, p) = absorb xxh_stripe 16 (xxh_acc_init seed) input in (xxh_merge v, p)
           else (seed + PRIME32_5, input));
         h32 = h32 + of_nat (length input);
         (h32, p) = xxh_words h32 p
     in xxh_avalanche (xxh_bytes h32 p))"

definition XXH32 :: "u8 list \<Rightarrow> u32 \<Rightarrow> u32" where
  "XXH32 input seed = XXH32_endian_align input seed"

section \<open>In pieces\<close>

record XXH_state32_t =
  total_len :: u64
  xxh_seed :: u32
  xxh_v :: xxh_acc
  memsize :: nat
  xxh_memory :: "u8 list"

definition XXH32_resetState :: "XXH_state32_t \<Rightarrow> u32 \<Rightarrow> XXH_state32_t" where
  "XXH32_resetState state seed =
    state\<lparr>xxh_seed := seed, xxh_v := xxh_acc_init seed, total_len := 0, memsize := 0\<rparr>"

text \<open>An update completes a stripe left over from the last one, then takes whole stripes and keeps the rest.\<close>

definition xxh_fill :: "XXH_state32_t \<Rightarrow> u8 list \<Rightarrow> (XXH_state32_t \<times> u8 list) res" where
  "xxh_fill state input =
    (if memsize state \<noteq> 0
     then bindr (blit (xxh_memory state) (memsize state) (take (16 - memsize state) input)) (\<lambda>m.
          Inr (state\<lparr>xxh_memory := m, xxh_v := xxh_stripe (xxh_v state) m, memsize := 0\<rparr>, drop (16 - memsize state) input))
     else Inr (state, input))"

definition xxh_stripes :: "XXH_state32_t \<Rightarrow> u8 list \<Rightarrow> XXH_state32_t res" where
  "xxh_stripes state p =
    (let (v, p) = absorb xxh_stripe 16 (xxh_v state) p;
         state = state\<lparr>xxh_v := v\<rparr>
     in if p \<noteq> []
        then bindr (blit (xxh_memory state) 0 p) (\<lambda>m. Inr (state\<lparr>xxh_memory := m, memsize := length p\<rparr>))
        else Inr state)"

definition XXH32_update_endian :: "XXH_state32_t \<Rightarrow> u8 list \<Rightarrow> XXH_state32_t res" where
  "XXH32_update_endian state input =
    (let len = length input;
         state = state\<lparr>total_len := total_len state + of_nat len\<rparr>
     in if memsize state + len \<ge> 2 ^ 31 then Inl Signed_overflow
        else if memsize state + len < 16
        then bindr (blit (xxh_memory state) (memsize state) input) (\<lambda>m.
             Inr (state\<lparr>xxh_memory := m, memsize := memsize state + len\<rparr>))
        else bindr (xxh_fill state input) (\<lambda>(state, p). xxh_stripes state p))"

definition XXH32_update :: "XXH_state32_t \<Rightarrow> u8 list \<Rightarrow> XXH_state32_t res" where
  "XXH32_update state input = XXH32_update_endian state input"

definition XXH32_intermediateDigest_endian :: "XXH_state32_t \<Rightarrow> u32" where
  "XXH32_intermediateDigest_endian state =
    (let p = take (memsize state) (xxh_memory state);
         h32 = (if total_len state \<ge> 16 then xxh_merge (xxh_v state) else xxh_seed state + PRIME32_5);
         h32 = h32 + ucast (total_len state);
         (h32, p) = xxh_words h32 p
     in xxh_avalanche (xxh_bytes h32 p))"

definition XXH32_digest :: "XXH_state32_t \<Rightarrow> u32" where
  "XXH32_digest state = XXH32_intermediateDigest_endian state"

section \<open>The update keeps the contract of a block digest\<close>

definition xxh_inv :: "XXH_state32_t \<Rightarrow> bool" where
  "xxh_inv c \<longleftrightarrow> length (xxh_memory c) = 16 \<and> memsize c < 16"

definition xxh_pend :: "XXH_state32_t \<Rightarrow> u8 list" where
  "xxh_pend c = take (memsize c) (xxh_memory c)"

lemma xxh_update_absorb:
  assumes "xxh_inv c" "length d < 2 ^ 31 - 16"
  shows "\<exists>c'. XXH32_update c d = Inr c' \<and> xxh_inv c' \<and> total_len c' = total_len c + of_nat (length d) \<and>
    xxh_seed c' = xxh_seed c \<and> (xxh_v c', xxh_pend c') = absorb xxh_stripe 16 (xxh_v c) (xxh_pend c @ d)"
proof -
  define p where "p = memsize c"
  have p: "p < 16" "length (xxh_memory c) = 16" and no: "\<not> p + length d \<ge> 2 ^ 31"
    using assms by (simp_all add: xxh_inv_def p_def)
  have pend: "xxh_pend c = take p (xxh_memory c)" "length (xxh_pend c) = p"
    using p by (simp_all add: xxh_pend_def p_def)
  note upd = XXH32_update_def XXH32_update_endian_def Let_def p_def [symmetric]
  show ?thesis
  proof (cases "p + length d < 16")
    case True
    obtain b where b: "blit (xxh_memory c) p d = Inr b" "length b = 16" "take (p + length d) b = xxh_pend c @ d"
      using fill_partial [OF p(2), of p d] True pend(1) by auto
    then show ?thesis
      using True no pend(2) by (simp add: upd xxh_inv_def xxh_pend_def absorb_short)
  next
    case False
    define b0 where "b0 = xxh_pend c @ take (16 - p) d"
    have b0: "length b0 = 16" using False p(1) pend(2) by (simp add: b0_def)
    have fill: "blit (xxh_memory c) p (take (16 - p) d) = Inr b0"
      using fill_block [OF p(2), of p "take (16 - p) d"] False p(1) pend(1) by (simp add: b0_def)
    obtain v rest where a: "absorb xxh_stripe 16 (xxh_v c) (xxh_pend c @ d) = (v, rest)" by fastforce
    have rest: "length rest < 16" using absorb_rest [of 16 xxh_stripe "xxh_v c" "xxh_pend c @ d"] a by simp
    have a': "absorb xxh_stripe 16 (xxh_stripe (xxh_v c) b0) (drop (16 - p) d) = (v, rest)"
      using absorb_block [OF _ b0, of xxh_stripe "xxh_v c" "drop (16 - p) d"] a by (simp add: b0_def)
    let ?s = "c\<lparr>total_len := total_len c + of_nat (length d)\<rparr>"
    obtain s p' where s: "xxh_fill ?s d = Inr (s, p')"
      "memsize s = 0" "length (xxh_memory s) = 16" "total_len s = total_len ?s" "xxh_seed s = xxh_seed c"
      "absorb xxh_stripe 16 (xxh_v s) p' = (v, rest)"
    proof (cases "p = 0")
      case True
      then show thesis using that [of ?s d] a p(2) pend(1) by (simp add: xxh_fill_def flip: p_def)
    next
      case False
      then show thesis
        using that [of "?s\<lparr>xxh_memory := b0, xxh_v := xxh_stripe (xxh_v c) b0, memsize := 0\<rparr>" "drop (16 - p) d"] fill b0 a'
        by (simp add: xxh_fill_def flip: p_def)
    qed
    obtain m where m: "blit (xxh_memory s) 0 rest = Inr m" "length m = 16" "take (length rest) m = rest"
      using fill_partial [OF s(3), of 0 rest] rest by auto
    have "XXH32_update c d = (if rest \<noteq> [] then Inr (s\<lparr>xxh_v := v, xxh_memory := m, memsize := length rest\<rparr>) else Inr (s\<lparr>xxh_v := v\<rparr>))"
      using False no s(1,6) m(1) by (simp add: upd xxh_stripes_def)
    then show ?thesis
      using s(2-5) m(2,3) rest a by (cases "rest = []") (simp_all add: xxh_inv_def xxh_pend_def)
  qed
qed

interpretation xxh: block_digest xxh_stripe 16 "2 ^ 31 - 16" xxh_inv xxh_v xxh_pend XXH32_update
  using xxh_update_absorb by unfold_locales blast

lemma xxh_feed_len:
  "xxh_inv c \<Longrightarrow> \<forall>d\<in>set ds. length d < 2 ^ 31 - 16 \<Longrightarrow> feed XXH32_update c ds = Inr c' \<Longrightarrow>
   total_len c' = total_len c + of_nat (length (concat ds)) \<and> xxh_seed c' = xxh_seed c"
proof (induction ds arbitrary: c)
  case (Cons d ds)
  then obtain c1 where c1: "XXH32_update c d = Inr c1" "xxh_inv c1"
    "total_len c1 = total_len c + of_nat (length d)" "xxh_seed c1 = xxh_seed c"
    using xxh_update_absorb [of c d] by auto
  with Cons.IH [OF c1(2)] Cons.prems show ?case by (simp add: add.assoc)
qed simp

section \<open>Properties\<close>

text \<open>
  C21. The two forms of the hash agree: resetting a state, updating it with the pieces of a buffer
  and taking the digest give the hash of the whole buffer in one call, for every seed.
\<close>

theorem xxh32_pieces_eq_whole:
  assumes "\<forall>d\<in>set ds. length d < 2 ^ 31 - 16" "length (concat ds) < 2 ^ 31" "length (xxh_memory c0) = 16"
  shows "\<exists>c. feed XXH32_update (XXH32_resetState c0 seed) ds = Inr c \<and> XXH32_digest c = XXH32 (concat ds) seed"
proof -
  let ?c = "XXH32_resetState c0 seed" and ?m = "concat ds"
  have inv: "xxh_inv ?c" and pend: "xxh_pend ?c = []" and v: "xxh_v ?c = xxh_acc_init seed"
    using assms(3) by (simp_all add: xxh_inv_def xxh_pend_def XXH32_resetState_def)
  obtain c where c: "feed XXH32_update ?c ds = Inr c" "xxh_inv c"
    "(xxh_v c, xxh_pend c) = absorb xxh_stripe 16 (xxh_acc_init seed) ?m"
    using xxh.feed_absorb [OF inv assms(1)] pend v by auto
  have len: "total_len c = of_nat (length ?m)" and seed: "xxh_seed c = seed"
    using xxh_feed_len [OF inv assms(1) c(1)] by (simp_all add: XXH32_resetState_def)
  have lu: "unat (total_len c) = length ?m"
    using assms(2) len by (simp add: unsigned_of_nat take_bit_nat_eq_self)
  have ge: "total_len c \<ge> 16 \<longleftrightarrow> length ?m \<ge> 16" using lu by (simp add: word_le_nat_alt)
  have lc: "ucast (total_len c) = (of_nat (length ?m) :: u32)"
    by (simp only: word_unat_eq_iff unat_ucast lu) (simp add: unsigned_of_nat take_bit_eq_mod)
  have "xxh_pend c = (if length ?m \<ge> 16 then snd (absorb xxh_stripe 16 (xxh_acc_init seed) ?m) else ?m)"
    using c(3) by (simp add: absorb_short) (metis snd_conv absorb_short not_le)
  moreover have "xxh_v c = fst (absorb xxh_stripe 16 (xxh_acc_init seed) ?m)" using c(3) by (metis fst_conv)
  ultimately have "XXH32_digest c = XXH32 ?m seed"
    unfolding XXH32_digest_def XXH32_intermediateDigest_endian_def XXH32_def XXH32_endian_align_def
      xxh_pend_def [symmetric] ge lc seed
    by (simp add: split_beta Let_def)
  with c(1) show ?thesis by blast
qed

theorem xxh32_pieces_eq_whole_witness:
  "\<exists>c. feed XXH32_update (XXH32_resetState \<lparr>total_len = 7, xxh_seed = 1, xxh_v = (1, 2, 3, 4), memsize = 5,
      xxh_memory = replicate 16 0\<rparr> 42) [replicate 10 1, replicate 10 2] = Inr c \<and>
    XXH32_digest c = XXH32 (replicate 10 1 @ replicate 10 2) 42"
  using xxh32_pieces_eq_whole [of "[replicate 10 1, replicate 10 2]" "\<lparr>total_len = 7, xxh_seed = 1, xxh_v = (1, 2, 3, 4),
    memsize = 5, xxh_memory = replicate 16 0\<rparr>" 42]
  by simp

end
