(* ===== verification/Crc.thy ===== *)
theory Crc
  imports Bytes
begin

text \<open>
  The cyclic redundancy checks of \<open>crc/\<close>: \<open>crc7\<close>, \<open>crc16\<close>, \<open>crc32\<close>, \<open>crc32c\<close> and \<open>crc64\<close>, all driven by
  tables of 256 entries, and the variant of \<open>crc32c\<close> that uses the CRC32 instruction.  The tables
  are proved to be those of the bit-serial division by the polynomial.
\<close>

section \<open>Tables\<close>

definition crc7_ints :: "int list" where
  "crc7_ints = concat
    [[0x00, 0x09, 0x12, 0x1b, 0x24, 0x2d, 0x36, 0x3f],
     [0x48, 0x41, 0x5a, 0x53, 0x6c, 0x65, 0x7e, 0x77],
     [0x19, 0x10, 0x0b, 0x02, 0x3d, 0x34, 0x2f, 0x26],
     [0x51, 0x58, 0x43, 0x4a, 0x75, 0x7c, 0x67, 0x6e],
     [0x32, 0x3b, 0x20, 0x29, 0x16, 0x1f, 0x04, 0x0d],
     [0x7a, 0x73, 0x68, 0x61, 0x5e, 0x57, 0x4c, 0x45],
     [0x2b, 0x22, 0x39, 0x30, 0x0f, 0x06, 0x1d, 0x14],
     [0x63, 0x6a, 0x71, 0x78, 0x47, 0x4e, 0x55, 0x5c],
     [0x64, 0x6d, 0x76, 0x7f, 0x40, 0x49, 0x52, 0x5b],
     [0x2c, 0x25, 0x3e, 0x37, 0x08, 0x01, 0x1a, 0x13],
     [0x7d, 0x74, 0x6f, 0x66, 0x59, 0x50, 0x4b, 0x42],
     [0x35, 0x3c, 0x27, 0x2e, 0x11, 0x18, 0x03, 0x0a],
     [0x56, 0x5f, 0x44, 0x4d, 0x72, 0x7b, 0x60, 0x69],
     [0x1e, 0x17, 0x0c, 0x05, 0x3a, 0x33, 0x28, 0x21],
     [0x4f, 0x46, 0x5d, 0x54, 0x6b, 0x62, 0x79, 0x70],
     [0x07, 0x0e, 0x15, 0x1c, 0x23, 0x2a, 0x31, 0x38],
     [0x41, 0x48, 0x53, 0x5a, 0x65, 0x6c, 0x77, 0x7e],
     [0x09, 0x00, 0x1b, 0x12, 0x2d, 0x24, 0x3f, 0x36],
     [0x58, 0x51, 0x4a, 0x43, 0x7c, 0x75, 0x6e, 0x67],
     [0x10, 0x19, 0x02, 0x0b, 0x34, 0x3d, 0x26, 0x2f],
     [0x73, 0x7a, 0x61, 0x68, 0x57, 0x5e, 0x45, 0x4c],
     [0x3b, 0x32, 0x29, 0x20, 0x1f, 0x16, 0x0d, 0x04],
     [0x6a, 0x63, 0x78, 0x71, 0x4e, 0x47, 0x5c, 0x55],
     [0x22, 0x2b, 0x30, 0x39, 0x06, 0x0f, 0x14, 0x1d],
     [0x25, 0x2c, 0x37, 0x3e, 0x01, 0x08, 0x13, 0x1a],
     [0x6d, 0x64, 0x7f, 0x76, 0x49, 0x40, 0x5b, 0x52],
     [0x3c, 0x35, 0x2e, 0x27, 0x18, 0x11, 0x0a, 0x03],
     [0x74, 0x7d, 0x66, 0x6f, 0x50, 0x59, 0x42, 0x4b],
     [0x17, 0x1e, 0x05, 0x0c, 0x33, 0x3a, 0x21, 0x28],
     [0x5f, 0x56, 0x4d, 0x44, 0x7b, 0x72, 0x69, 0x60],
     [0x0e, 0x07, 0x1c, 0x15, 0x2a, 0x23, 0x38, 0x31],
     [0x46, 0x4f, 0x54, 0x5d, 0x62, 0x6b, 0x70, 0x79]]"

definition crc7_syndrome_table :: "u8 list" where
  "crc7_syndrome_table = map word_of_int crc7_ints"

definition crc16_ints :: "int list" where
  "crc16_ints = concat
    [[0x0000, 0xc0c1, 0xc181, 0x0140, 0xc301, 0x03c0, 0x0280, 0xc241],
     [0xc601, 0x06c0, 0x0780, 0xc741, 0x0500, 0xc5c1, 0xc481, 0x0440],
     [0xcc01, 0x0cc0, 0x0d80, 0xcd41, 0x0f00, 0xcfc1, 0xce81, 0x0e40],
     [0x0a00, 0xcac1, 0xcb81, 0x0b40, 0xc901, 0x09c0, 0x0880, 0xc841],
     [0xd801, 0x18c0, 0x1980, 0xd941, 0x1b00, 0xdbc1, 0xda81, 0x1a40],
     [0x1e00, 0xdec1, 0xdf81, 0x1f40, 0xdd01, 0x1dc0, 0x1c80, 0xdc41],
     [0x1400, 0xd4c1, 0xd581, 0x1540, 0xd701, 0x17c0, 0x1680, 0xd641],
     [0xd201, 0x12c0, 0x1380, 0xd341, 0x1100, 0xd1c1, 0xd081, 0x1040],
     [0xf001, 0x30c0, 0x3180, 0xf141, 0x3300, 0xf3c1, 0xf281, 0x3240],
     [0x3600, 0xf6c1, 0xf781, 0x3740, 0xf501, 0x35c0, 0x3480, 0xf441],
     [0x3c00, 0xfcc1, 0xfd81, 0x3d40, 0xff01, 0x3fc0, 0x3e80, 0xfe41],
     [0xfa01, 0x3ac0, 0x3b80, 0xfb41, 0x3900, 0xf9c1, 0xf881, 0x3840],
     [0x2800, 0xe8c1, 0xe981, 0x2940, 0xeb01, 0x2bc0, 0x2a80, 0xea41],
     [0xee01, 0x2ec0, 0x2f80, 0xef41, 0x2d00, 0xedc1, 0xec81, 0x2c40],
     [0xe401, 0x24c0, 0x2580, 0xe541, 0x2700, 0xe7c1, 0xe681, 0x2640],
     [0x2200, 0xe2c1, 0xe381, 0x2340, 0xe101, 0x21c0, 0x2080, 0xe041],
     [0xa001, 0x60c0, 0x6180, 0xa141, 0x6300, 0xa3c1, 0xa281, 0x6240],
     [0x6600, 0xa6c1, 0xa781, 0x6740, 0xa501, 0x65c0, 0x6480, 0xa441],
     [0x6c00, 0xacc1, 0xad81, 0x6d40, 0xaf01, 0x6fc0, 0x6e80, 0xae41],
     [0xaa01, 0x6ac0, 0x6b80, 0xab41, 0x6900, 0xa9c1, 0xa881, 0x6840],
     [0x7800, 0xb8c1, 0xb981, 0x7940, 0xbb01, 0x7bc0, 0x7a80, 0xba41],
     [0xbe01, 0x7ec0, 0x7f80, 0xbf41, 0x7d00, 0xbdc1, 0xbc81, 0x7c40],
     [0xb401, 0x74c0, 0x7580, 0xb541, 0x7700, 0xb7c1, 0xb681, 0x7640],
     [0x7200, 0xb2c1, 0xb381, 0x7340, 0xb101, 0x71c0, 0x7080, 0xb041],
     [0x5000, 0x90c1, 0x9181, 0x5140, 0x9301, 0x53c0, 0x5280, 0x9241],
     [0x9601, 0x56c0, 0x5780, 0x9741, 0x5500, 0x95c1, 0x9481, 0x5440],
     [0x9c01, 0x5cc0, 0x5d80, 0x9d41, 0x5f00, 0x9fc1, 0x9e81, 0x5e40],
     [0x5a00, 0x9ac1, 0x9b81, 0x5b40, 0x9901, 0x59c0, 0x5880, 0x9841],
     [0x8801, 0x48c0, 0x4980, 0x8941, 0x4b00, 0x8bc1, 0x8a81, 0x4a40],
     [0x4e00, 0x8ec1, 0x8f81, 0x4f40, 0x8d01, 0x4dc0, 0x4c80, 0x8c41],
     [0x4400, 0x84c1, 0x8581, 0x4540, 0x8701, 0x47c0, 0x4680, 0x8641],
     [0x8201, 0x42c0, 0x4380, 0x8341, 0x4100, 0x81c1, 0x8081, 0x4040]]"

definition crc16_table :: "u16 list" where
  "crc16_table = map word_of_int crc16_ints"

definition crc32_ints :: "int list" where
  "crc32_ints = concat
    [[0x00000000, 0x04c11db7, 0x09823b6e, 0x0d4326d9, 0x130476dc],
     [0x17c56b6b, 0x1a864db2, 0x1e475005, 0x2608edb8, 0x22c9f00f],
     [0x2f8ad6d6, 0x2b4bcb61, 0x350c9b64, 0x31cd86d3, 0x3c8ea00a],
     [0x384fbdbd, 0x4c11db70, 0x48d0c6c7, 0x4593e01e, 0x4152fda9],
     [0x5f15adac, 0x5bd4b01b, 0x569796c2, 0x52568b75, 0x6a1936c8],
     [0x6ed82b7f, 0x639b0da6, 0x675a1011, 0x791d4014, 0x7ddc5da3],
     [0x709f7b7a, 0x745e66cd, 0x9823b6e0, 0x9ce2ab57, 0x91a18d8e],
     [0x95609039, 0x8b27c03c, 0x8fe6dd8b, 0x82a5fb52, 0x8664e6e5],
     [0xbe2b5b58, 0xbaea46ef, 0xb7a96036, 0xb3687d81, 0xad2f2d84],
     [0xa9ee3033, 0xa4ad16ea, 0xa06c0b5d, 0xd4326d90, 0xd0f37027],
     [0xddb056fe, 0xd9714b49, 0xc7361b4c, 0xc3f706fb, 0xceb42022],
     [0xca753d95, 0xf23a8028, 0xf6fb9d9f, 0xfbb8bb46, 0xff79a6f1],
     [0xe13ef6f4, 0xe5ffeb43, 0xe8bccd9a, 0xec7dd02d, 0x34867077],
     [0x30476dc0, 0x3d044b19, 0x39c556ae, 0x278206ab, 0x23431b1c],
     [0x2e003dc5, 0x2ac12072, 0x128e9dcf, 0x164f8078, 0x1b0ca6a1],
     [0x1fcdbb16, 0x018aeb13, 0x054bf6a4, 0x0808d07d, 0x0cc9cdca],
     [0x7897ab07, 0x7c56b6b0, 0x71159069, 0x75d48dde, 0x6b93dddb],
     [0x6f52c06c, 0x6211e6b5, 0x66d0fb02, 0x5e9f46bf, 0x5a5e5b08],
     [0x571d7dd1, 0x53dc6066, 0x4d9b3063, 0x495a2dd4, 0x44190b0d],
     [0x40d816ba, 0xaca5c697, 0xa864db20, 0xa527fdf9, 0xa1e6e04e],
     [0xbfa1b04b, 0xbb60adfc, 0xb6238b25, 0xb2e29692, 0x8aad2b2f],
     [0x8e6c3698, 0x832f1041, 0x87ee0df6, 0x99a95df3, 0x9d684044],
     [0x902b669d, 0x94ea7b2a, 0xe0b41de7, 0xe4750050, 0xe9362689],
     [0xedf73b3e, 0xf3b06b3b, 0xf771768c, 0xfa325055, 0xfef34de2],
     [0xc6bcf05f, 0xc27dede8, 0xcf3ecb31, 0xcbffd686, 0xd5b88683],
     [0xd1799b34, 0xdc3abded, 0xd8fba05a, 0x690ce0ee, 0x6dcdfd59],
     [0x608edb80, 0x644fc637, 0x7a089632, 0x7ec98b85, 0x738aad5c],
     [0x774bb0eb, 0x4f040d56, 0x4bc510e1, 0x46863638, 0x42472b8f],
     [0x5c007b8a, 0x58c1663d, 0x558240e4, 0x51435d53, 0x251d3b9e],
     [0x21dc2629, 0x2c9f00f0, 0x285e1d47, 0x36194d42, 0x32d850f5],
     [0x3f9b762c, 0x3b5a6b9b, 0x0315d626, 0x07d4cb91, 0x0a97ed48],
     [0x0e56f0ff, 0x1011a0fa, 0x14d0bd4d, 0x19939b94, 0x1d528623],
     [0xf12f560e, 0xf5ee4bb9, 0xf8ad6d60, 0xfc6c70d7, 0xe22b20d2],
     [0xe6ea3d65, 0xeba91bbc, 0xef68060b, 0xd727bbb6, 0xd3e6a601],
     [0xdea580d8, 0xda649d6f, 0xc423cd6a, 0xc0e2d0dd, 0xcda1f604],
     [0xc960ebb3, 0xbd3e8d7e, 0xb9ff90c9, 0xb4bcb610, 0xb07daba7],
     [0xae3afba2, 0xaafbe615, 0xa7b8c0cc, 0xa379dd7b, 0x9b3660c6],
     [0x9ff77d71, 0x92b45ba8, 0x9675461f, 0x8832161a, 0x8cf30bad],
     [0x81b02d74, 0x857130c3, 0x5d8a9099, 0x594b8d2e, 0x5408abf7],
     [0x50c9b640, 0x4e8ee645, 0x4a4ffbf2, 0x470cdd2b, 0x43cdc09c],
     [0x7b827d21, 0x7f436096, 0x7200464f, 0x76c15bf8, 0x68860bfd],
     [0x6c47164a, 0x61043093, 0x65c52d24, 0x119b4be9, 0x155a565e],
     [0x18197087, 0x1cd86d30, 0x029f3d35, 0x065e2082, 0x0b1d065b],
     [0x0fdc1bec, 0x3793a651, 0x3352bbe6, 0x3e119d3f, 0x3ad08088],
     [0x2497d08d, 0x2056cd3a, 0x2d15ebe3, 0x29d4f654, 0xc5a92679],
     [0xc1683bce, 0xcc2b1d17, 0xc8ea00a0, 0xd6ad50a5, 0xd26c4d12],
     [0xdf2f6bcb, 0xdbee767c, 0xe3a1cbc1, 0xe760d676, 0xea23f0af],
     [0xeee2ed18, 0xf0a5bd1d, 0xf464a0aa, 0xf9278673, 0xfde69bc4],
     [0x89b8fd09, 0x8d79e0be, 0x803ac667, 0x84fbdbd0, 0x9abc8bd5],
     [0x9e7d9662, 0x933eb0bb, 0x97ffad0c, 0xafb010b1, 0xab710d06],
     [0xa6322bdf, 0xa2f33668, 0xbcb4666d, 0xb8757bda, 0xb5365d03],
     [0xb1f740b4]]"

definition crctab :: "u32 list" where
  "crctab = map word_of_int crc32_ints"

definition crc32c_ints :: "int list" where
  "crc32c_ints = concat
    [[0x00000000, 0xf26b8303, 0xe13b70f7, 0x1350f3f4],
     [0xc79a971f, 0x35f1141c, 0x26a1e7e8, 0xd4ca64eb],
     [0x8ad958cf, 0x78b2dbcc, 0x6be22838, 0x9989ab3b],
     [0x4d43cfd0, 0xbf284cd3, 0xac78bf27, 0x5e133c24],
     [0x105ec76f, 0xe235446c, 0xf165b798, 0x030e349b],
     [0xd7c45070, 0x25afd373, 0x36ff2087, 0xc494a384],
     [0x9a879fa0, 0x68ec1ca3, 0x7bbcef57, 0x89d76c54],
     [0x5d1d08bf, 0xaf768bbc, 0xbc267848, 0x4e4dfb4b],
     [0x20bd8ede, 0xd2d60ddd, 0xc186fe29, 0x33ed7d2a],
     [0xe72719c1, 0x154c9ac2, 0x061c6936, 0xf477ea35],
     [0xaa64d611, 0x580f5512, 0x4b5fa6e6, 0xb93425e5],
     [0x6dfe410e, 0x9f95c20d, 0x8cc531f9, 0x7eaeb2fa],
     [0x30e349b1, 0xc288cab2, 0xd1d83946, 0x23b3ba45],
     [0xf779deae, 0x05125dad, 0x1642ae59, 0xe4292d5a],
     [0xba3a117e, 0x4851927d, 0x5b016189, 0xa96ae28a],
     [0x7da08661, 0x8fcb0562, 0x9c9bf696, 0x6ef07595],
     [0x417b1dbc, 0xb3109ebf, 0xa0406d4b, 0x522bee48],
     [0x86e18aa3, 0x748a09a0, 0x67dafa54, 0x95b17957],
     [0xcba24573, 0x39c9c670, 0x2a993584, 0xd8f2b687],
     [0x0c38d26c, 0xfe53516f, 0xed03a29b, 0x1f682198],
     [0x5125dad3, 0xa34e59d0, 0xb01eaa24, 0x42752927],
     [0x96bf4dcc, 0x64d4cecf, 0x77843d3b, 0x85efbe38],
     [0xdbfc821c, 0x2997011f, 0x3ac7f2eb, 0xc8ac71e8],
     [0x1c661503, 0xee0d9600, 0xfd5d65f4, 0x0f36e6f7],
     [0x61c69362, 0x93ad1061, 0x80fde395, 0x72966096],
     [0xa65c047d, 0x5437877e, 0x4767748a, 0xb50cf789],
     [0xeb1fcbad, 0x197448ae, 0x0a24bb5a, 0xf84f3859],
     [0x2c855cb2, 0xdeeedfb1, 0xcdbe2c45, 0x3fd5af46],
     [0x7198540d, 0x83f3d70e, 0x90a324fa, 0x62c8a7f9],
     [0xb602c312, 0x44694011, 0x5739b3e5, 0xa55230e6],
     [0xfb410cc2, 0x092a8fc1, 0x1a7a7c35, 0xe811ff36],
     [0x3cdb9bdd, 0xceb018de, 0xdde0eb2a, 0x2f8b6829],
     [0x82f63b78, 0x709db87b, 0x63cd4b8f, 0x91a6c88c],
     [0x456cac67, 0xb7072f64, 0xa457dc90, 0x563c5f93],
     [0x082f63b7, 0xfa44e0b4, 0xe9141340, 0x1b7f9043],
     [0xcfb5f4a8, 0x3dde77ab, 0x2e8e845f, 0xdce5075c],
     [0x92a8fc17, 0x60c37f14, 0x73938ce0, 0x81f80fe3],
     [0x55326b08, 0xa759e80b, 0xb4091bff, 0x466298fc],
     [0x1871a4d8, 0xea1a27db, 0xf94ad42f, 0x0b21572c],
     [0xdfeb33c7, 0x2d80b0c4, 0x3ed04330, 0xccbbc033],
     [0xa24bb5a6, 0x502036a5, 0x4370c551, 0xb11b4652],
     [0x65d122b9, 0x97baa1ba, 0x84ea524e, 0x7681d14d],
     [0x2892ed69, 0xdaf96e6a, 0xc9a99d9e, 0x3bc21e9d],
     [0xef087a76, 0x1d63f975, 0x0e330a81, 0xfc588982],
     [0xb21572c9, 0x407ef1ca, 0x532e023e, 0xa145813d],
     [0x758fe5d6, 0x87e466d5, 0x94b49521, 0x66df1622],
     [0x38cc2a06, 0xcaa7a905, 0xd9f75af1, 0x2b9cd9f2],
     [0xff56bd19, 0x0d3d3e1a, 0x1e6dcdee, 0xec064eed],
     [0xc38d26c4, 0x31e6a5c7, 0x22b65633, 0xd0ddd530],
     [0x0417b1db, 0xf67c32d8, 0xe52cc12c, 0x1747422f],
     [0x49547e0b, 0xbb3ffd08, 0xa86f0efc, 0x5a048dff],
     [0x8ecee914, 0x7ca56a17, 0x6ff599e3, 0x9d9e1ae0],
     [0xd3d3e1ab, 0x21b862a8, 0x32e8915c, 0xc083125f],
     [0x144976b4, 0xe622f5b7, 0xf5720643, 0x07198540],
     [0x590ab964, 0xab613a67, 0xb831c993, 0x4a5a4a90],
     [0x9e902e7b, 0x6cfbad78, 0x7fab5e8c, 0x8dc0dd8f],
     [0xe330a81a, 0x115b2b19, 0x020bd8ed, 0xf0605bee],
     [0x24aa3f05, 0xd6c1bc06, 0xc5914ff2, 0x37faccf1],
     [0x69e9f0d5, 0x9b8273d6, 0x88d28022, 0x7ab90321],
     [0xae7367ca, 0x5c18e4c9, 0x4f48173d, 0xbd23943e],
     [0xf36e6f75, 0x0105ec76, 0x12551f82, 0xe03e9c81],
     [0x34f4f86a, 0xc69f7b69, 0xd5cf889d, 0x27a40b9e],
     [0x79b737ba, 0x8bdcb4b9, 0x988c474d, 0x6ae7c44e],
     [0xbe2da0a5, 0x4c4623a6, 0x5f16d052, 0xad7d5351]]"

definition crc32c_table :: "u32 list" where
  "crc32c_table = map word_of_int crc32c_ints"

definition crc64_ints :: "int list" where
  "crc64_ints = concat
    [[0x0000000000000000, 0x7ad870c830358979, 0xf5b0e190606b12f2],
     [0x8f689158505e9b8b, 0xc038e5739841b68f, 0xbae095bba8743ff6],
     [0x358804e3f82aa47d, 0x4f50742bc81f2d04, 0xab28ecb46814fe75],
     [0xd1f09c7c5821770c, 0x5e980d24087fec87, 0x24407dec384a65fe],
     [0x6b1009c7f05548fa, 0x11c8790fc060c183, 0x9ea0e857903e5a08],
     [0xe478989fa00bd371, 0x7d08ff3b88be6f81, 0x07d08ff3b88be6f8],
     [0x88b81eabe8d57d73, 0xf2606e63d8e0f40a, 0xbd301a4810ffd90e],
     [0xc7e86a8020ca5077, 0x4880fbd87094cbfc, 0x32588b1040a14285],
     [0xd620138fe0aa91f4, 0xacf86347d09f188d, 0x2390f21f80c18306],
     [0x594882d7b0f40a7f, 0x1618f6fc78eb277b, 0x6cc0863448deae02],
     [0xe3a8176c18803589, 0x997067a428b5bcf0, 0xfa11fe77117cdf02],
     [0x80c98ebf2149567b, 0x0fa11fe77117cdf0, 0x75796f2f41224489],
     [0x3a291b04893d698d, 0x40f16bccb908e0f4, 0xcf99fa94e9567b7f],
     [0xb5418a5cd963f206, 0x513912c379682177, 0x2be1620b495da80e],
     [0xa489f35319033385, 0xde51839b2936bafc, 0x9101f7b0e12997f8],
     [0xebd98778d11c1e81, 0x64b116208142850a, 0x1e6966e8b1770c73],
     [0x8719014c99c2b083, 0xfdc17184a9f739fa, 0x72a9e0dcf9a9a271],
     [0x08719014c99c2b08, 0x4721e43f0183060c, 0x3df994f731b68f75],
     [0xb29105af61e814fe, 0xc849756751dd9d87, 0x2c31edf8f1d64ef6],
     [0x56e99d30c1e3c78f, 0xd9810c6891bd5c04, 0xa3597ca0a188d57d],
     [0xec09088b6997f879, 0x96d1784359a27100, 0x19b9e91b09fcea8b],
     [0x636199d339c963f2, 0xdf7adabd7a6e2d6f, 0xa5a2aa754a5ba416],
     [0x2aca3b2d1a053f9d, 0x50124be52a30b6e4, 0x1f423fcee22f9be0],
     [0x659a4f06d21a1299, 0xeaf2de5e82448912, 0x902aae96b271006b],
     [0x74523609127ad31a, 0x0e8a46c1224f5a63, 0x81e2d7997211c1e8],
     [0xfb3aa75142244891, 0xb46ad37a8a3b6595, 0xceb2a3b2ba0eecec],
     [0x41da32eaea507767, 0x3b024222da65fe1e, 0xa2722586f2d042ee],
     [0xd8aa554ec2e5cb97, 0x57c2c41692bb501c, 0x2d1ab4dea28ed965],
     [0x624ac0f56a91f461, 0x1892b03d5aa47d18, 0x97fa21650afae693],
     [0xed2251ad3acf6fea, 0x095ac9329ac4bc9b, 0x7382b9faaaf135e2],
     [0xfcea28a2faafae69, 0x8632586aca9a2710, 0xc9622c4102850a14],
     [0xb3ba5c8932b0836d, 0x3cd2cdd162ee18e6, 0x460abd1952db919f],
     [0x256b24ca6b12f26d, 0x5fb354025b277b14, 0xd0dbc55a0b79e09f],
     [0xaa03b5923b4c69e6, 0xe553c1b9f35344e2, 0x9f8bb171c366cd9b],
     [0x10e3202993385610, 0x6a3b50e1a30ddf69, 0x8e43c87e03060c18],
     [0xf49bb8b633338561, 0x7bf329ee636d1eea, 0x012b592653589793],
     [0x4e7b2d0d9b47ba97, 0x34a35dc5ab7233ee, 0xbbcbcc9dfb2ca865],
     [0xc113bc55cb19211c, 0x5863dbf1e3ac9dec, 0x22bbab39d3991495],
     [0xadd33a6183c78f1e, 0xd70b4aa9b3f20667, 0x985b3e827bed2b63],
     [0xe2834e4a4bd8a21a, 0x6debdf121b863991, 0x1733afda2bb3b0e8],
     [0xf34b37458bb86399, 0x8993478dbb8deae0, 0x06fbd6d5ebd3716b],
     [0x7c23a61ddbe6f812, 0x3373d23613f9d516, 0x49aba2fe23cc5c6f],
     [0xc6c333a67392c7e4, 0xbc1b436e43a74e9d, 0x95ac9329ac4bc9b5],
     [0xef74e3e19c7e40cc, 0x601c72b9cc20db47, 0x1ac40271fc15523e],
     [0x5594765a340a7f3a, 0x2f4c0692043ff643, 0xa02497ca54616dc8],
     [0xdafce7026454e4b1, 0x3e847f9dc45f37c0, 0x445c0f55f46abeb9],
     [0xcb349e0da4342532, 0xb1eceec59401ac4b, 0xfebc9aee5c1e814f],
     [0x8464ea266c2b0836, 0x0b0c7b7e3c7593bd, 0x71d40bb60c401ac4],
     [0xe8a46c1224f5a634, 0x927c1cda14c02f4d, 0x1d148d82449eb4c6],
     [0x67ccfd4a74ab3dbf, 0x289c8961bcb410bb, 0x5244f9a98c8199c2],
     [0xdd2c68f1dcdf0249, 0xa7f41839ecea8b30, 0x438c80a64ce15841],
     [0x3954f06e7cd4d138, 0xb63c61362c8a4ab3, 0xcce411fe1cbfc3ca],
     [0x83b465d5d4a0eece, 0xf96c151de49567b7, 0x76048445b4cbfc3c],
     [0x0cdcf48d84fe7545, 0x6fbd6d5ebd3716b7, 0x15651d968d029fce],
     [0x9a0d8ccedd5c0445, 0xe0d5fc06ed698d3c, 0xaf85882d2576a038],
     [0xd55df8e515432941, 0x5a3569bd451db2ca, 0x20ed197575283bb3],
     [0xc49581ead523e8c2, 0xbe4df122e51661bb, 0x3125607ab548fa30],
     [0x4bfd10b2857d7349, 0x04ad64994d625e4d, 0x7e7514517d57d734],
     [0xf11d85092d094cbf, 0x8bc5f5c11d3cc5c6, 0x12b5926535897936],
     [0x686de2ad05bcf04f, 0xe70573f555e26bc4, 0x9ddd033d65d7e2bd],
     [0xd28d7716adc8cfb9, 0xa85507de9dfd46c0, 0x273d9686cda3dd4b],
     [0x5de5e64efd965432, 0xb99d7ed15d9d8743, 0xc3450e196da80e3a],
     [0x4c2d9f413df695b1, 0x36f5ef890dc31cc8, 0x79a59ba2c5dc31cc],
     [0x037deb6af5e9b8b5, 0x8c157a32a5b7233e, 0xf6cd0afa9582aa47],
     [0x4ad64994d625e4da, 0x300e395ce6106da3, 0xbf66a804b64ef628],
     [0xc5bed8cc867b7f51, 0x8aeeace74e645255, 0xf036dc2f7e51db2c],
     [0x7f5e4d772e0f40a7, 0x05863dbf1e3ac9de, 0xe1fea520be311aaf],
     [0x9b26d5e88e0493d6, 0x144e44b0de5a085d, 0x6e963478ee6f8124],
     [0x21c640532670ac20, 0x5b1e309b16452559, 0xd476a1c3461bbed2],
     [0xaeaed10b762e37ab, 0x37deb6af5e9b8b5b, 0x4d06c6676eae0222],
     [0xc26e573f3ef099a9, 0xb8b627f70ec510d0, 0xf7e653dcc6da3dd4],
     [0x8d3e2314f6efb4ad, 0x0256b24ca6b12f26, 0x788ec2849684a65f],
     [0x9cf65a1b368f752e, 0xe62e2ad306bafc57, 0x6946bb8b56e467dc],
     [0x139ecb4366d1eea5, 0x5ccebf68aecec3a1, 0x2616cfa09efb4ad8],
     [0xa97e5ef8cea5d153, 0xd3a62e30fe90582a, 0xb0c7b7e3c7593bd8],
     [0xca1fc72bf76cb2a1, 0x45775673a732292a, 0x3faf26bb9707a053],
     [0x70ff52905f188d57, 0x0a2722586f2d042e, 0x854fb3003f739fa5],
     [0xff97c3c80f4616dc, 0x1bef5b57af4dc5ad, 0x61372b9f9f784cd4],
     [0xee5fbac7cf26d75f, 0x9487ca0fff135e26, 0xdbd7be24370c7322],
     [0xa10fceec0739fa5b, 0x2e675fb4576761d0, 0x54bf2f7c6752e8a9],
     [0xcdcf48d84fe75459, 0xb71738107fd2dd20, 0x387fa9482f8c46ab],
     [0x42a7d9801fb9cfd2, 0x0df7adabd7a6e2d6, 0x772fdd63e7936baf],
     [0xf8474c3bb7cdf024, 0x829f3cf387f8795d, 0x66e7a46c27f3aa2c],
     [0x1c3fd4a417c62355, 0x935745fc4798b8de, 0xe98f353477ad31a7],
     [0xa6df411fbfb21ca3, 0xdc0731d78f8795da, 0x536fa08fdfd90e51],
     [0x29b7d047efec8728]]"

definition crctab64 :: "u64 list" where
  "crctab64 = map word_of_int crc64_ints"

section \<open>The checksums\<close>

text \<open>A table access outside its 256 entries would be an error; only the index of \<open>crc7\<close> is not masked.\<close>

definition crc7_byte :: "u8 \<Rightarrow> u8 \<Rightarrow> u8 res" where
  "crc7_byte crc data = rd crc7_syndrome_table (unat (push_bit 1 (ucast crc :: u32) XOR ucast data))"

fun crc7_loop :: "u8 \<Rightarrow> u8 list \<Rightarrow> u8 res" where
  "crc7_loop crc [] = Inr crc"
| "crc7_loop crc (b # buffer) = bindr (crc7_byte crc b) (\<lambda>crc. crc7_loop crc buffer)"

definition fio_crc7 :: "u8 list \<Rightarrow> u8 res" where
  "fio_crc7 buffer = crc7_loop 0 buffer"

definition crc16_byte :: "u16 \<Rightarrow> u8 \<Rightarrow> u16" where
  "crc16_byte crc data = drop_bit 8 crc XOR crc16_table ! unat ((crc XOR ucast data) AND 0xff)"

definition fio_crc16 :: "u8 list \<Rightarrow> u16" where
  "fio_crc16 buffer = fold (\<lambda>b crc. crc16_byte crc b) buffer 0"

definition fio_crc32 :: "u8 list \<Rightarrow> u32" where
  "fio_crc32 buffer =
    fold (\<lambda>b crc. push_bit 8 crc XOR crctab ! unat ((drop_bit 24 crc XOR ucast b) AND 0xFF)) buffer 0"

definition crc32c_sw_step :: "u8 \<Rightarrow> u32 \<Rightarrow> u32" where
  "crc32c_sw_step b crc = crc32c_table ! unat ((crc XOR ucast b) AND 0xFF) XOR drop_bit 8 crc"

definition crc32c_sw :: "u8 list \<Rightarrow> u32" where
  "crc32c_sw data = fold crc32c_sw_step data (NOT 0)"

definition fio_crc64 :: "u8 list \<Rightarrow> u64" where
  "fio_crc64 buffer = fold (\<lambda>b crc. crctab64 ! unat ((crc XOR ucast b) AND 0xff) XOR drop_bit 8 crc) buffer 0"

text \<open>
  The variant for SSE 4.2.  The two forms of the CRC32 instruction, over a byte and over eight
  bytes of memory, are arguments; the quotient and the remainder are \<open>unsigned int\<close>s.
\<close>

primrec crc32c_intel_quads :: "(u32 \<Rightarrow> u64 \<Rightarrow> u32) \<Rightarrow> nat \<Rightarrow> u32 \<Rightarrow> u8 list \<Rightarrow> u32 \<times> u8 list" where
  "crc32c_intel_quads crc32q 0 crc ptmp = (crc, ptmp)"
| "crc32c_intel_quads crc32q (Suc n) crc ptmp = crc32c_intel_quads crc32q n (crc32q crc (load_le64 ptmp 0)) (drop 8 ptmp)"

definition crc32c_intel_le_hw_byte :: "(u32 \<Rightarrow> u8 \<Rightarrow> u32) \<Rightarrow> u32 \<Rightarrow> u8 list \<Rightarrow> u32" where
  "crc32c_intel_le_hw_byte crc32b crc data = fold (\<lambda>b crc. crc32b crc b) data crc"

definition crc32c_intel :: "(u32 \<Rightarrow> u8 \<Rightarrow> u32) \<Rightarrow> (u32 \<Rightarrow> u64 \<Rightarrow> u32) \<Rightarrow> u8 list \<Rightarrow> u32" where
  "crc32c_intel crc32b crc32q data =
    (let iquotient = of_nat (length data div 8) :: u32;
         iremainder = of_nat (length data mod 8) :: u32;
         (crc, ptmp) = crc32c_intel_quads crc32q (unat iquotient) (NOT 0) data
     in if iremainder \<noteq> 0 then crc32c_intel_le_hw_byte crc32b crc (take (unat iremainder) ptmp) else crc)"

text \<open>The choice of the variant on x86-64, where \<open>crc32c_arm64\<close> is a macro for \<open>crc32c_sw\<close>.\<close>

definition fio_crc32c :: "bool \<Rightarrow> bool \<Rightarrow> (u32 \<Rightarrow> u8 \<Rightarrow> u32) \<Rightarrow> (u32 \<Rightarrow> u64 \<Rightarrow> u32) \<Rightarrow> u8 list \<Rightarrow> u32" where
  "fio_crc32c arm64_available intel_available crc32b crc32q buf =
    (if arm64_available then crc32c_sw buf
     else if intel_available then crc32c_intel crc32b crc32q buf
     else crc32c_sw buf)"

section \<open>Bit-serial division\<close>

text \<open>One bit, low bit first, for the reflected polynomials; and high bit first for the others.\<close>

definition rstep :: "'a::len word \<Rightarrow> 'a word \<Rightarrow> 'a word" where
  "rstep P c = (if bit c 0 then drop_bit 1 c XOR P else drop_bit 1 c)"

definition mstep :: "'a::len word \<Rightarrow> 'a word \<Rightarrow> 'a word" where
  "mstep P c = (if bit c (LENGTH('a) - 1) then push_bit 1 c XOR P else push_bit 1 c)"

section \<open>Linear tables\<close>

text \<open>The table of a linear function is determined by its values at the powers of two.\<close>

definition lin_table :: "int list \<Rightarrow> int list" where
  "lin_table bs = fold (\<lambda>t xs. xs @ map (\<lambda>x. x XOR t) xs) bs [0]"

lemma lin_table_snoc: "lin_table (bs @ [t]) = lin_table bs @ map (\<lambda>x. x XOR t) (lin_table bs)"
  by (simp add: lin_table_def)

lemma length_lin_table [simp]: "length (lin_table bs) = 2 ^ length bs"
  by (induction bs rule: rev_induct) (simp_all add: lin_table_snoc, simp add: lin_table_def)

definition xlinear :: "('a::len word \<Rightarrow> 'b::len word) \<Rightarrow> bool" where
  "xlinear f \<longleftrightarrow> (\<forall>x y. f (x XOR y) = f x XOR f y)"

lemma xlinear_xor: "xlinear f \<Longrightarrow> f (x XOR y) = f x XOR f y"
  by (simp add: xlinear_def)

lemma xlinear_0: "xlinear f \<Longrightarrow> f 0 = 0"
  using xlinear_xor [of f 0 0] by simp

lemma xlinear_funpow: "xlinear f \<Longrightarrow> xlinear (f ^^ n)" for f :: "'a::len word \<Rightarrow> 'a word"
  by (induction n) (simp_all add: xlinear_def)

lemma of_nat_add_exp:
  assumes "j < 2 ^ k"
  shows "of_nat (j + 2 ^ k) = (of_nat j XOR 2 ^ k :: 'a::len word)"
proof -
  have "(of_nat j AND 2 ^ k :: 'a word) = 0"
    using assms unfolding word_eq_bits
    by (auto simp: bit_simps bit_nat_def exp_eq_0_imp_not_bit)
  then show ?thesis by (simp add: disjunctive_add_eq_xor)
qed

lemma word_of_int_xor: "word_of_int (a XOR b) = (word_of_int a XOR word_of_int b :: 'a::len word)"
  unfolding word_eq_bits by (auto simp: bit_simps)

lemma lin_table_nth:
  assumes "xlinear f" "\<And>k. k < length bs \<Longrightarrow> word_of_int (bs ! k) = f (2 ^ k)" "i < 2 ^ length bs"
  shows "word_of_int (lin_table bs ! i) = f (of_nat i)"
  using assms(2,3)
proof (induction bs arbitrary: i rule: rev_induct)
  case Nil
  then show ?case using xlinear_0 [OF assms(1)] by (simp add: lin_table_def)
next
  case (snoc t bs)
  let ?n = "2 ^ length bs :: nat"
  have IH: "word_of_int (lin_table bs ! i) = f (of_nat i)" if "i < ?n" for i
  proof (rule snoc.IH [OF _ that])
    show "word_of_int (bs ! k) = f (2 ^ k)" if "k < length bs" for k
      using snoc.prems(1) [of k] that by (simp add: nth_append)
  qed
  have t: "word_of_int t = f (2 ^ length bs)" using snoc.prems(1) [of "length bs"] by simp
  show ?case
  proof (cases "i < ?n")
    case True
    then show ?thesis using IH by (simp add: lin_table_snoc nth_append)
  next
    case False
    define j where "j = i - ?n"
    have j: "j < ?n" "i = j + ?n" using False snoc.prems(2) by (simp_all add: j_def)
    have "f (of_nat i) = f (of_nat j) XOR f (2 ^ length bs)"
      using of_nat_add_exp [OF j(1)] j(2) xlinear_xor [OF assms(1)] by metis
    moreover have "lin_table (bs @ [t]) ! i = lin_table bs ! j XOR t"
      using j by (simp add: lin_table_snoc nth_append)
    ultimately show ?thesis using IH [OF j(1)] t by (simp add: word_of_int_xor)
  qed
qed

lemma crc7_lin: "crc7_ints = lin_table [0x9, 0x12, 0x24, 0x48, 0x19, 0x32, 0x64, 0x41]"
  by code_simp

lemma crc16_lin: "crc16_ints = lin_table [0xc0c1, 0xc181, 0xc301, 0xc601, 0xcc01, 0xd801, 0xf001, 0xa001]"
  by code_simp

lemma crc32_lin: "crc32_ints = lin_table [0x4c11db7, 0x9823b6e, 0x130476dc, 0x2608edb8, 0x4c11db70, 0x9823b6e0, 0x34867077, 0x690ce0ee]"
  by code_simp

lemma crc32c_lin: "crc32c_ints = lin_table [0xf26b8303, 0xe13b70f7, 0xc79a971f, 0x8ad958cf, 0x105ec76f, 0x20bd8ede, 0x417b1dbc, 0x82f63b78]"
  by code_simp

lemma crc64_lin: "crc64_ints = lin_table [0x7ad870c830358979, 0xf5b0e190606b12f2, 0xc038e5739841b68f, 0xab28ecb46814fe75, 0x7d08ff3b88be6f81, 0xfa11fe77117cdf02, 0xdf7adabd7a6e2d6f, 0x95ac9329ac4bc9b5]"
  by code_simp

section \<open>Bytes at a time\<close>

lemma xlinear_rstep: "xlinear (rstep P)"
  unfolding xlinear_def rstep_def word_eq_bits by (auto simp: bit_simps)

lemma xlinear_mstep: "xlinear (mstep P)"
  unfolding xlinear_def mstep_def word_eq_bits by (auto simp: bit_simps)

lemma rstep_low_zero: "take_bit n w = 0 \<Longrightarrow> (rstep P ^^ n) w = drop_bit n w"
proof (induction n arbitrary: w)
  case (Suc n)
  have b: "\<not> bit w 0" using Suc.prems by (metis bit_take_bit_iff bit_0_eq bot_apply bot_bool_def zero_less_Suc)
  have "take_bit n (drop_bit 1 w) = drop_bit 1 (take_bit (Suc n) w)"
    unfolding word_eq_bits by (auto simp: bit_simps)
  then have "take_bit n (drop_bit 1 w) = 0" using Suc.prems by simp
  moreover have "rstep P w = drop_bit 1 w" using b by (simp add: rstep_def)
  ultimately have "(rstep P ^^ n) (rstep P w) = drop_bit n (drop_bit 1 w)" using Suc.IH by metis
  then show ?case by (simp only: funpow_Suc_right comp_apply drop_bit_drop_bit) simp
qed simp

lemma rstep_byte: "(rstep P ^^ 8) x = (rstep P ^^ 8) (x AND 0xff) XOR drop_bit 8 x" for x P :: "'a::len word"
proof -
  have m: "(0xff :: 'a word) = mask 8" by (simp add: mask_numeral)
  have x: "x = (x AND mask 8) XOR (x AND NOT (mask 8))"
    unfolding word_eq_bits by (auto simp: bit_simps)
  have "take_bit 8 (x AND NOT (mask 8)) = 0"
    unfolding word_eq_bits by (auto simp: bit_simps)
  then have "(rstep P ^^ 8) (x AND NOT (mask 8)) = drop_bit 8 (x AND NOT (mask 8))"
    by (rule rstep_low_zero)
  also have "\<dots> = drop_bit 8 x"
    unfolding word_eq_bits by (auto simp: bit_simps dest: bit_imp_le_length)
  finally show ?thesis
    using xlinear_xor [OF xlinear_funpow [OF xlinear_rstep [of P], of 8], of "x AND mask 8" "x AND NOT (mask 8)"] x m by simp
qed

lemma mstep_high_zero:
  fixes w P :: "'a::len word"
  shows "(\<And>i. LENGTH('a) \<le> i + n \<Longrightarrow> \<not> bit w i) \<Longrightarrow> n \<le> LENGTH('a) \<Longrightarrow> (mstep P ^^ n) w = push_bit n w"
proof (induction n arbitrary: w)
  case (Suc n)
  have b: "\<not> bit w (LENGTH('a) - 1)" using Suc.prems(2) by (intro Suc.prems(1)) simp
  have "\<not> bit (push_bit 1 w) i" if "LENGTH('a) \<le> i + n" for i
    using Suc.prems(1) [of "i - 1"] Suc.prems(2) that unfolding bit_push_bit_iff by auto
  moreover have "mstep P w = push_bit 1 w" using b by (simp add: mstep_def)
  ultimately have "(mstep P ^^ n) (mstep P w) = push_bit n (push_bit 1 w)"
    using Suc.IH [of "push_bit 1 w"] Suc.prems(2) by (metis Suc_leD)
  then show ?case by (simp only: funpow_Suc_right comp_apply push_bit_push_bit) simp
qed simp

lemma mstep_byte:
  fixes x P :: "'a::len word"
  assumes "8 \<le> LENGTH('a)"
  shows "(mstep P ^^ 8) x = (mstep P ^^ 8) (push_bit (LENGTH('a) - 8) (drop_bit (LENGTH('a) - 8) x)) XOR push_bit 8 x"
proof -
  let ?n = "LENGTH('a) - 8"
  have x: "x = push_bit ?n (drop_bit ?n x) XOR take_bit ?n x"
    unfolding word_eq_bits by (auto simp: bit_simps)
  have "(mstep P ^^ 8) (take_bit ?n x) = push_bit 8 (take_bit ?n x)"
    using assms by (intro mstep_high_zero) (auto simp: bit_simps)
  also have "\<dots> = push_bit 8 x"
    unfolding word_eq_bits by (auto simp: bit_simps)
  finally show ?thesis
    using xlinear_xor [OF xlinear_funpow [OF xlinear_mstep [of P], of 8], of "push_bit ?n (drop_bit ?n x)" "take_bit ?n x"] x by simp
qed

section \<open>The tables are those of the division\<close>

text \<open>The checksums, defined by the division, over the bytes of the input.\<close>

definition rcrc :: "'a::len word \<Rightarrow> 'a word \<Rightarrow> u8 list \<Rightarrow> 'a word" where
  "rcrc P c data = fold (\<lambda>b c. (rstep P ^^ 8) (c XOR ucast b)) data c"

definition mcrc :: "'a::len word \<Rightarrow> 'a word \<Rightarrow> u8 list \<Rightarrow> 'a word" where
  "mcrc P c data = fold (\<lambda>b c. (mstep P ^^ 8) (c XOR push_bit (LENGTH('a) - 8) (ucast b))) data c"

lemma table_nth:
  assumes "tab = map word_of_int (lin_table bs)" "xlinear f" "length bs = 8"
    "map word_of_int bs = map (\<lambda>k. f (2 ^ k)) [0..<8]" "i < 256"
  shows "tab ! i = f (of_nat i)"
proof -
  have "word_of_int (bs ! k) = f (2 ^ k)" if "k < length bs" for k
    using arg_cong [OF assms(4), of "\<lambda>xs. xs ! k"] that assms(3) by (simp add: nth_append)
  then show ?thesis using assms(1,3,5) lin_table_nth [OF assms(2), of bs i] by simp
qed

text \<open>The values at the powers of two are computed with integers.\<close>

definition istep :: "int \<Rightarrow> int \<Rightarrow> int" where
  "istep P k = (if odd k then (k div 2) XOR P else k div 2)"

definition imstep :: "int \<Rightarrow> int \<Rightarrow> int \<Rightarrow> int" where
  "imstep W P k = (if 2 * k \<ge> W then (2 * k - W) XOR P else 2 * k)"

lemma uint_push: "uint (push_bit n c) = uint c * 2 ^ n mod 2 ^ LENGTH('a)" for c :: "'a::len word"
  unfolding unsigned_push_bit_eq by (simp only: push_bit_eq_mult take_bit_eq_mod)

lemma uint_drop_1: "uint (drop_bit 1 c) = uint c div 2"
proof -
  have "int (unat (drop_bit 1 c)) = int (unat c div 2 ^ 1)" by (simp only: unat_drop_bit)
  then show ?thesis by (simp only: of_nat_unat power_one_right zdiv_int) simp
qed

lemma uint_rstep: "uint (rstep P c) = istep (uint P) (uint c)"
proof -
  have "bit c 0 \<longleftrightarrow> odd (uint c)" by (metis bit_0 bit_uint_iff len_gt_0)
  then show ?thesis by (simp only: rstep_def istep_def uint_xor if_distrib [of uint] uint_drop_1)
qed

lemma uint_mstep: "uint (mstep P c) = imstep (2 ^ LENGTH('a)) (uint P) (uint c)" for P c :: "'a::len word"
proof -
  let ?L = "LENGTH('a)"
  have u: "uint c < 2 ^ ?L" "0 \<le> uint c" by simp_all
  have two: "2 * (2 :: int) ^ (?L - 1) = 2 ^ ?L" by (metis len_gt_0 power_eq_if less_irrefl)
  have "bit c (?L - 1) \<longleftrightarrow> drop_bit (?L - 1) c \<noteq> 0" by (simp add: drop_bit_eq_zero_iff_not_bit_last)
  also have "\<dots> \<longleftrightarrow> unat c \<ge> 2 ^ (?L - 1)"
    by (simp only: word_unat_eq_iff unat_drop_bit unat_0) (simp add: div_eq_0_iff not_less)
  also have "\<dots> \<longleftrightarrow> int (unat c) \<ge> int (2 ^ (?L - 1))" by (simp only: of_nat_le_iff)
  finally have "bit c (?L - 1) \<longleftrightarrow> uint c \<ge> 2 ^ (?L - 1)" by simp
  then have b: "bit c (?L - 1) \<longleftrightarrow> 2 * uint c \<ge> 2 ^ ?L" using two by linarith
  have s: "uint (push_bit 1 c) = (2 * uint c) mod 2 ^ ?L"
    by (simp only: uint_push power_one_right mult.commute)
  have "(2 * uint c) mod 2 ^ ?L = (if 2 * uint c \<ge> 2 ^ ?L then 2 * uint c - 2 ^ ?L else 2 * uint c)"
  proof (cases "2 * uint c \<ge> 2 ^ ?L")
    case True
    then have "(2 * uint c) mod 2 ^ ?L = (2 * uint c - 2 ^ ?L) mod 2 ^ ?L" by (intro mod_pos_geq) simp_all
    also have "\<dots> = 2 * uint c - 2 ^ ?L" using True u by (intro mod_pos_pos_trivial) linarith+
    finally show ?thesis using True by simp
  next
    case False
    with u show ?thesis by (simp add: mod_pos_pos_trivial)
  qed
  with s b show ?thesis by (simp add: mstep_def imstep_def uint_xor)
qed

lemma uint_rsteps: "uint ((rstep P ^^ n) c) = (istep (uint P) ^^ n) (uint c)"
  by (induction n) (simp_all add: uint_rstep)

lemma uint_msteps: "uint ((mstep P ^^ n) c) = (imstep (2 ^ LENGTH('a)) (uint P) ^^ n) (uint c)" for P c :: "'a::len word"
  by (induction n) (simp_all add: uint_mstep)

lemma basis_word:
  fixes f :: "'a::len word \<Rightarrow> 'b::len word"
  assumes "\<And>c. uint (f c) = g (uint c)" "8 \<le> LENGTH('a)" "bs = map (\<lambda>k. g (2 ^ k)) [0..<8]"
  shows "map word_of_int bs = map (\<lambda>k. f (2 ^ k)) [0..<8]"
proof -
  have "word_of_int (g (2 ^ k)) = f (2 ^ k)" if "k < 8" for k
  proof -
    have "k < LENGTH('a)" using that assms(2) by linarith
    then have "uint (2 ^ k :: 'a word) = 2 ^ k" by (intro uint_2p) (simp add: word_gt_0)
    then show ?thesis using assms(1) [of "2 ^ k"] by (metis word_of_int_uint)
  qed
  then show ?thesis by (simp only: assms(3) map_map comp_apply) simp
qed

lemma crc16_table_nth: "i < 256 \<Longrightarrow> crc16_table ! i = (rstep 0xA001 ^^ 8) (of_nat i)"
proof (rule table_nth [OF crc16_table_def [unfolded crc16_lin] xlinear_funpow [OF xlinear_rstep]])
  show "map word_of_int [0xc0c1, 0xc181, 0xc301, 0xc601, 0xcc01, 0xd801, 0xf001, 0xa001] = map (\<lambda>k. (rstep 0xA001 ^^ 8) (2 ^ k :: u16)) [0..<8]"
    by (rule basis_word [where g = "istep 0xA001 ^^ 8"]) (simp add: uint_rsteps, simp, code_simp)
qed simp_all

lemma crc32c_table_nth: "i < 256 \<Longrightarrow> crc32c_table ! i = (rstep 0x82F63B78 ^^ 8) (of_nat i)"
proof (rule table_nth [OF crc32c_table_def [unfolded crc32c_lin] xlinear_funpow [OF xlinear_rstep]])
  show "map word_of_int [0xf26b8303, 0xe13b70f7, 0xc79a971f, 0x8ad958cf, 0x105ec76f, 0x20bd8ede, 0x417b1dbc, 0x82f63b78] = map (\<lambda>k. (rstep 0x82F63B78 ^^ 8) (2 ^ k :: u32)) [0..<8]"
    by (rule basis_word [where g = "istep 0x82F63B78 ^^ 8"]) (simp add: uint_rsteps, simp, code_simp)
qed simp_all

lemma crctab64_nth: "i < 256 \<Longrightarrow> crctab64 ! i = (rstep 0x95AC9329AC4BC9B5 ^^ 8) (of_nat i)"
proof (rule table_nth [OF crctab64_def [unfolded crc64_lin] xlinear_funpow [OF xlinear_rstep]])
  show "map word_of_int [0x7ad870c830358979, 0xf5b0e190606b12f2, 0xc038e5739841b68f, 0xab28ecb46814fe75, 0x7d08ff3b88be6f81, 0xfa11fe77117cdf02, 0xdf7adabd7a6e2d6f, 0x95ac9329ac4bc9b5] = map (\<lambda>k. (rstep 0x95AC9329AC4BC9B5 ^^ 8) (2 ^ k :: u64)) [0..<8]"
    by (rule basis_word [where g = "istep 0x95AC9329AC4BC9B5 ^^ 8"]) (simp add: uint_rsteps, simp, code_simp)
qed simp_all

lemma crctab_nth: "i < 256 \<Longrightarrow> crctab ! i = (mstep 0x04C11DB7 ^^ 8) (push_bit 24 (of_nat i))"
proof (rule table_nth [OF crctab_def [unfolded crc32_lin], where f = "\<lambda>x. (mstep 0x04C11DB7 ^^ 8) (push_bit 24 x)"])
  have "push_bit 24 (x XOR y) = push_bit 24 x XOR push_bit 24 y" for x y :: u32
    unfolding word_eq_bits by (auto simp: bit_simps)
  then show "xlinear (\<lambda>x. (mstep 0x04C11DB7 ^^ 8) (push_bit 24 x :: u32))"
    unfolding xlinear_def by (simp only: xlinear_xor [OF xlinear_funpow [OF xlinear_mstep]]) simp
  show "map word_of_int [0x4c11db7, 0x9823b6e, 0x130476dc, 0x2608edb8, 0x4c11db70, 0x9823b6e0, 0x34867077, 0x690ce0ee] = map (\<lambda>k. (mstep 0x04C11DB7 ^^ 8) (push_bit 24 (2 ^ k :: u32))) [0..<8]"
    by (intro basis_word [where g = "\<lambda>u. (imstep (2 ^ 32) 0x04C11DB7 ^^ 8) (u * 2 ^ 24 mod 2 ^ 32)"])
      (simp only: uint_msteps uint_push, simp, simp, code_simp)
qed simp_all

lemma crc7_syndrome_table_nth: "i < 256 \<Longrightarrow> crc7_syndrome_table ! i = drop_bit 1 ((mstep 0x12 ^^ 8) (of_nat i))"
proof (rule table_nth [OF crc7_syndrome_table_def [unfolded crc7_lin], where f = "\<lambda>x. drop_bit 1 ((mstep 0x12 ^^ 8) x)"])
  have "drop_bit 1 (x XOR y) = drop_bit 1 x XOR drop_bit 1 y" for x y :: u8
    unfolding word_eq_bits by (auto simp: bit_simps)
  then show "xlinear (\<lambda>x. drop_bit 1 ((mstep 0x12 ^^ 8) x :: u8))"
    unfolding xlinear_def by (simp only: xlinear_xor [OF xlinear_funpow [OF xlinear_mstep]]) simp
  show "map word_of_int [0x9, 0x12, 0x24, 0x48, 0x19, 0x32, 0x64, 0x41] = map (\<lambda>k. drop_bit 1 ((mstep 0x12 ^^ 8) (2 ^ k :: u8))) [0..<8]"
    by (intro basis_word [where g = "\<lambda>u. (imstep (2 ^ 8) 0x12 ^^ 8) u div 2"])
      (simp only: uint_drop_1 uint_msteps, simp, simp, code_simp)
qed simp_all

lemma unat_and_255_less: "unat (w AND 0xff) < 256" for w :: "'a::len word"
  using unat_and_mask [of w 8] by (simp add: mask_numeral)

lemma drop_xor_ucast: "drop_bit 8 (c XOR ucast b) = drop_bit 8 c" for c :: "'a::len word" and b :: u8
  unfolding word_eq_bits by (auto simp: bit_simps dest: bit_imp_le_length)

lemma crc16_byte_serial: "crc16_byte c b = (rstep 0xA001 ^^ 8) (c XOR ucast b)"
  by (simp only: crc16_byte_def crc16_table_nth unat_and_255_less
      rstep_byte [of _ "c XOR ucast b"] drop_xor_ucast) (simp add: xor.commute)

lemma crc32c_sw_step_serial: "crc32c_sw_step b c = (rstep 0x82F63B78 ^^ 8) (c XOR ucast b)"
  by (simp only: crc32c_sw_step_def crc32c_table_nth unat_and_255_less
      rstep_byte [of _ "c XOR ucast b"] drop_xor_ucast) simp

lemma crc64_step_serial:
  "crctab64 ! unat ((c XOR ucast b) AND 0xff) XOR drop_bit 8 c = (rstep 0x95AC9329AC4BC9B5 ^^ 8) (c XOR ucast b)"
  for b :: u8
  by (simp only: crctab64_nth unat_and_255_less rstep_byte [of _ "c XOR ucast b"] drop_xor_ucast) simp

lemma crc32_step_serial:
  "push_bit 8 c XOR crctab ! unat ((drop_bit 24 c XOR ucast b) AND 0xFF) =
     (mstep 0x04C11DB7 ^^ 8) (c XOR push_bit 24 (ucast b))" for c :: u32 and b :: u8
proof -
  have "drop_bit 24 (c XOR push_bit 24 (ucast b)) = (drop_bit 24 c XOR ucast b) AND 0xFF"
  proof -
    have "(0xFF :: u32) = mask 8" by (simp add: mask_numeral)
    then show ?thesis unfolding word_eq_bits by (auto simp: bit_simps dest: bit_imp_le_length)
  qed
  moreover have "push_bit 8 (c XOR push_bit 24 (ucast b)) = push_bit 8 c"
    unfolding word_eq_bits by (auto simp: bit_simps)
  ultimately show ?thesis
    using mstep_byte [where P = "0x04C11DB7 :: u32" and x = "c XOR push_bit 24 (ucast b)"]
    by (simp only: crctab_nth unat_and_255_less) (simp add: xor.commute)
qed

text \<open>The state of \<open>crc7\<close> has seven bits, so that the index stays inside the table.\<close>

lemma length_crc7_table: "length crc7_syndrome_table = 256"
  by (simp add: crc7_syndrome_table_def crc7_lin)

lemma crc7_byte_serial:
  assumes "\<not> bit s 0"
  shows "crc7_byte (drop_bit 1 s) b = Inr (drop_bit 1 ((mstep 0x12 ^^ 8) (s XOR b)))"
proof -
  have "push_bit 1 (ucast (drop_bit 1 s)) = (ucast s :: u32)"
  proof (rule bit_word_eqI)
    fix n
    assume "n < LENGTH(32)"
    then show "bit (push_bit 1 (ucast (drop_bit 1 s) :: u32)) n = bit (ucast s :: u32) n"
      using assms unfolding bit_push_bit_iff by (cases n) (auto simp: bit_unsigned_iff bit_drop_bit_eq)
  qed
  then have "push_bit 1 (ucast (drop_bit 1 s) :: u32) XOR ucast b = ucast (s XOR b)"
    by (simp add: unsigned_xor_eq)
  moreover have u: "unat (s XOR b) < 256" using unsigned_less [of "s XOR b"] by simp
  ultimately have "unat (push_bit 1 (ucast (drop_bit 1 s) :: u32) XOR ucast b) = unat (s XOR b)"
    by (simp only: unat_ucast) simp
  with u show ?thesis
    using rd_in [of "unat (s XOR b)" crc7_syndrome_table] length_crc7_table
    unfolding crc7_byte_def by (simp only: crc7_syndrome_table_nth) simp
qed

section \<open>The CRC32 instruction\<close>

text \<open>
  The instruction takes the bits of its operand from the lowest on and divides by the CRC-32C
  polynomial.
\<close>

primrec crc32_bits :: "u32 \<Rightarrow> nat \<Rightarrow> u32 \<Rightarrow> u64 \<Rightarrow> u32" where
  "crc32_bits P 0 c s = c"
| "crc32_bits P (Suc n) c s =
    crc32_bits P n (if bit c 0 \<noteq> bit s 0 then drop_bit 1 c XOR P else drop_bit 1 c) (drop_bit 1 s)"

lemma crc32_bits_add: "crc32_bits P (m + n) c s = crc32_bits P n (crc32_bits P m c s) (drop_bit m s)"
  by (induction m arbitrary: c s) (simp_all add: drop_bit_Suc)

lemma crc32_bits_rsteps: "n \<le> 32 \<Longrightarrow> crc32_bits P n c s = (rstep P ^^ n) (c XOR ucast (take_bit n s))"
proof (induction n arbitrary: c s)
  case (Suc n)
  let ?x = "c XOR ucast (take_bit (Suc n) s)"
  let ?c = "if bit c 0 \<noteq> bit s 0 then drop_bit 1 c XOR P else drop_bit 1 c"
  have b: "bit ?x 0 \<longleftrightarrow> bit c 0 \<noteq> bit s 0" by (simp only: bit_xor_iff bit_unsigned_iff bit_take_bit_iff) simp
  have "drop_bit 1 ?x = drop_bit 1 c XOR ucast (take_bit n (drop_bit 1 s))"
    using Suc.prems unfolding word_eq_bits by (auto simp: bit_simps)
  then have "rstep P ?x = ?c XOR ucast (take_bit n (drop_bit 1 s))"
    unfolding rstep_def b by (simp add: ac_simps)
  then show ?case
    using Suc by (simp only: crc32_bits.simps funpow_Suc_right comp_apply)
qed simp

abbreviation crc32c_poly :: u32 where "crc32c_poly \<equiv> 0x82F63B78"

lemma bit_u8_ge: "8 \<le> m \<Longrightarrow> \<not> bit b m" for b :: u8
  by (auto dest: bit_imp_le_length)

lemma bit_load_le32:
  assumes "n < 4" "j < 8"
  shows "bit (load_le32 p i) (8 * n + j) = bit (p ! (i + n)) j"
proof -
  consider "n = 0" | "n = 1" | "n = 2" | "n = 3" using assms(1) by linarith
  then show ?thesis
    by cases (use assms(2) in \<open>simp_all add: load_le32_def bit_or_iff bit_push_bit_iff bit_unsigned_iff bit_u8_ge\<close>)
qed

lemma bit_load_le64:
  assumes "n < 8" "j < 8"
  shows "bit (load_le64 p i) (8 * n + j) = bit (p ! (i + n)) j"
proof (cases "n < 4")
  case True
  then show ?thesis
    using bit_load_le32 [OF True assms(2), of p i] assms(2)
    by (simp add: load_le64_def bit_or_iff bit_push_bit_iff bit_unsigned_iff)
next
  case False
  define k where "k = n - 4"
  have k: "k < 4" "n = k + 4" using False assms(1) by (simp_all add: k_def)
  have "\<not> bit (load_le32 p i) (8 * n + j)" using False by (auto dest: bit_imp_le_length)
  then show ?thesis
    using bit_load_le32 [OF k(1) assms(2), of p "i + 4"] assms(2) k
    by (simp add: load_le64_def bit_or_iff bit_push_bit_iff bit_unsigned_iff add.assoc add.commute [of 4])
qed

lemma load_le64_byte:
  assumes "n < 8"
  shows "take_bit 8 (drop_bit (8 * n) (load_le64 p i)) = ucast (p ! (i + n))"
proof (rule bit_word_eqI)
  fix j
  show "bit (take_bit 8 (drop_bit (8 * n) (load_le64 p i))) j = bit (ucast (p ! (i + n)) :: u64) j"
    using bit_load_le64 [OF assms, of j p i]
    by (cases "j < 8") (auto simp: bit_take_bit_iff bit_drop_bit_eq bit_unsigned_iff bit_u8_ge dest: bit_imp_le_length)
qed

lemma crc32_quad_bytes:
  assumes "8 \<le> length p" "n \<le> 8"
  shows "crc32_bits P (8 * n) c (load_le64 p 0) = rcrc P c (take n p)"
  using assms(2)
proof (induction n)
  case (Suc n)
  have n: "n < 8" "n < length p" using Suc.prems assms(1) by simp_all
  have "8 * Suc n = 8 * n + 8" by simp
  then have "crc32_bits P (8 * Suc n) c (load_le64 p 0) =
      (rstep P ^^ 8) (crc32_bits P (8 * n) c (load_le64 p 0) XOR ucast (take_bit 8 (drop_bit (8 * n) (load_le64 p 0))))"
    by (simp only: crc32_bits_add) (rule crc32_bits_rsteps, simp)
  also have "ucast (take_bit 8 (drop_bit (8 * n) (load_le64 p 0))) = (ucast (p ! n) :: u32)"
    unfolding load_le64_byte [OF n(1)] word_eq_bits by (auto simp: bit_simps)
  finally show ?case using Suc n by (simp add: rcrc_def take_Suc_conv_app_nth)
qed (simp add: rcrc_def)

lemma crc32_byte_serial: "crc32_bits P 8 c (ucast b) = (rstep P ^^ 8) (c XOR ucast b)" for b :: u8
proof -
  have "ucast (take_bit 8 (ucast b :: u64)) = (ucast b :: u32)"
    unfolding word_eq_bits by (auto simp: bit_simps dest: bit_imp_le_length)
  then show ?thesis by (simp add: crc32_bits_rsteps)
qed

lemma crc32c_intel_quads_serial:
  assumes "\<And>c q. crc32q c q = crc32_bits P 64 c q"
  shows "8 * n \<le> length data \<Longrightarrow> crc32c_intel_quads crc32q n c data = (rcrc P c (take (8 * n) data), drop (8 * n) data)"
proof (induction n arbitrary: c data)
  case (Suc n)
  then have len: "8 \<le> length data" "8 * n \<le> length (drop 8 data)" by simp_all
  have "crc32q c (load_le64 data 0) = rcrc P c (take 8 data)"
    using crc32_quad_bytes [OF len(1), of 8 P c] by (simp add: assms)
  then have "crc32c_intel_quads crc32q (Suc n) c data =
      (rcrc P (rcrc P c (take 8 data)) (take (8 * n) (drop 8 data)), drop (8 * n) (drop 8 data))"
    using Suc.IH [OF len(2)] by simp
  moreover have "take (8 * Suc n) data = take 8 data @ take (8 * n) (drop 8 data)"
    by (metis mult_Suc_right take_add)
  ultimately show ?case by (simp add: rcrc_def add.commute)
qed (simp add: rcrc_def)

lemma crc32c_sw_serial: "crc32c_sw data = rcrc crc32c_poly (NOT 0) data"
  unfolding crc32c_sw_def rcrc_def by (rule fold_cong) (simp_all add: fun_eq_iff crc32c_sw_step_serial)

lemma rcrc_append: "rcrc P c (xs @ ys) = rcrc P (rcrc P c xs) ys"
  by (simp add: rcrc_def)

section \<open>Bursts\<close>

lemma inj_rstep:
  fixes P :: "'a::len word"
  assumes "bit P (LENGTH('a) - 1)"
  shows "inj (rstep P)"
proof -
  have top: "bit (rstep P c) (LENGTH('a) - 1) \<longleftrightarrow> bit c 0" for c
    using assms unfolding rstep_def by (auto simp: bit_xor_iff bit_drop_bit_eq dest: bit_imp_le_length)
  have drop: "drop_bit 1 c = (if bit c 0 then rstep P c XOR P else rstep P c)" for c
    by (simp add: rstep_def xor.assoc)
  show ?thesis
  proof (rule injI)
    fix x y
    assume eq: "rstep P x = rstep P y"
    then have 0: "bit x 0 \<longleftrightarrow> bit y 0" using top by metis
    then have d: "drop_bit 1 x = drop_bit 1 y" using drop [of x] drop [of y] eq by simp
    show "x = y"
    proof (rule bit_word_eqI)
      fix n
      show "bit x n = bit y n"
        using 0 arg_cong [OF d, of "\<lambda>w. bit w (n - 1)"] by (cases n) (simp_all add: bit_drop_bit_eq)
    qed
  qed
qed

lemma inj_rsteps: "bit P (LENGTH('a) - 1) \<Longrightarrow> inj (rstep P ^^ n)" for P :: "'a::len word"
  by (rule inj_fn) (rule inj_rstep)

text \<open>Bytes as a little-endian number.\<close>

primrec le_word :: "u8 list \<Rightarrow> u32" where
  "le_word [] = 0"
| "le_word (b # bs) = ucast b XOR push_bit 8 (le_word bs)"

lemma le_word_high: "8 * length bs \<le> i \<Longrightarrow> \<not> bit (le_word bs) i"
proof (induction bs arbitrary: i)
  case (Cons b bs)
  then show ?case using Cons.IH [of "i - 8"] by (simp add: bit_xor_iff bit_push_bit_iff bit_unsigned_iff bit_u8_ge)
qed simp

lemma le_word_shift:
  assumes "length bs \<le> 3"
  shows "drop_bit 8 (push_bit 8 (le_word bs)) = le_word bs"
proof (rule bit_word_eqI)
  fix i
  assume "i < LENGTH(32)"
  then show "bit (drop_bit 8 (push_bit 8 (le_word bs))) i = bit (le_word bs) i"
    using le_word_high [of bs i] assms by (cases "i < 24") (simp_all add: bit_drop_bit_eq bit_push_bit_iff)
qed

lemma le_word_inject:
  "length xs = length ys \<Longrightarrow> length xs \<le> 4 \<Longrightarrow> le_word xs = le_word ys \<Longrightarrow> xs = ys"
proof (induction xs ys rule: list_induct2)
  case (Cons x xs y ys)
  have d: "drop_bit 8 (ucast b XOR w) = drop_bit 8 w" "take_bit 8 (ucast b XOR push_bit 8 w) = ucast b" for b :: u8 and w :: u32
    unfolding word_eq_bits by (auto simp: bit_simps dest: bit_imp_le_length)
  have "le_word xs = le_word ys"
    using arg_cong [OF Cons.prems(2), of "drop_bit 8"] Cons.prems(1) Cons.hyps
    by (simp only: le_word.simps d le_word_shift) (simp add: le_word_shift)
  moreover have "(ucast x :: u32) = ucast y"
    using arg_cong [OF Cons.prems(2), of "take_bit 8"] by (simp only: le_word.simps d)
  then have e: "bit (ucast x :: u32) i = bit (ucast y :: u32) i" for i by simp
  have "x = y"
  proof (rule bit_word_eqI)
    fix n
    assume "n < LENGTH(8)"
    then show "bit x n = bit y n" using e [of n] by (simp add: bit_unsigned_iff)
  qed
  ultimately show ?case using Cons by simp
qed simp

lemma rcrc_word:
  "length w \<le> 4 \<Longrightarrow> rcrc P c w = (rstep P ^^ (8 * length w)) (c XOR le_word w)"
proof (induction w arbitrary: c)
  case (Cons b w)
  have "take_bit 8 (push_bit 8 (le_word w)) = 0" unfolding word_eq_bits by (auto simp: bit_simps)
  then have "(rstep P ^^ 8) (push_bit 8 (le_word w)) = le_word w"
    using rstep_low_zero [of 8 "push_bit 8 (le_word w)" P] le_word_shift [of w] Cons.prems by simp
  then have "(rstep P ^^ 8) (c XOR ucast b) XOR le_word w = (rstep P ^^ 8) ((c XOR ucast b) XOR push_bit 8 (le_word w))"
    by (simp only: xlinear_xor [OF xlinear_funpow [OF xlinear_rstep]])
  then have "(rstep P ^^ 8) (c XOR ucast b) XOR le_word w = (rstep P ^^ 8) (c XOR le_word (b # w))"
    by (simp only: le_word.simps xor.assoc)
  moreover have "rcrc P c (b # w) = (rstep P ^^ (8 * length w)) ((rstep P ^^ 8) (c XOR ucast b) XOR le_word w)"
    using Cons.IH [of "(rstep P ^^ 8) (c XOR ucast b)"] Cons.prems by (simp add: rcrc_def)
  moreover have "(rstep P ^^ (8 * length (b # w))) x = (rstep P ^^ (8 * length w)) ((rstep P ^^ 8) x)" for x
  proof -
    have "8 * length (b # w) = 8 * length w + 8" by simp
    then show ?thesis by (simp only: funpow_add comp_apply)
  qed
  ultimately show ?case by simp
qed (simp add: rcrc_def)

lemma xor_cancel: "a = c" if "b XOR a = b XOR c" for a b c :: "'a::len word"
proof -
  have l: "b XOR (b XOR y) = y" for y by (simp only: xor.assoc [symmetric] xor_self_eq) simp
  have "a = b XOR (b XOR a)" by (rule l [symmetric])
  also have "\<dots> = b XOR (b XOR c)" unfolding that ..
  also have "\<dots> = c" by (rule l)
  finally show ?thesis .
qed

lemma rcrc_inject: "bit P 31 \<Longrightarrow> rcrc P c ys = rcrc P c' ys \<Longrightarrow> c = c'" for P :: u32
proof (induction ys arbitrary: c c')
  case (Cons b ys)
  have "inj (rstep P ^^ 8)" using Cons.prems(1) by (intro inj_rsteps) simp
  moreover have "(rstep P ^^ 8) (c XOR ucast b) = (rstep P ^^ 8) (c' XOR ucast b)"
    using Cons by (simp add: rcrc_def)
  ultimately have "c XOR ucast b = c' XOR ucast b" by (rule injD)
  then have "ucast b XOR c = ucast b XOR c'" by (simp only: xor.commute)
  then show ?case by (rule xor_cancel)
qed (simp add: rcrc_def)

section \<open>Properties\<close>

lemma crc7_loop_serial: "\<not> bit s 0 \<Longrightarrow> crc7_loop (drop_bit 1 s) buf = Inr (drop_bit 1 (mcrc 0x12 s buf))"
proof (induction buf arbitrary: s)
  case (Cons b buf)
  have "\<not> bit ((mstep 0x12 ^^ Suc n) c) 0" for n and c :: u8
    by (simp add: mstep_def bit_0 even_xor_iff)
  from this [of 7] have "\<not> bit ((mstep 0x12 ^^ 8) (s XOR b)) 0" by simp
  with Cons crc7_byte_serial [OF Cons.prems, of b] show ?case by (simp add: mcrc_def)
qed (simp add: mcrc_def)

text \<open>
  C9. The five table-driven checksums compute the bit-serial division by their polynomials:
  high bit first for \<open>crc7\<close> and \<open>crc32\<close>, low bit first for \<open>crc16\<close>, \<open>crc32c\<close> and \<open>crc64\<close>; the
  index of \<open>crc7\<close>, which is not masked, never leaves its table.
\<close>

theorem crc_tables_serial:
  "fio_crc7 d = Inr (drop_bit 1 (mcrc 0x12 0 d)) \<and>
   fio_crc16 d = rcrc 0xA001 0 d \<and>
   fio_crc32 d = mcrc 0x04C11DB7 0 d \<and>
   crc32c_sw d = rcrc 0x82F63B78 (NOT 0) d \<and>
   fio_crc64 d = rcrc 0x95AC9329AC4BC9B5 0 d"
  using crc7_loop_serial [of 0 d] crc32c_sw_serial [of d]
  by (simp add: fio_crc7_def fio_crc16_def fio_crc32_def fio_crc64_def rcrc_def mcrc_def
      crc16_byte_serial crc32_step_serial crc64_step_serial)

text \<open>
  C10. Hardware and software agree: when the CRC32 instruction divides as documented, the variant
  for it, eight bytes at a time with a tail of bytes, gives the value of the table-driven loop
  for every buffer below 32 GiB; so the checksum does not depend on the variant that the CPU
  selects.
\<close>

theorem crc32c_hw_eq_sw:
  assumes "\<forall>c b. crc32b c b = crc32_bits 0x82F63B78 8 c (ucast b)"
    and "\<forall>c q. crc32q c q = crc32_bits 0x82F63B78 64 c q"
    and "length data < 2 ^ 35"
  shows "fio_crc32c arm64_available intel_available crc32b crc32q data = crc32c_sw data"
proof -
  let ?n = "length data div 8" and ?r = "length data mod 8"
  have n: "unat (of_nat ?n :: u32) = ?n" using assms(3) by (simp add: unsigned_of_nat take_bit_nat_eq_self)
  have r: "unat (of_nat ?r :: u32) = ?r" by (simp add: unsigned_of_nat take_bit_nat_eq_self)
  have r0: "(of_nat ?r :: u32) = 0 \<longleftrightarrow> ?r = 0" by (simp only: word_unat_eq_iff r unat_0)
  have q: "crc32c_intel_quads crc32q ?n (NOT 0) data = (rcrc crc32c_poly (NOT 0) (take (8 * ?n) data), drop (8 * ?n) data)"
    using assms(2) by (intro crc32c_intel_quads_serial) simp_all
  have "length (drop (8 * ?n) data) = ?r" by (simp add: minus_mult_div_eq_mod)
  then have t: "take ?r (drop (8 * ?n) data) = drop (8 * ?n) data" by simp
  have b: "crc32c_intel_le_hw_byte crc32b c xs = rcrc crc32c_poly c xs" for c xs
    using assms(1) by (simp add: crc32c_intel_le_hw_byte_def rcrc_def crc32_byte_serial)
  have "crc32c_intel crc32b crc32q data = rcrc crc32c_poly (NOT 0) data"
  proof (cases "?r = 0")
    case True
    then have "take (8 * ?n) data = data" by (simp add: mod_eq_0_iff_dvd)
    with True show ?thesis unfolding crc32c_intel_def Let_def n r r0 q by simp
  next
    case False
    then have "crc32c_intel crc32b crc32q data = rcrc crc32c_poly (rcrc crc32c_poly (NOT 0) (take (8 * ?n) data)) (drop (8 * ?n) data)"
      unfolding crc32c_intel_def Let_def n r r0 q prod.case t b by simp
    then show ?thesis by (simp only: rcrc_append [symmetric] append_take_drop_id)
  qed
  then show ?thesis by (simp add: fio_crc32c_def crc32c_sw_serial)
qed

theorem crc32c_hw_eq_sw_witness:
  "fio_crc32c False True (\<lambda>c b. crc32_bits 0x82F63B78 8 c (ucast b)) (crc32_bits 0x82F63B78 64) (replicate 19 7) =
   crc32c_sw (replicate 19 7)"
  by (rule crc32c_hw_eq_sw) simp_all

text \<open>
  C13. CRC-32C detects every burst: two buffers that differ, but only inside a window of four
  bytes, have different checksums.
\<close>

theorem crc32c_detects_bursts:
  assumes "length w = length w'" "length w \<le> 4" "w \<noteq> w'"
  shows "crc32c_sw (xs @ w @ ys) \<noteq> crc32c_sw (xs @ w' @ ys)"
proof
  let ?c = "rcrc crc32c_poly (NOT 0) xs"
  assume "crc32c_sw (xs @ w @ ys) = crc32c_sw (xs @ w' @ ys)"
  then have "rcrc crc32c_poly ?c w = rcrc crc32c_poly ?c w'"
    unfolding crc32c_sw_serial rcrc_append by (rule rcrc_inject [rotated]) simp
  then have "(rstep crc32c_poly ^^ (8 * length w)) (?c XOR le_word w) = (rstep crc32c_poly ^^ (8 * length w)) (?c XOR le_word w')"
    using assms by (simp only: rcrc_word)
  moreover have "inj (rstep crc32c_poly ^^ (8 * length w))" by (rule inj_rsteps) simp
  ultimately have "?c XOR le_word w = ?c XOR le_word w'" by (simp only: inj_eq)
  then have "le_word w = le_word w'" by (rule xor_cancel)
  with assms show False using le_word_inject by blast
qed

theorem crc32c_detects_bursts_witness: "crc32c_sw ([1, 2] @ [3] @ [4, 5]) \<noteq> crc32c_sw ([1, 2] @ [9] @ [4, 5])"
  by (rule crc32c_detects_bursts) simp_all

end
