(* ===== verification/Pattern.thy ===== *)
theory Pattern
  imports Bytes
begin

text \<open>
  The buffer patterns of \<open>lib/pattern.c\<close>: quoted strings and formats of a pattern, spreading a
  pattern over a buffer by repeated doubling, comparing a buffer with a pattern that starts at
  an offset, and pasting formats.  A negative return value is the error \<open>Inl\<close> of \<open>pat_error\<close>.
\<close>

section \<open>Copying a pattern\<close>

datatype pat_error = EINVAL | EILSEQ | EPASTE int

text \<open>
  The loop of \<open>dup_pattern\<close>; the offset is 32 bits wide and doubled by a shift, so that the loop
  would not end if it became zero with bytes left.
\<close>

partial_function (option) dup_loop :: "u8 list \<Rightarrow> u32 \<Rightarrow> u32 \<Rightarrow> u8 list res option" where
  "dup_loop out off left =
    (if left = 0 then Some (Inr out)
     else case blit out (unat off) (take (unat (min left off)) out) of
            Inl e \<Rightarrow> Some (Inl e)
          | Inr out' \<Rightarrow> dup_loop out' (push_bit 1 off) (left - min left off))"

definition dup_pattern :: "u8 list \<Rightarrow> u32 \<Rightarrow> u32 \<Rightarrow> u8 list res option" where
  "dup_pattern out out_len pattern_len =
    (if out_len \<le> pattern_len then Some (Inr out)
     else dup_loop out pattern_len (out_len - pattern_len))"

text \<open>The buffer is the \<open>out_len\<close> bytes the caller passes; a null pointer is not modelled.\<close>

definition cpy_pattern :: "u8 list \<Rightarrow> u8 list \<Rightarrow> (pat_error + u8 list res option)" where
  "cpy_pattern pattern out =
    (let pattern_len = of_nat (length pattern) :: u32; out_len = of_nat (length out) :: u32
     in if pattern_len = 0 \<or> out_len = 0 then Inl EINVAL
        else Inr (case blit out 0 (take (unat (min pattern_len out_len)) pattern) of
                    Inl e \<Rightarrow> Some (Inl e)
                  | Inr out \<Rightarrow> dup_pattern out out_len pattern_len))"

section \<open>Comparing with a pattern\<close>

text \<open>
  \<open>memcmp\<close> of two runs of equal length reports whether they differ.  The callers in \<open>verify.c\<close> pass
  an offset reduced modulo the size of the pattern, so that \<open>pattern_size - off\<close> does not wrap.
\<close>

definition cmp_pattern :: "u8 list \<Rightarrow> nat \<Rightarrow> u8 list \<Rightarrow> pat_error + unit" where
  "cmp_pattern pattern off buf =
    (let pattern_size = length pattern; len = length buf
     in if len > pattern_size \<and> take (len - pattern_size) buf \<noteq> drop pattern_size buf then Inl EILSEQ
        else let (bad, buf, len) =
               (if off \<noteq> 0
                then let n = min len (pattern_size - off)
                     in (take n buf \<noteq> take n (drop off pattern), drop n buf, len - n)
                else (False, buf, len))
             in if bad then Inl EILSEQ
                else if len \<noteq> 0
                then let n = min len (if off \<noteq> 0 then off else pattern_size)
                     in if take n buf \<noteq> take n pattern then Inl EILSEQ else Inr ()
                else Inr ())"

section \<open>Formats\<close>

record 'priv pattern_fmt_desc =
  fmt_name :: "u8 list"
  desc_len :: nat
  paste :: "nat \<Rightarrow> 'priv \<Rightarrow> int + u8 list"

record 'priv pattern_fmt =
  fmt_off :: nat
  fmt_desc :: "'priv pattern_fmt_desc"

text \<open>
  The parsers return the bytes put into the output buffer and the input after the parsed part, or
  \<open>None\<close> for the null pointer of the C code.  The input ends at its terminating zero, which is not
  in the list; 34 and 37 are the quote and the percent sign, for which the code asserts.
\<close>

definition parse_string :: "u8 list \<Rightarrow> nat \<Rightarrow> (u8 list \<times> u8 list) option res" where
  "parse_string beg out_len =
    (if out_len = 0 then Inr None
     else assertr (beg \<noteq> [] \<and> hd beg = 34) (
       let beg = tl beg; str = takeWhile (\<lambda>c. c \<noteq> 34) beg
       in if length str = length beg then Inr None
          else if length str > out_len then Inr None
          else Inr (Some (str, drop (length str + 1) beg))))"

text \<open>The index runs over the descriptors; the first whose text the input starts with is taken.\<close>

definition parse_format :: "u8 list \<Rightarrow> nat \<Rightarrow> nat \<Rightarrow> 'priv pattern_fmt_desc list \<Rightarrow> nat \<Rightarrow>
    ('priv pattern_fmt \<times> u8 list \<times> u8 list) option res" where
  "parse_format inp parsed out_len fmt_descs fmt_sz =
    (if out_len = 0 \<or> fmt_descs = [] \<or> fmt_sz = 0 then Inr None
     else assertr (inp \<noteq> [] \<and> hd inp = 37) (
       case find (\<lambda>desc. take (length (fmt_name desc)) inp = fmt_name desc) fmt_descs of
         None \<Rightarrow> Inr None
       | Some desc \<Rightarrow>
           if desc_len desc > out_len then Inr None
           else Inr (Some (\<lparr>fmt_off = parsed, fmt_desc = desc\<rparr>, replicate (desc_len desc) 0,
                           drop (length (fmt_name desc)) inp))))"

text \<open>The callback \<open>paste\<close> writes \<open>len\<close> bytes or fails with an error code; it is called for each format inside the pattern.\<close>

fun paste_format_loop :: "'priv \<Rightarrow> u8 list \<Rightarrow> 'priv pattern_fmt list \<Rightarrow> pat_error + u8 list" where
  "paste_format_loop priv pattern [] = Inr pattern"
| "paste_format_loop priv pattern (f # fs) =
    (if length pattern \<le> fmt_off f then Inr pattern
     else let len = min (length pattern - fmt_off f) (desc_len (fmt_desc f))
          in case paste (fmt_desc f) len priv of
               Inl rc \<Rightarrow> Inl (EPASTE rc)
             | Inr bs \<Rightarrow> (case blit pattern (fmt_off f) (take len bs) of
                 Inl _ \<Rightarrow> Inl EINVAL
               | Inr pattern' \<Rightarrow> paste_format_loop priv pattern' fs))"

definition paste_format_inplace :: "u8 list \<Rightarrow> 'priv pattern_fmt list \<Rightarrow> 'priv \<Rightarrow> pat_error + u8 list" where
  "paste_format_inplace pattern fmts priv =
    (if pattern = [] then Inl EINVAL else paste_format_loop priv pattern fmts)"

definition paste_format :: "u8 list \<Rightarrow> 'priv pattern_fmt list \<Rightarrow> u8 list \<Rightarrow> 'priv \<Rightarrow> (pat_error + u8 list res option)" where
  "paste_format pattern fmts out priv =
    (if pattern = [] \<or> out = [] then Inl EINVAL
     else let len = min (length pattern) (length out)
          in case paste_format_inplace (take len pattern) fmts priv of
               Inl e \<Rightarrow> Inl e
             | Inr chunk \<Rightarrow> Inr (case blit out 0 chunk of
                   Inl e \<Rightarrow> Some (Inl e)
                 | Inr out \<Rightarrow> dup_pattern out (of_nat (length out)) (of_nat (length pattern))))"

section \<open>Spreading by doubling\<close>

definition periodic :: "u8 list \<Rightarrow> nat \<Rightarrow> u8 list \<Rightarrow> bool" where
  "periodic p n out \<longleftrightarrow> (\<forall>i<n. out ! i = p ! (i mod length p))"

lemma periodic_double:
  assumes "periodic p off out" "length p dvd off" "m \<le> off" "off + m \<le> length out" "off \<noteq> 0"
  shows "\<exists>out'. blit out off (take m out) = Inr out' \<and> length out' = length out \<and> periodic p (off + m) out'"
proof -
  define out' where "out' = take off out @ take m out @ drop (off + m) out"
  have len: "length (take m out) = m" using assms(3,4) by simp
  have "blit out off (take m out) = Inr out'" using assms(4) len by (simp add: blit_ok out'_def)
  moreover have "length out' = length out" using assms(3,4) by (simp add: out'_def)
  moreover have "out' ! i = p ! (i mod length p)" if "i < off + m" for i
  proof (cases "i < off")
    case True
    then show ?thesis using assms(1,4) by (simp add: out'_def nth_append periodic_def)
  next
    case False
    define j where "j = i - off"
    have j: "i = off + j" "j < m" using False that by (simp_all add: j_def)
    have "out' ! i = out ! j" using j assms(3,4) by (simp add: out'_def nth_append)
    also have "\<dots> = p ! (j mod length p)" using assms(1,3) j(2) by (simp add: periodic_def)
    also have "j mod length p = i mod length p" using assms(2) j(1) by (simp add: mod_add_left_eq [symmetric] mod_eq_0_iff_dvd)
    finally show ?thesis .
  qed
  ultimately show ?thesis by (auto simp: periodic_def)
qed

lemma dup_loop_periodic:
  assumes "periodic p (unat off) out" "length p dvd unat off" "unat off \<noteq> 0"
    "unat off + unat left = length out" "length out < 2 ^ 32"
  shows "\<exists>out'. dup_loop out off left = Some (Inr out') \<and> length out' = length out \<and> periodic p (length out) out'"
  using assms
proof (induction "unat left" arbitrary: out off left rule: less_induct)
  case less
  show ?case
  proof (cases "left = 0")
    case True
    then show ?thesis using less.prems by (simp add: dup_loop.simps [of out off 0])
  next
    case False
    then have l: "0 < unat left" by (simp add: unat_gt_0)
    define m where "m = unat (min left off)"
    have m: "m = min (unat left) (unat off)" by (simp add: m_def min_def word_le_nat_alt)
    obtain out' where o: "blit out (unat off) (take m out) = Inr out'" "length out' = length out" "periodic p (unat off + m) out'"
      using periodic_double [OF less.prems(1,2), of m] less.prems(3,4) m
      by (metis add_left_mono min.cobounded1 min.cobounded2)
    have left': "unat (left - min left off) = unat left - m"
      by (simp add: unat_sub_no_wrap m_def)
    have step: "dup_loop out off left = dup_loop out' (push_bit 1 off) (left - min left off)"
      using False o(1) by (simp add: dup_loop.simps [of out off left] m_def)
    show ?thesis
    proof (cases "unat left \<le> unat off")
      case True
      then have "left - min left off = 0" using left' m by (simp add: word_unat_eq_iff)
      then show ?thesis
        using step o(2,3) True less.prems(4) m by (simp add: dup_loop.simps [of out'])
    next
      case False
      then have m': "m = unat off" using m by simp
      have "unat (push_bit 1 off) = unat off * 2 mod 2 ^ 32" 
        by (simp only: unsigned_push_bit_eq push_bit_nat_def take_bit_nat_def) simp
      moreover have "unat off * 2 < 2 ^ 32" using False less.prems(4,5) by linarith
      ultimately have off': "unat (push_bit 1 off) = 2 * unat off" by simp
      have "\<exists>out''. dup_loop out' (push_bit 1 off) (left - min left off) = Some (Inr out'') \<and> length out'' = length out' \<and>
          periodic p (length out') out''"
      proof (rule less.hyps)
        show "unat (left - min left off) < unat left" using left' m' l less.prems(3) by simp
        show "periodic p (unat (push_bit 1 off)) out'" using o(3) off' m' by (simp add: mult_2)
        show "length p dvd unat (push_bit 1 off)" using off' less.prems(2) by simp
        show "unat (push_bit 1 off) \<noteq> 0" using off' less.prems(3) by simp
        show "unat (push_bit 1 off) + unat (left - min left off) = length out'"
          using off' left' m' False less.prems(4) o(2) by simp
        show "length out' < 2 ^ 32" using o(2) less.prems(5) by simp
      qed
      with step o(2) show ?thesis by simp
    qed
  qed
qed

lemma dup_pattern_periodic:
  assumes "p \<noteq> []" "length out < 2 ^ 32" "length p < 2 ^ 32" "periodic p (min (length p) (length out)) out"
  shows "\<exists>out'. dup_pattern out (of_nat (length out)) (of_nat (length p)) = Some (Inr out') \<and>
    length out' = length out \<and> periodic p (length out) out'"
proof -
  have u: "unat (of_nat (length p) :: u32) = length p" "unat (of_nat (length out) :: u32) = length out"
    using assms(2,3) by (simp_all add: unsigned_of_nat take_bit_nat_eq_self)
  show ?thesis
  proof (cases "length out \<le> length p")
    case True
    then show ?thesis using assms(4) u by (simp add: dup_pattern_def word_le_nat_alt min_def split: if_splits)
  next
    case False
    have "unat (of_nat (length out) - of_nat (length p) :: u32) = length out - length p"
      using False u by (simp add: unat_sub_no_wrap word_le_nat_alt)
    then show ?thesis
      using dup_loop_periodic [of p "of_nat (length p)" out "of_nat (length out) - of_nat (length p)"] False u assms
      by (simp add: dup_pattern_def word_le_nat_alt min_def)
  qed
qed

lemma cpy_pattern_periodic:
  assumes "pattern \<noteq> []" "length pattern < 2 ^ 32" "out \<noteq> []" "length out < 2 ^ 32"
  shows "\<exists>out'. cpy_pattern pattern out = Inr (Some (Inr out')) \<and> length out' = length out \<and>
    periodic pattern (length out) out'"
proof -
  have u: "unat (of_nat (length pattern) :: u32) = length pattern" "unat (of_nat (length out) :: u32) = length out"
    using assms(2,4) by (simp_all add: unsigned_of_nat take_bit_nat_eq_self)
  define n where "n = min (length pattern) (length out)"
  have n: "unat (min (of_nat (length pattern)) (of_nat (length out)) :: u32) = n"
    using u by (simp add: n_def min_def word_le_nat_alt)
  have ne: "(of_nat (length pattern) :: u32) \<noteq> 0" "(of_nat (length out) :: u32) \<noteq> 0"
    using assms(1,3) u by (simp_all add: word_unat_eq_iff)
  define out1 where "out1 = take n pattern @ drop n out"
  have b: "blit out 0 (take n pattern) = Inr out1" by (simp add: blit_ok n_def out1_def min_def)
  have len: "length out1 = length out" by (simp add: out1_def n_def)
  have "periodic pattern n out1"
    by (auto simp: periodic_def out1_def nth_append n_def)
  then obtain out' where "dup_pattern out1 (of_nat (length out1)) (of_nat (length pattern)) = Some (Inr out')"
    "length out' = length out1" "periodic pattern (length out1) out'"
    using dup_pattern_periodic [of pattern out1] assms(1,2,4) len by (auto simp: n_def)
  then show ?thesis using b n ne len by (simp add: cpy_pattern_def Let_def)
qed

section \<open>Comparison\<close>

lemma take_eq_take_iff:
  "n \<le> length xs \<Longrightarrow> n \<le> length ys \<Longrightarrow> take n xs = take n ys \<longleftrightarrow> (\<forall>i<n. xs ! i = ys ! i)"
  by (simp add: list_eq_iff_nth_eq)

text \<open>The three comparisons, read as statements about single bytes.\<close>

lemma cmp_pattern_bytes:
  assumes "off < length pattern"
  shows "cmp_pattern pattern off buf = Inr () \<longleftrightarrow>
    (\<forall>i. i + length pattern < length buf \<longrightarrow> buf ! i = buf ! (i + length pattern)) \<and>
    (\<forall>i<min (length buf) (length pattern). buf ! i = pattern ! ((off + i) mod length pattern))"
proof -
  let ?s = "length pattern" and ?n = "length buf"
  have self: "\<not> (?n > ?s \<and> take (?n - ?s) buf \<noteq> drop ?s buf) \<longleftrightarrow> (\<forall>i. i + ?s < ?n \<longrightarrow> buf ! i = buf ! (i + ?s))"
    by (cases "?n > ?s") (auto simp: list_eq_iff_nth_eq less_diff_conv add.commute)
  show ?thesis
  proof (cases "off = 0")
    case True
    have "take (min ?n ?s) buf = take (min ?n ?s) pattern \<longleftrightarrow> (\<forall>i<min ?n ?s. buf ! i = pattern ! i)"
      by (rule take_eq_take_iff) simp_all
    also have "\<dots> \<longleftrightarrow> (\<forall>i<min ?n ?s. buf ! i = pattern ! ((off + i) mod ?s))" using True by auto
    finally have first: "take (min ?n ?s) buf = take (min ?n ?s) pattern \<longleftrightarrow> \<dots>" .
    show ?thesis
      unfolding cmp_pattern_def Let_def using True self first by (cases "buf = []") auto
  next
    case False
    define k where "k = min ?n (?s - off)"
    define m where "m = min (?n - k) off"
    have 1: "take k buf = take k (drop off pattern) \<longleftrightarrow> (\<forall>i<k. buf ! i = pattern ! (off + i))"
      using assms by (subst take_eq_take_iff) (simp_all add: k_def)
    have 2: "take m (drop k buf) = take m pattern \<longleftrightarrow> (\<forall>i<m. buf ! (k + i) = pattern ! i)"
      using assms by (subst take_eq_take_iff) (simp_all add: k_def m_def)
    have "(\<forall>i<k. buf ! i = pattern ! (off + i)) \<and> (\<forall>i<m. buf ! (k + i) = pattern ! i) \<longleftrightarrow>
        (\<forall>i<min ?n ?s. buf ! i = pattern ! ((off + i) mod ?s))" (is "?A \<and> ?B \<longleftrightarrow> ?C")
    proof (intro iffI conjI allI impI)
      fix i
      assume AB: "?A \<and> ?B" and i: "i < min ?n ?s"
      show "buf ! i = pattern ! ((off + i) mod ?s)"
      proof (cases "i < k")
        case True
        then have "off + i < ?s" unfolding k_def by linarith
        with True AB show ?thesis by simp
      next
        case False
        then have k: "k = ?s - off" using i by (auto simp: k_def)
        then have "off + i = (i - k) + ?s" "i - k < m" using False i assms by (auto simp: m_def)
        moreover have "i - k < ?s" using i by linarith
        ultimately have "(off + i) mod ?s = i - k" by simp
        moreover have "buf ! (k + (i - k)) = pattern ! (i - k)" using AB \<open>i - k < m\<close> by blast
        ultimately show ?thesis using False by simp
      qed
    next
      fix i
      assume C: "?C" and i: "i < k"
      then have "off + i < ?s" "i < min ?n ?s" unfolding k_def by linarith+
      with C show "buf ! i = pattern ! (off + i)" by simp
    next
      fix i
      assume C: "?C" and i: "i < m"
      then have k: "k = ?s - off" "k + i < min ?n ?s" using assms by (auto simp: m_def k_def)
      moreover have "i < ?s" "off + (k + i) = i + ?s" using k assms by linarith+
      then have "(off + (k + i)) mod ?s = i" by (metis mod_add_self2 mod_less)
      ultimately show "buf ! (k + i) = pattern ! i" using C by metis
    qed
    moreover have "cmp_pattern pattern off buf = Inr () \<longleftrightarrow>
        \<not> (?n > ?s \<and> take (?n - ?s) buf \<noteq> drop ?s buf) \<and>
        take k buf = take k (drop off pattern) \<and> take m (drop k buf) = take m pattern"
      using False by (simp add: cmp_pattern_def Let_def k_def m_def)
    ultimately show ?thesis using self 1 2 by argo
  qed
qed

text \<open>A buffer that repeats itself after \<open>s\<close> bytes and starts right is right everywhere.\<close>

lemma self_similar_iff:
  fixes b p :: "nat \<Rightarrow> 'a"
  assumes "0 < s"
  shows "(\<forall>i. i + s < n \<longrightarrow> b i = b (i + s)) \<and> (\<forall>i<min n s. b i = p ((off + i) mod s)) \<longleftrightarrow>
    (\<forall>i<n. b i = p ((off + i) mod s))" (is "?A \<and> ?B \<longleftrightarrow> ?C")
proof (intro iffI conjI allI impI)
  fix i
  assume AB: "?A \<and> ?B" and "i < n"
  then show "b i = p ((off + i) mod s)"
  proof (induction i rule: less_induct)
    case (less i)
    show ?case
    proof (cases "i < s")
      case True
      then show ?thesis using less.prems by simp
    next
      case False
      define j where "j = i - s"
      have j: "i = j + s" "j < i" using False assms by (auto simp: j_def)
      have "b i = b j" using less.prems j by simp
      also have "\<dots> = p ((off + j) mod s)" using less.IH [OF j(2)] less.prems j by simp
      also have "(off + j) mod s = (off + i) mod s" using j(1) by (simp add: add.assoc [symmetric])
      finally show ?thesis .
    qed
  qed
next
  fix i
  assume C: "?C" and i: "i + s < n"
  have "b (i + s) = p ((off + (i + s)) mod s)" using C i by blast
  moreover have "b i = p ((off + i) mod s)" using C i by simp
  moreover have "(off + (i + s)) mod s = (off + i) mod s" by (simp add: add.assoc [symmetric])
  ultimately show "b i = b (i + s)" by simp
qed simp

section \<open>Properties\<close>

text \<open>
  C31. \<open>cmp_pattern\<close> accepts a buffer exactly when each of its bytes is the byte of the pattern,
  repeated without end, that belongs there when the buffer starts at offset \<open>off\<close> of the pattern,
  although it compares at most three runs of bytes.
\<close>

theorem cmp_pattern_iff:
  assumes "off < length pattern"
  shows "cmp_pattern pattern off buf = Inr () \<longleftrightarrow>
    (\<forall>i<length buf. buf ! i = pattern ! ((off + i) mod length pattern))"
  unfolding cmp_pattern_bytes [OF assms] using assms by (intro self_similar_iff) linarith

theorem cmp_pattern_iff_witness:
  "cmp_pattern [1, 2, 3] 2 [3, 1, 2, 3, 1] = Inr () \<longleftrightarrow>
    (\<forall>i<length [3, 1, 2, 3, 1 :: u8]. [3, 1, 2, 3, 1 :: u8] ! i = [1, 2, 3] ! ((2 + i) mod length [1, 2, 3 :: u8]))"
  by (rule cmp_pattern_iff) simp

text \<open>
  C6. A buffer filled by \<open>cpy_pattern\<close> verifies: the copy ends, by doubling, without leaving the
  buffer, and every part of the buffer compares equal to the pattern at its own offset.
\<close>

theorem cpy_pattern_verifies:
  assumes "pattern \<noteq> []" "length pattern < 2 ^ 32" "out \<noteq> []" "length out < 2 ^ 32"
  shows "\<exists>out'. cpy_pattern pattern out = Inr (Some (Inr out')) \<and> length out' = length out \<and>
    (\<forall>pos n. pos + n \<le> length out \<longrightarrow>
      cmp_pattern pattern (pos mod length pattern) (take n (drop pos out')) = Inr ())"
proof -
  let ?s = "length pattern"
  obtain out' where o: "cpy_pattern pattern out = Inr (Some (Inr out'))" "length out' = length out"
    "periodic pattern (length out) out'"
    using cpy_pattern_periodic [OF assms] by blast
  have "cmp_pattern pattern (pos mod ?s) (take n (drop pos out')) = Inr ()" if "pos + n \<le> length out" for pos n
  proof -
    have "out' ! (pos + i) = pattern ! ((pos mod ?s + i) mod ?s)" if "pos + i < length out" for i
      using o(3) that by (simp add: periodic_def mod_add_left_eq)
    then have "\<forall>i<length (take n (drop pos out')). take n (drop pos out') ! i = pattern ! ((pos mod ?s + i) mod ?s)"
      using \<open>pos + n \<le> length out\<close> o(2) by simp
    moreover have s: "pos mod ?s < ?s" using assms(1) by simp
    ultimately show ?thesis
      unfolding cmp_pattern_bytes [OF s] using assms(1) by (subst self_similar_iff) simp_all
  qed
  with o show ?thesis by blast
qed

theorem cpy_pattern_verifies_witness:
  "\<exists>out'. cpy_pattern [1, 2, 3] [0, 0, 0, 0, 0, 0, 0, 0] = Inr (Some (Inr out')) \<and>
    length out' = length [0, 0, 0, 0, 0, 0, 0, 0 :: u8] \<and>
    (\<forall>pos n. pos + n \<le> length [0, 0, 0, 0, 0, 0, 0, 0 :: u8] \<longrightarrow>
      cmp_pattern [1, 2, 3] (pos mod length [1, 2, 3 :: u8]) (take n (drop pos out')) = Inr ())"
  by (rule cpy_pattern_verifies) simp_all

end
