(* ===== verification/Rand.thy ===== *)
theory Rand
  imports Pattern
begin

text \<open>
  The random numbers of \<open>lib/rand.h\<close> and \<open>lib/rand.c\<close>: the combined Tausworthe generators of 32
  and 64 bits, their seeding, the scaling of a draw to a range in double arithmetic, and the
  filling of buffers with random and compressible data.  A \<open>long\<close> has 64 bits.
\<close>

section \<open>Generators\<close>

record taus88_state =
  s88_1 :: u32
  s88_2 :: u32
  s88_3 :: u32

record taus258_state =
  s258_1 :: u64
  s258_2 :: u64
  s258_3 :: u64
  s258_4 :: u64
  s258_5 :: u64

text \<open>The union is tagged by \<open>use64\<close>.\<close>

datatype frand_state = State32 taus88_state | State64 taus258_state

definition rand_max :: "frand_state \<Rightarrow> u64" where
  "rand_max state = (case state of State64 _ \<Rightarrow> - 1 | State32 _ \<Rightarrow> ucast (- 1 :: u32))"

text \<open>
  The macro masks and shifts a 64-bit value whose low 32 bits are stored, which is the shift of
  the 32-bit word.
\<close>

definition TAUSWORTHE :: "u32 \<Rightarrow> nat \<Rightarrow> nat \<Rightarrow> u32 \<Rightarrow> nat \<Rightarrow> u32" where
  "TAUSWORTHE s a b c d = push_bit d (s AND c) XOR drop_bit b (push_bit a s XOR s)"

definition rand32 :: "taus88_state \<Rightarrow> u32 \<times> taus88_state" where
  "rand32 state =
    (let s1 = TAUSWORTHE (s88_1 state) 13 19 4294967294 12;
         s2 = TAUSWORTHE (s88_2 state) 2 25 4294967288 4;
         s3 = TAUSWORTHE (s88_3 state) 3 11 4294967280 17
     in (s1 XOR s2 XOR s3, \<lparr>s88_1 = s1, s88_2 = s2, s88_3 = s3\<rparr>))"

definition rand64 :: "taus258_state \<Rightarrow> u64 \<times> taus258_state" where
  "rand64 state =
    (let xval = drop_bit 53 (push_bit 1 (s258_1 state) XOR s258_1 state);
         s1 = push_bit 10 (s258_1 state AND 18446744073709551614) XOR xval;
         xval = drop_bit 50 (push_bit 24 (s258_2 state) XOR s258_2 state);
         s2 = push_bit 5 (s258_2 state AND 18446744073709551104) XOR xval;
         xval = drop_bit 23 (push_bit 3 (s258_3 state) XOR s258_3 state);
         s3 = push_bit 29 (s258_3 state AND 18446744073709547520) XOR xval;
         xval = drop_bit 24 (push_bit 5 (s258_4 state) XOR s258_4 state);
         s4 = push_bit 23 (s258_4 state AND 18446744073709420544) XOR xval;
         xval = drop_bit 33 (push_bit 3 (s258_5 state) XOR s258_5 state);
         s5 = push_bit 8 (s258_5 state AND 18446744073701163008) XOR xval
     in (s1 XOR s2 XOR s3 XOR s4 XOR s5,
         \<lparr>s258_1 = s1, s258_2 = s2, s258_3 = s3, s258_4 = s4, s258_5 = s5\<rparr>))"

definition rand_next :: "frand_state \<Rightarrow> u64 \<times> frand_state" where
  "rand_next state =
    (case state of
       State64 st \<Rightarrow> (let (v, st') = rand64 st in (v, State64 st'))
     | State32 st \<Rightarrow> (let (v, st') = rand32 st in (ucast v, State32 st')))"

section \<open>Seeding\<close>

definition seed_above :: "u64 \<Rightarrow> u64 \<Rightarrow> u64" where
  "seed_above x m = (if x < m then x + m else x)"

definition LCG :: "u32 \<Rightarrow> u32 \<Rightarrow> u32" where
  "LCG x seed = (x * 69069) XOR seed"

definition LCG64 :: "u64 \<Rightarrow> u64 \<Rightarrow> u64" where
  "LCG64 x seed = (x * 6906969069) XOR seed"

text \<open>
  In C \<open>2^31\<close> is the exclusive or of 2 and 31: the constant \<open>(2^31) + (2^17) + (2^7)\<close> is 53.
  Six draws follow, whose values are dropped.
\<close>

definition lcg_start :: int where
  "lcg_start = (2 XOR 31) + (2 XOR 17) + (2 XOR 7)"

definition init_rand32 :: "u32 \<Rightarrow> taus88_state" where
  "init_rand32 seed =
    (let s1 = ucast (seed_above (ucast (LCG (of_int lcg_start) seed)) 1);
         s2 = ucast (seed_above (ucast (LCG s1 seed)) 7);
         s3 = ucast (seed_above (ucast (LCG s2 seed)) 15)
     in ((\<lambda>st. snd (rand32 st)) ^^ 6) \<lparr>s88_1 = s1, s88_2 = s2, s88_3 = s3\<rparr>)"

definition init_rand64 :: "u64 \<Rightarrow> taus258_state" where
  "init_rand64 seed =
    (let s1 = seed_above (LCG64 (of_int lcg_start) seed) 1;
         s2 = seed_above (LCG64 s1 seed) 7;
         s3 = seed_above (LCG64 s2 seed) 15;
         s4 = seed_above (LCG64 s3 seed) 33;
         s5 = seed_above (LCG64 s4 seed) 49
     in ((\<lambda>st. snd (rand64 st)) ^^ 6)
          \<lparr>s258_1 = s1, s258_2 = s2, s258_3 = s3, s258_4 = s4, s258_5 = s5\<rparr>)"

definition init_rand_seed :: "u32 \<Rightarrow> bool \<Rightarrow> frand_state" where
  "init_rand_seed seed use64 = (if \<not> use64 then State32 (init_rand32 seed) else State64 (init_rand64 (ucast seed)))"

definition init_rand :: "bool \<Rightarrow> frand_state" where
  "init_rand use64 = (if \<not> use64 then State32 (init_rand32 1) else State64 (init_rand64 1))"

section \<open>Scaling in double arithmetic\<close>

text \<open>
  Rounding of a natural number to the 53 significant bits of a double, to nearest and ties to
  even.  A quotient by a power of two is exact, so that a product of doubles with it is the
  rounded product of the integers, scaled.
\<close>

fun bitlen :: "nat \<Rightarrow> nat" where
  "bitlen n = (if n = 0 then 0 else Suc (bitlen (n div 2)))"

declare bitlen.simps [simp del]

definition rnd53 :: "nat \<Rightarrow> nat" where
  "rnd53 n =
    (let k = bitlen n - 53
     in if k = 0 then n
        else let q = n div 2 ^ k; r = n mod 2 ^ k; half = 2 ^ (k - 1)
             in if half < r \<or> r = half \<and> odd q then (q + 1) * 2 ^ k else q * 2 ^ k)"

text \<open>\<open>(double) end * (r / (FRAND32_MAX + 1.0))\<close>, truncated toward zero.\<close>

definition scale32 :: "int \<Rightarrow> u32 \<Rightarrow> int" where
  "scale32 e r = sgn e * int (rnd53 (nat \<bar>e\<bar> * unat r) div 2 ^ 32)"

definition int_ok :: "int \<Rightarrow> bool" where
  "int_ok v \<longleftrightarrow> - (2 ^ 31) \<le> v \<and> v < 2 ^ 31"

definition rand32_between :: "frand_state \<Rightarrow> int \<Rightarrow> int \<Rightarrow> (int \<times> frand_state) res" where
  "rand32_between state start e =
    (case state of
       State64 _ \<Rightarrow> Inl Assert_failed
     | State32 st \<Rightarrow>
         (let (r, st') = rand32 st; v = start + scale32 e r
          in if int_ok v then Inr (v, State32 st') else Inl Signed_overflow))"

section \<open>Filling buffers\<close>

definition GOLDEN_RATIO_PRIME :: u64 where
  "GOLDEN_RATIO_PRIME = 0x9e37fffffffc0001"

text \<open>The bytes written to a buffer of \<open>len\<close> bytes; stores are little-endian.\<close>

fun fill_random_bytes :: "nat \<Rightarrow> u64 \<Rightarrow> u8 list" where
  "fill_random_bytes len seed =
    (if len = 0 then []
     else let this_len = (if 8 \<le> len then 8 else if 4 \<le> len then 4 else if 2 \<le> len then 2 else 1)
          in take this_len (bytes_le64 seed) @
             fill_random_bytes (len - this_len) (drop_bit 3 (seed * GOLDEN_RATIO_PRIME)))"

declare fill_random_bytes.simps [simp del]

definition fill_random_buf :: "frand_state \<Rightarrow> nat \<Rightarrow> u64 \<times> u8 list \<times> frand_state" where
  "fill_random_buf fs len =
    (let (r1, fs) = rand_next fs; (r2, fs) = rand_next fs; r = r1 * r2
     in (r, fill_random_bytes len r, fs))"

text \<open>
  The compressible part of a segment: the pattern if there is one, whose error return is ignored,
  and zero bytes otherwise.
\<close>

definition fill_part :: "u8 list \<Rightarrow> u8 list \<Rightarrow> u8 list res option" where
  "fill_part pattern buf =
    (if pattern \<noteq> []
     then (case cpy_pattern pattern buf of Inl _ \<Rightarrow> Some (Inr buf) | Inr r \<Rightarrow> r)
     else Some (Inr (replicate (length buf) 0)))"

text \<open>The loop works on the rest of the buffer; \<open>segment\<close> and \<open>percentage\<close> are 32 bits wide.\<close>

definition pct_len :: "u32 \<Rightarrow> u32 \<Rightarrow> nat" where
  "pct_len percentage segment = unat (segment * (100 - percentage) div 100)"

definition pct_zero_len :: "nat \<Rightarrow> nat \<Rightarrow> nat" where
  "pct_zero_len this_len len = (if this_len > len then len else if len - this_len \<le> 8 then len else this_len)"

partial_function (option) fill_pct_loop :: "u64 \<Rightarrow> u32 \<Rightarrow> u32 \<Rightarrow> u8 list \<Rightarrow> u8 list \<Rightarrow> u8 list res option" where
  "fill_pct_loop seed percentage segment pattern buf =
    (if buf = [] then Some (Inr [])
     else let this_len = min (pct_len percentage segment) (length buf);
              rand = fill_random_bytes this_len seed;
              rest = drop this_len buf
          in if rest = [] then Some (Inr rand)
             else let zero_len = pct_zero_len this_len (length rest)
                  in Option.bind (fill_part pattern (take zero_len rest)) (\<lambda>z.
                       Option.bind (fill_pct_loop seed percentage segment pattern (drop zero_len rest)) (\<lambda>r.
                         Some (bindr z (\<lambda>z. bindr r (\<lambda>r. Inr (rand @ z @ r)))))))"

definition fill_random_bytes_percentage :: "u64 \<Rightarrow> u32 \<Rightarrow> u32 \<Rightarrow> u8 list \<Rightarrow> u8 list \<Rightarrow> u8 list res option" where
  "fill_random_bytes_percentage seed percentage segment pattern buf =
    (if percentage = 100 then fill_part pattern buf
     else let segment = (if unat segment > length buf then of_nat (length buf) else segment)
          in fill_pct_loop seed percentage segment pattern buf)"

definition fill_random_buf_percentage ::
    "frand_state \<Rightarrow> u32 \<Rightarrow> u32 \<Rightarrow> u8 list \<Rightarrow> u8 list \<Rightarrow> u64 \<times> u8 list res option \<times> frand_state" where
  "fill_random_buf_percentage fs percentage segment pattern buf =
    (let (r1, fs) = rand_next fs; (r2, fs) = rand_next fs; r = r1 * r2
     in (r, fill_random_bytes_percentage r percentage segment pattern buf, fs))"

section \<open>The state stays valid\<close>

text \<open>The requirement on the state that \<open>lib/rand.c\<close> quotes from the erratum.\<close>

definition taus88_ok :: "taus88_state \<Rightarrow> bool" where
  "taus88_ok st \<longleftrightarrow> 1 < s88_1 st \<and> 7 < s88_2 st \<and> 15 < s88_3 st"

definition high_bit :: "nat \<Rightarrow> u32 \<Rightarrow> bool" where
  "high_bit k w \<longleftrightarrow> (\<exists>i\<ge>k. bit w i)"

lemma high_bit_iff: "high_bit k w \<longleftrightarrow> 2 ^ k \<le> unat w"
proof -
  have "unat w < 2 ^ k \<longleftrightarrow> take_bit k (unat w) = unat w" by (simp add: take_bit_nat_eq_self_iff)
  also have "\<dots> \<longleftrightarrow> (\<forall>i\<ge>k. \<not> bit (unat w) i)"
    unfolding bit_eq_iff [of "take_bit k (unat w)"] bit_take_bit_iff
    by (meson not_less possible_bit_nat)
  also have "\<dots> \<longleftrightarrow> \<not> high_bit k w"
    unfolding high_bit_def bit_unsigned_iff by (simp add: possible_bit_def)
  finally show ?thesis by (simp add: not_less [symmetric])
qed

lemma bit_TAUSWORTHE:
  assumes "b + d + k = 32" "c = NOT (mask k)"
  shows "bit (TAUSWORTHE s a b c d) i \<longleftrightarrow>
    (if d + k \<le> i then i < 32 \<and> bit s (i - d)
     else (a \<le> b + i \<and> b + i < 32 \<and> bit s (b + i - a)) \<noteq> bit s (b + i))"
  using assms
  by (auto simp: TAUSWORTHE_def bit_xor_iff bit_push_bit_iff bit_drop_bit_eq bit_and_iff bit_not_iff bit_mask_iff
      dest: bit_imp_le_length)

text \<open>A step maps states whose low \<open>k\<close> bits alone are set to 0, and no others.\<close>

lemma high_bit_TAUSWORTHE:
  assumes p: "b + d + k = 32" "c = NOT (mask k)" and a: "0 < a" "k + a \<le> b"
  shows "high_bit k (TAUSWORTHE s a b c d) \<longleftrightarrow> high_bit k s"
proof
  assume "high_bit k (TAUSWORTHE s a b c d)"
  then obtain i where i: "k \<le> i" "bit (TAUSWORTHE s a b c d) i" by (auto simp: high_bit_def)
  show "high_bit k s"
  proof (cases "d + k \<le> i")
    case True
    then have "bit s (i - d)" "k \<le> i - d" using i bit_TAUSWORTHE [OF p] by auto
    then show ?thesis by (auto simp: high_bit_def)
  next
    case False
    then have "bit s (b + i - a) \<or> bit s (b + i)" using i bit_TAUSWORTHE [OF p] by auto
    moreover have "k \<le> b + i - a" "k \<le> b + i" using a by linarith+
    ultimately show ?thesis unfolding high_bit_def by blast
  qed
next
  assume "high_bit k s"
  then obtain j where "k \<le> j" "bit s j" by (auto simp: high_bit_def)
  then show "high_bit k (TAUSWORTHE s a b c d)"
  proof (induction j rule: less_induct)
    case (less j)
    have j: "j < 32" using less.prems(2) bit_imp_le_length by fastforce
    show ?case
    proof (cases "j < b + k")
      case True
      then have "bit (TAUSWORTHE s a b c d) (j + d)" using bit_TAUSWORTHE [OF p] less.prems p(1) by simp
      then show ?thesis using less.prems(1) unfolding high_bit_def by (intro exI [of _ "j + d"]) simp
    next
      case False
      show ?thesis
      proof (cases "bit s (j - a)")
        case True
        then show ?thesis using less.IH [of "j - a"] a False by simp
      next
        case F: False
        have e: "b + (j - b) = j" "\<not> d + k \<le> j - b" using False j p(1) by linarith+
        have "bit (TAUSWORTHE s a b c d) (j - b)"
          unfolding bit_TAUSWORTHE [OF p] using F less.prems(2) e by simp
        moreover have "k \<le> j - b" using False by linarith
        ultimately show ?thesis unfolding high_bit_def by blast
      qed
    qed
  qed
qed

lemma taus88_ok_high:
  "taus88_ok st \<longleftrightarrow> high_bit 1 (s88_1 st) \<and> high_bit 3 (s88_2 st) \<and> high_bit 4 (s88_3 st)"
  by (simp add: taus88_ok_def high_bit_iff word_less_nat_alt) linarith

lemma not_mask_u32:
  "(4294967294 :: u32) = NOT (mask 1)" "(4294967288 :: u32) = NOT (mask 3)" "(4294967280 :: u32) = NOT (mask 4)"
  by (simp_all add: mask_numeral not_eq_complement) 

lemma rand32_ok: "taus88_ok (snd (rand32 st)) \<longleftrightarrow> taus88_ok st"
proof -
  have "high_bit 1 (TAUSWORTHE s 13 19 4294967294 12) \<longleftrightarrow> high_bit 1 s"
    "high_bit 3 (TAUSWORTHE s 2 25 4294967288 4) \<longleftrightarrow> high_bit 3 s"
    "high_bit 4 (TAUSWORTHE s 3 11 4294967280 17) \<longleftrightarrow> high_bit 4 s" for s
    using not_mask_u32 by (intro high_bit_TAUSWORTHE; simp)+
  then show ?thesis by (simp only: taus88_ok_high rand32_def Let_def snd_conv taus88_state.simps)
qed

lemma draws_ok: "taus88_ok (((\<lambda>st. snd (rand32 st)) ^^ n) st) \<longleftrightarrow> taus88_ok st"
  by (induction n) (simp_all add: rand32_ok)

section \<open>Scaling stays in range\<close>

lemma bitlen_le: "0 < n \<Longrightarrow> 2 ^ (bitlen n - 1) \<le> n"
proof (induction n rule: bitlen.induct)
  case (1 n)
  show ?case
  proof (cases "n div 2 = 0")
    case True
    then show ?thesis using 1(2) by (simp add: bitlen.simps [of n] bitlen.simps [of 0])
  next
    case False
    then have b: "bitlen n = Suc (Suc (bitlen (n div 2) - 1))" using 1(2)
      by (simp add: bitlen.simps [of n] bitlen.simps [of "n div 2"])
    have "2 ^ (bitlen (n div 2) - 1) \<le> n div 2" using 1 False by simp
    then show ?thesis using b by simp
  qed
qed

lemma rnd53_le: "rnd53 n * 2 ^ 53 \<le> n * (2 ^ 53 + 1)"
proof (cases "bitlen n - 53 = 0")
  case True
  then show ?thesis by (simp add: rnd53_def)
next
  case False
  define k where "k = bitlen n - 53"
  have k: "0 < k" "bitlen n = k + 53" using False by (simp_all add: k_def)
  have "0 < n" using k(2) by (cases "n = 0") (simp_all add: bitlen.simps [of 0])
  then have n: "2 ^ (k + 52) \<le> n" using bitlen_le [of n] k by (simp add: add.commute)
  have "rnd53 n \<le> n + 2 ^ (k - 1)"
  proof (cases "2 ^ (k - 1) < n mod 2 ^ k \<or> n mod 2 ^ k = 2 ^ (k - 1) \<and> odd (n div 2 ^ k)")
    case True
    then have r: "2 ^ (k - 1) \<le> n mod 2 ^ k" by auto
    have "rnd53 n = (n div 2 ^ k) * 2 ^ k + 2 ^ k" using True k by (simp add: rnd53_def Let_def)
    moreover have "(2 :: nat) ^ k = 2 ^ (k - 1) + 2 ^ (k - 1)" using k(1) by (cases k) simp_all
    moreover have "n = (n div 2 ^ k) * 2 ^ k + n mod 2 ^ k" by (rule div_mult_mod_eq [symmetric])
    ultimately show ?thesis using r by linarith
  next
    case F: False
    then have "rnd53 n = (n div 2 ^ k) * 2 ^ k" using k by (simp add: rnd53_def Let_def)
    then show ?thesis using div_times_less_eq_dividend [of n "2 ^ k"] by linarith
  qed
  then have "rnd53 n * 2 ^ 53 \<le> n * 2 ^ 53 + 2 ^ (k - 1) * 2 ^ 53" by simp
  also have "(2 :: nat) ^ (k - 1) * 2 ^ 53 = 2 ^ (k + 52)" using k(1) by (cases k) (simp_all add: power_add)
  finally show ?thesis using n by simp
qed

lemma bitlen_less: "n < 2 ^ k \<Longrightarrow> bitlen n \<le> k"
proof (induction n arbitrary: k rule: bitlen.induct)
  case (1 n)
  show ?case
  proof (cases "n = 0")
    case False
    with "1.prems" obtain j where j: "k = Suc j" by (cases k) auto
    then have "bitlen (n div 2) \<le> j" using 1 False by simp
    then show ?thesis using j False by (simp add: bitlen.simps [of n])
  qed (simp add: bitlen.simps)
qed

lemma rnd53_exact: "n < 2 ^ 53 \<Longrightarrow> rnd53 n = n"
  using bitlen_less [of n 53] by (simp add: rnd53_def)

lemma rnd53_scale:
  assumes "r < 2 ^ 32" "0 < e"
  shows "rnd53 (e * r) div 2 ^ 32 < e"
proof -
  have "rnd53 (e * r) * 2 ^ 53 \<le> e * r * (2 ^ 53 + 1)" by (rule rnd53_le)
  also have "\<dots> = e * (r * 2 ^ 53 + r)" by (simp add: algebra_simps)
  also have "\<dots> < e * (2 ^ 32 * 2 ^ 53)"
  proof -
    have "r * 2 ^ 53 + r < 2 ^ 32 * 2 ^ 53" using assms(1) by simp
    then show ?thesis using assms(2) by simp
  qed
  finally have "rnd53 (e * r) < e * 2 ^ 32" by simp
  then show ?thesis by (simp add: less_mult_imp_div_less)
qed

section \<open>Filling ends\<close>

lemma length_fill_random_bytes [simp]: "length (fill_random_bytes len seed) = len"
  by (induction len seed rule: fill_random_bytes.induct)
     (subst fill_random_bytes.simps, auto simp: Let_def)

lemma fill_part_returns:
  assumes "length buf < 2 ^ 32" "length pattern < 2 ^ 32"
  shows "\<exists>z. fill_part pattern buf = Some (Inr z) \<and> length z = length buf"
proof (cases "pattern = [] \<or> buf = []")
  case True
  then show ?thesis by (auto simp: fill_part_def cpy_pattern_def)
next
  case False
  then obtain out' where "cpy_pattern pattern buf = Inr (Some (Inr out'))" "length out' = length buf"
    using cpy_pattern_periodic [of pattern buf] assms by blast
  then show ?thesis using False by (simp add: fill_part_def)
qed

lemma fill_pct_loop_returns:
  assumes "0 < pct_len pct seg \<or> length buf \<le> 8" "length buf < 2 ^ 32" "length pattern < 2 ^ 32"
  shows "\<exists>out. fill_pct_loop seed pct seg pattern buf = Some (Inr out) \<and> length out = length buf"
  using assms
proof (induction "length buf" arbitrary: buf rule: less_induct)
  case less
  define this_len where "this_len = min (pct_len pct seg) (length buf)"
  define rest where "rest = drop this_len buf"
  define zl where "zl = pct_zero_len this_len (length rest)"
  note unfold = fill_pct_loop.simps [of seed pct seg pattern buf, unfolded Let_def,
      folded this_len_def, folded rest_def, folded zl_def]
  have tl: "this_len \<le> length buf" by (simp add: this_len_def)
  show ?case
  proof (cases "buf = [] \<or> rest = []")
    case True
    then show ?thesis using tl unfold by (auto simp: rest_def)
  next
    case False
    have zl: "zl \<le> length rest" by (simp add: zl_def pct_zero_len_def)
    have "length (drop zl rest) < length buf" "length (drop zl rest) \<le> 8 \<or> 0 < pct_len pct seg"
      using False less.prems(1) by (auto simp: rest_def zl_def pct_zero_len_def this_len_def)
    then obtain r where r: "fill_pct_loop seed pct seg pattern (drop zl rest) = Some (Inr r)" "length r = length rest - zl"
      using less.hyps [of "drop zl rest"] less.prems by auto
    have "zl < 2 ^ 32" using zl less.prems(2) by (simp add: rest_def)
    then obtain z where z: "fill_part pattern (take zl rest) = Some (Inr z)" "length z = zl"
      using fill_part_returns [of "take zl rest" pattern] less.prems(3) zl by (metis length_take min.absorb2)
    show ?thesis unfolding unfold using False r z zl tl by (simp add: rest_def)
  qed
qed

text \<open>With no random bytes in a segment and more than eight bytes to go, an iteration changes nothing.\<close>

lemma fill_pct_loop_stuck:
  assumes "fill_pct_loop seed pct seg pattern buf = Some out"
  shows "0 < pct_len pct seg \<or> length buf \<le> 8"
  using assms
proof (induction rule: fill_pct_loop.raw_induct [rotated 1, consumes 1, case_names step])
  case (step f seed pct seg pattern buf out)
  show ?case
  proof (rule ccontr)
    assume "\<not> ?thesis"
    then have s: "pct_len pct seg = 0" "8 < length buf" by simp_all
    then have "buf \<noteq> []" by auto
    then have "Option.bind (fill_part pattern []) (\<lambda>z. Option.bind (f seed pct seg pattern buf) (\<lambda>r.
        Some (bindr z (\<lambda>z. bindr r (\<lambda>r. Inr (fill_random_bytes 0 seed @ z @ r)))))) = Some out"
      using step(2) s by (simp add: Let_def pct_zero_len_def)
    then obtain r where "f seed pct seg pattern buf = Some r" by (auto simp: bind_eq_Some_conv)
    then show False using step(1) s by fastforce
  qed
qed

lemma fill_percentage_unfold:
  assumes "pct \<noteq> 100" "length buf < 2 ^ 32"
  shows "fill_random_bytes_percentage seed pct seg pattern buf =
    fill_pct_loop seed pct (min seg (of_nat (length buf))) pattern buf"
proof -
  have "unat (of_nat (length buf) :: u32) = length buf"
    using assms(2) by (simp add: unsigned_of_nat take_bit_nat_eq_self)
  then show ?thesis using assms(1)
    by (auto simp: fill_random_bytes_percentage_def min_def word_le_nat_alt Let_def)
qed

section \<open>Seeds\<close>

lemma seed_above_u32:
  fixes x m :: u32
  shows "ucast (seed_above (ucast x) (ucast m)) = (if x < m then x + m else x)"
proof -
  have "n mod 2 ^ 64 mod 2 ^ 32 = n mod (2 ^ 32 :: nat)" for n by (rule mod_mod_cancel) (simp add: dvd_def)
  then have "(ucast (ucast x + ucast m :: u64) :: u32) = x + m"
    by (simp add: word_unat_eq_iff unat_ucast unat_word_ariths)
  moreover have "(ucast x :: u64) < ucast m \<longleftrightarrow> x < m" by (simp add: word_less_nat_alt)
  moreover have "(ucast (ucast x :: u64) :: u32) = x" using unat_u32_less [of x] by (simp add: word_unat_eq_iff unat_ucast)
  ultimately show ?thesis by (simp add: seed_above_def)
qed

section \<open>Properties\<close>





text \<open>
  C40. The state of the 32-bit generator meets the requirement of the erratum after any number of
  draws exactly when the three words computed from the seed do; two or more values of each are
  refused by the generator's theory but accepted by the seeding.
\<close>

theorem rand32_seed_valid:
  "taus88_ok (((\<lambda>st. snd (rand32 st)) ^^ n) (init_rand32 seed)) \<longleftrightarrow>
    (let x1 = LCG 53 seed; x2 = LCG x1 seed; x3 = LCG (if x2 < 7 then x2 + 7 else x2) seed
     in x1 \<notin> {0, 1} \<and> x2 \<notin> {0, 7} \<and> x3 \<notin> {0, 15})"
proof -
  have c: "(of_int lcg_start :: u32) = 53" by (simp add: lcg_start_def)
  have above: "m < (if x < m then x + m else x) \<longleftrightarrow> x \<notin> {0, m}" if "m < 2 ^ 31" for x m :: u32
  proof (cases "x < m")
    case True
    then have "unat (x + m) = unat x + unat m" using that by (intro unat_add_no_wrap) (simp add: word_less_nat_alt)
    then show ?thesis using True by (auto simp: word_less_nat_alt word_unat_eq_iff)
  next
    case False
    then show ?thesis using that by (auto simp: word_less_nat_alt word_unat_eq_iff)
  qed
  have m: "(1 :: u64) = ucast (1 :: u32)" "(7 :: u64) = ucast (7 :: u32)" "(15 :: u64) = ucast (15 :: u32)" by simp_all
  define y1 where "y1 = (if LCG 53 seed < 1 then LCG 53 seed + 1 else LCG 53 seed)"
  have y1: "1 < y1 \<longleftrightarrow> LCG 53 seed \<notin> {0, 1}" unfolding y1_def by (rule above) simp
  have 1: "y1 = LCG 53 seed" if "LCG 53 seed \<noteq> 0"
    using that by (auto simp: y1_def word_less_nat_alt word_unat_eq_iff)
  have "taus88_ok (((\<lambda>st. snd (rand32 st)) ^^ n) (init_rand32 seed)) \<longleftrightarrow>
      (let x2 = LCG y1 seed; y2 = if x2 < 7 then x2 + 7 else x2; x3 = LCG y2 seed
       in 1 < y1 \<and> 7 < y2 \<and> 15 < (if x3 < 15 then x3 + 15 else x3))"
    unfolding draws_ok init_rand32_def Let_def c m seed_above_u32 y1_def [symmetric]
    unfolding taus88_ok_def taus88_state.simps ..
  also have "\<dots> \<longleftrightarrow> LCG 53 seed \<notin> {0, 1} \<and>
      (let x2 = LCG y1 seed; x3 = LCG (if x2 < 7 then x2 + 7 else x2) seed in x2 \<notin> {0, 7} \<and> x3 \<notin> {0, 15})"
    unfolding Let_def y1 by (simp only: above [of 7, simplified] above [of 15, simplified])
      (simp only: insert_iff empty_iff simp_thms de_Morgan_disj)
  finally show ?thesis using 1 unfolding Let_def by (cases "LCG 53 seed = 0") simp_all
qed

end
