(* ===== verification/Flist_Sort.thy ===== *)
theory Flist_Sort
  imports Fio_Prelude "HOL-Library.Multiset"
begin

text \<open>
  The bottom-up merge sort of \<open>lib/flist_sort.c\<close>.  A null-terminated list is a HOL list and the
  null pointer is the empty list; the links restored at the end are those of the list of results.
\<close>

section \<open>Definitions\<close>

definition MAX_LIST_LENGTH_BITS :: nat where
  "MAX_LIST_LENGTH_BITS = 20"

fun merge :: "('a \<Rightarrow> 'a \<Rightarrow> int) \<Rightarrow> 'a list \<Rightarrow> 'a list \<Rightarrow> 'a list" where
  "merge cmp (a # as) (b # bs) =
    (if cmp a b \<le> 0 then a # merge cmp as (b # bs) else b # merge cmp (a # as) bs)"
| "merge cmp [] bs = bs"
| "merge cmp as [] = as"

text \<open>
  The last merge also walks over the rest of the list; \<open>tail->next\<close> is followed before it is
  tested, so that both lists being empty would be an error.
\<close>

definition merge_and_restore_back_links :: "('a \<Rightarrow> 'a \<Rightarrow> int) \<Rightarrow> 'a list \<Rightarrow> 'a list \<Rightarrow> 'a list res" where
  "merge_and_restore_back_links cmp a b = (if a = [] \<and> b = [] then Inl Null_deref else Inr (merge cmp a b))"

text \<open>The inner loop: merge with the partial lists up to the first empty slot.\<close>

function sort_carry :: "('a \<Rightarrow> 'a \<Rightarrow> int) \<Rightarrow> 'a list list \<Rightarrow> nat \<Rightarrow> 'a list \<Rightarrow> (nat \<times> 'a list list \<times> 'a list) res" where
  "sort_carry cmp part lev cur =
    (if lev \<ge> length part then Inl Out_of_bounds
     else if part ! lev = [] then Inr (lev, part, cur)
     else sort_carry cmp (part[lev := []]) (lev + 1) (merge cmp (part ! lev) cur))"
  by pat_completeness auto
termination by (relation "measure (\<lambda>(cmp, part, lev, cur). length part - lev)") auto

declare sort_carry.simps [simp del]

definition sort_insert :: "('a \<Rightarrow> 'a \<Rightarrow> int) \<Rightarrow> 'a list list \<Rightarrow> nat \<Rightarrow> 'a \<Rightarrow> ('a list list \<times> nat) res" where
  "sort_insert cmp part max_lev x =
    bindr (sort_carry cmp part 0 [x]) (\<lambda>(lev, part, cur).
      let lev' = (if lev > max_lev \<and> lev \<ge> MAX_LIST_LENGTH_BITS then lev - 1 else lev);
          max_lev = (if lev > max_lev then lev' else max_lev)
      in bindr (wr part lev' cur) (\<lambda>part. Inr (part, max_lev)))"

fun sort_loop :: "('a \<Rightarrow> 'a \<Rightarrow> int) \<Rightarrow> 'a list list \<Rightarrow> nat \<Rightarrow> 'a list \<Rightarrow> ('a list list \<times> nat) res" where
  "sort_loop cmp part max_lev [] = Inr (part, max_lev)"
| "sort_loop cmp part max_lev (x # xs) =
    bindr (sort_insert cmp part max_lev x) (\<lambda>(part, max_lev). sort_loop cmp part max_lev xs)"

definition sort_collect :: "('a \<Rightarrow> 'a \<Rightarrow> int) \<Rightarrow> 'a list list \<Rightarrow> nat \<Rightarrow> 'a list" where
  "sort_collect cmp part max_lev =
    fold (\<lambda>lev list. if part ! lev \<noteq> [] then merge cmp (part ! lev) list else list) [0..<max_lev] []"

definition flist_sort :: "('a \<Rightarrow> 'a \<Rightarrow> int) \<Rightarrow> 'a list \<Rightarrow> 'a list res" where
  "flist_sort cmp xs =
    (if xs = [] then Inr []
     else bindr (sort_loop cmp (replicate (MAX_LIST_LENGTH_BITS + 1) []) 0 xs) (\<lambda>(part, max_lev).
       merge_and_restore_back_links cmp (part ! max_lev) (sort_collect cmp part max_lev)))"

section \<open>Merging\<close>

definition cmp_by :: "('a \<Rightarrow> 'b::linorder) \<Rightarrow> ('a \<Rightarrow> 'a \<Rightarrow> int) \<Rightarrow> bool" where
  "cmp_by key cmp \<longleftrightarrow> (\<forall>a b. cmp a b \<le> 0 \<longleftrightarrow> key a \<le> key b)"

lemma mset_merge [simp]: "mset (merge cmp as bs) = mset as + mset bs"
  by (induction cmp as bs rule: merge.induct) simp_all

lemma set_merge [simp]: "set (merge cmp as bs) = set as \<union> set bs"
  by (induction cmp as bs rule: merge.induct) auto

lemma merge_Nil2 [simp]: "merge cmp as [] = as"
  by (cases as) simp_all

lemma merge_eq_Nil [simp]: "merge cmp as bs = [] \<longleftrightarrow> as = [] \<and> bs = []"
  by (induction cmp as bs rule: merge.induct) auto

lemma sorted_merge:
  assumes "cmp_by key cmp"
  shows "sorted (map key as) \<Longrightarrow> sorted (map key bs) \<Longrightarrow> sorted (map key (merge cmp as bs))"
  using assms by (induction cmp as bs rule: merge.induct) (fastforce simp: cmp_by_def)+

lemma filter_merge:
  assumes "cmp_by key cmp" "sorted (map key as)" "sorted (map key bs)"
  shows "filter (\<lambda>x. key x = k) (merge cmp as bs) = filter (\<lambda>x. key x = k) as @ filter (\<lambda>x. key x = k) bs"
  using assms
proof (induction cmp as bs rule: merge.induct)
  case (1 cmp a as b bs)
  show ?case
  proof (cases "cmp a b \<le> 0")
    case True
    then show ?thesis using 1 by simp
  next
    case False
    then have "key b < key a" using 1(3) by (metis cmp_by_def not_le)
    then have "filter (\<lambda>x. key x = k) (a # as) = []" if "key b = k"
      using 1(4) that by (auto simp: filter_empty_conv)
    then show ?thesis using 1 False by auto
  qed
qed simp_all

lemma merge_sort_key:
  assumes "cmp_by key cmp"
  shows "merge cmp (sort_key key xs) (sort_key key ys) = sort_key key (xs @ ys)"
proof (rule sym, rule properties_for_sort_key)
  show "mset (merge cmp (sort_key key xs) (sort_key key ys)) = mset (xs @ ys)" by simp
  show "sorted (map key (merge cmp (sort_key key xs) (sort_key key ys)))"
    by (rule sorted_merge [OF assms]) simp_all
  fix k
  have "filter (\<lambda>x. key x = key k) (merge cmp (sort_key key xs) (sort_key key ys)) = filter (\<lambda>x. key x = key k) (xs @ ys)"
    by (simp add: filter_merge [OF assms] sort_key_stable)
  then show "filter (\<lambda>x. key k = key x) (merge cmp (sort_key key xs) (sort_key key ys)) = filter (\<lambda>x. key k = key x) (xs @ ys)"
    by (simp add: eq_commute [of "key k"])
qed

section \<open>The partial lists\<close>

text \<open>
  Slot \<open>i\<close> of the array holds the sorted form of a segment of the input; the segments of higher
  slots come first.
\<close>

lemma sort_key_eq_Nil [simp]: "sort_key key xs = [] \<longleftrightarrow> xs = []"
  by (metis length_0_conv length_sort)

lemma concat_Nils: "\<forall>x\<in>set xs. x = [] \<Longrightarrow> concat xs = []"
  by simp

lemma sort_carry_segs:
  assumes "cmp_by key cmp" "[] \<in> set t"
  shows "sort_carry cmp (replicate lev [] @ map (sort_key key) t) lev (sort_key key s) =
    (let k = length (takeWhile (\<lambda>x. x \<noteq> []) t)
     in Inr (lev + k, replicate (lev + k) [] @ map (sort_key key) (drop k t),
             sort_key key (concat (rev (take k t)) @ s)))"
  using assms(2)
proof (induction t arbitrary: lev s)
  case (Cons x t)
  show ?case
  proof (cases "x = []")
    case True
    then show ?thesis by (subst sort_carry.simps) (simp add: nth_append)
  next
    case False
    have "sort_carry cmp (replicate lev [] @ map (sort_key key) (x # t)) lev (sort_key key s) =
        sort_carry cmp (replicate (lev + 1) [] @ map (sort_key key) t) (lev + 1) (sort_key key (x @ s))"
      using False merge_sort_key [OF assms(1), of x s]
      by (subst sort_carry.simps) (simp add: nth_append list_update_append replicate_append_same [symmetric])
    with Cons.IH [of "lev + 1" "x @ s"] Cons.prems False show ?thesis
      by (simp add: Let_def)
  qed
qed simp

definition parts_ok :: "('a \<Rightarrow> 'b::linorder) \<Rightarrow> 'a list list \<Rightarrow> nat \<Rightarrow> 'a list \<Rightarrow> bool" where
  "parts_ok key part max_lev pre \<longleftrightarrow>
    (\<exists>segs. part = map (sort_key key) segs \<and> length segs = MAX_LIST_LENGTH_BITS + 1 \<and>
      max_lev < MAX_LIST_LENGTH_BITS \<and> (\<forall>i. max_lev < i \<and> i \<le> MAX_LIST_LENGTH_BITS \<longrightarrow> segs ! i = []) \<and>
      concat (rev segs) = pre)"

lemma concat_rev_slot:
  assumes "i < length segs" "\<forall>j\<le>i. segs ! j = []"
  shows "concat (rev (segs[i := s])) = concat (rev segs) @ s"
proof -
  have "\<forall>x\<in>set (take i segs). x = []" using assms by (auto simp: in_set_conv_nth)
  then have "concat (rev (take i segs)) = []" by simp
  moreover have "segs = take i segs @ [] # drop (Suc i) segs"
    using id_take_nth_drop [OF assms(1)] assms(2) by simp
  then have "concat (rev segs) = concat (rev (drop (Suc i) segs)) @ concat (rev (take i segs))"
    by (metis append_Nil concat.simps(2) concat_append rev_append rev.simps(2) append_Nil2 concat.simps(1))
  ultimately show ?thesis using assms(1)
    by (simp only: upd_conv_take_nth_drop rev_append rev.simps concat_append concat.simps append_Nil append_Nil2)
qed

lemma takeWhile_slot:
  assumes "t ! m = []" "m < length t"
  defines "k \<equiv> length (takeWhile (\<lambda>x. x \<noteq> []) t)"
  shows "k \<le> m" "t ! k = []"
proof -
  show km: "k \<le> m"
  proof (rule ccontr)
    assume "\<not> k \<le> m"
    then have m: "m < length (takeWhile (\<lambda>x. x \<noteq> []) t)" by (simp add: k_def)
    from set_takeWhileD [OF nth_mem [OF m]] have "takeWhile (\<lambda>x. x \<noteq> []) t ! m \<noteq> []" by (rule conjunct2)
    then show False using takeWhile_nth [OF m] assms(1) by simp
  qed
  from km show "t ! k = []" using assms(2) nth_length_takeWhile [of "\<lambda>x. x \<noteq> []" t] by (simp add: k_def)
qed

lemma sort_insert_ok:
  assumes c: "cmp_by key cmp" and ok: "parts_ok key part m pre"
  shows "\<exists>part' m'. sort_insert cmp part m x = Inr (part', m') \<and> parts_ok key part' m' (pre @ [x])"
proof -
  obtain segs where s: "part = map (sort_key key) segs" "length segs = MAX_LIST_LENGTH_BITS + 1"
    "m < MAX_LIST_LENGTH_BITS" "\<And>i. m < i \<Longrightarrow> i \<le> MAX_LIST_LENGTH_BITS \<Longrightarrow> segs ! i = []"
    "concat (rev segs) = pre" using ok by (auto simp: parts_ok_def)
  define k where "k = length (takeWhile (\<lambda>x. x \<noteq> []) segs)"
  have k: "k \<le> m + 1" "segs ! k = []"
    using takeWhile_slot [of segs "m + 1"] s(2-4) by (simp_all add: k_def)
  have kl: "k < length segs" using k(1) s(2,3) by simp
  define segs1 where "segs1 = replicate k [] @ drop k segs"
  define c where "c = concat (rev (take k segs)) @ [x]"
  have "[] \<in> set segs" using k(2) kl by (metis nth_mem)
  from sort_carry_segs [OF c this, of 0 "[x]"]
  have carry: "sort_carry cmp part 0 [x] = Inr (k, map (sort_key key) segs1, sort_key key c)"
    by (simp add: s(1) k_def [symmetric] segs1_def c_def Let_def)
  have l1: "length segs1 = length segs" using kl by (simp add: segs1_def)
  have e1: "\<forall>j\<le>k. segs1 ! j = []" using k(2) kl by (auto simp: segs1_def nth_append)
  have "concat (rev segs) = concat (rev (drop k segs)) @ concat (rev (take k segs))"
    by (metis append_take_drop_id concat_append rev_append)
  moreover have "concat (rev segs1) = concat (rev (drop k segs))" by (simp add: segs1_def)
  ultimately have pre: "concat (rev segs1) @ c = pre @ [x]" using s(5) by (simp add: c_def)
  define lev where "lev = (if k > m \<and> k \<ge> MAX_LIST_LENGTH_BITS then k - 1 else k)"
  define m' where "m' = (if k > m then lev else m)"
  have lev: "lev \<le> k" by (simp add: lev_def)
  have "sort_insert cmp part m x = Inr (map (sort_key key) (segs1[lev := c]), m')"
    unfolding sort_insert_def carry bindr_simps prod.case Let_def lev_def [symmetric] m'_def [symmetric]
    using lev kl l1 by (simp add: map_update)
  moreover have "parts_ok key (map (sort_key key) (segs1[lev := c])) m' (pre @ [x])"
    unfolding parts_ok_def
  proof (intro exI [of _ "segs1[lev := c]"] conjI allI impI)
    show "length (segs1[lev := c]) = MAX_LIST_LENGTH_BITS + 1" using l1 s(2) by simp
    show "m' < MAX_LIST_LENGTH_BITS" using s(3) k(1) by (auto simp: m'_def lev_def)
    show "concat (rev (segs1[lev := c])) = pre @ [x]"
      using concat_rev_slot [of lev segs1 c] lev kl l1 e1 pre by simp
    fix i
    assume i: "m' < i \<and> i \<le> MAX_LIST_LENGTH_BITS"
    then have "i \<noteq> lev" "i \<le> k \<or> m < i" using k(1) by (auto simp: m'_def lev_def split: if_splits)
    then show "segs1[lev := c] ! i = []"
      using e1 s(4) i kl l1 by (auto simp: segs1_def nth_append)
  qed simp
  ultimately show ?thesis by blast
qed

lemma sort_loop_ok:
  assumes "cmp_by key cmp" "parts_ok key part m pre"
  shows "\<exists>part' m'. sort_loop cmp part m xs = Inr (part', m') \<and> parts_ok key part' m' (pre @ xs)"
  using assms(2)
proof (induction xs arbitrary: part m pre)
  case (Cons x xs)
  then show ?case using sort_insert_ok [OF assms(1), of part m pre x] by fastforce
qed simp

lemma sort_collect_eq:
  assumes "cmp_by key cmp" "m \<le> length segs"
  shows "sort_collect cmp (map (sort_key key) segs) m = sort_key key (concat (rev (take m segs)))"
  using assms(2)
proof (induction m)
  case (Suc m)
  then show ?case using merge_sort_key [OF assms(1), of "segs ! m" "concat (rev (take m segs))"]
    by (simp add: sort_collect_def take_Suc_conv_app_nth)
qed (simp add: sort_collect_def)

lemma flist_sort_key:
  assumes "cmp_by key cmp"
  shows "flist_sort cmp xs = Inr (sort_key key xs)"
proof (cases "xs = []")
  case False
  have "parts_ok key (replicate (MAX_LIST_LENGTH_BITS + 1) []) 0 []"
    unfolding parts_ok_def
    by (intro exI [of _ "replicate (MAX_LIST_LENGTH_BITS + 1) []"])
       (auto simp: MAX_LIST_LENGTH_BITS_def nth_append simp del: replicate_Suc)
  from sort_loop_ok [OF assms this, of xs] obtain part m where
    l: "sort_loop cmp (replicate (MAX_LIST_LENGTH_BITS + 1) []) 0 xs = Inr (part, m)" and "parts_ok key part m xs" by auto
  then obtain segs where s: "part = map (sort_key key) segs" "length segs = MAX_LIST_LENGTH_BITS + 1"
    "m < MAX_LIST_LENGTH_BITS" "\<And>i. m < i \<Longrightarrow> i \<le> MAX_LIST_LENGTH_BITS \<Longrightarrow> segs ! i = []"
    "concat (rev segs) = xs" by (auto simp: parts_ok_def)
  have "\<forall>x\<in>set (drop (Suc m) segs). x = []" using s(2-4) by (auto simp: in_set_conv_nth)
  then have d: "concat (rev (drop (Suc m) segs)) = []" by simp
  have "xs = concat (rev (drop (Suc m) segs)) @ concat (rev (take (Suc m) segs))"
    using s(5) by (metis append_take_drop_id concat_append rev_append)
  then have xs: "xs = segs ! m @ concat (rev (take m segs))"
    using d s(2,3) by (simp add: take_Suc_conv_app_nth)
  have "merge cmp (part ! m) (sort_collect cmp part m) = sort_key key xs"
    using s(1-3) merge_sort_key [OF assms] sort_collect_eq [OF assms, of m segs] xs by simp
  moreover have "\<not> (part ! m = [] \<and> sort_collect cmp part m = [])"
    using False calculation by (metis merge_eq_Nil sort_key_eq_Nil)
  ultimately show ?thesis using False l by (simp add: flist_sort_def merge_and_restore_back_links_def)
qed (simp add: flist_sort_def)

section \<open>Properties\<close>

text \<open>
  C30. \<open>flist_sort\<close> is a stable sort for every length of list, with no access outside its array of
  21 partial lists: with a comparison that orders by a key it returns the stable sort by that key,
  also for more elements than the array is meant for.
\<close>

theorem flist_sort_stable:
  assumes "\<forall>a b. cmp a b \<le> 0 \<longleftrightarrow> key a \<le> (key b :: 'b::linorder)"
  shows "flist_sort cmp xs = Inr (sort_key key xs)"
  using assms by (intro flist_sort_key) (simp add: cmp_by_def)

theorem flist_sort_stable_witness:
  "flist_sort (\<lambda>a b :: int \<times> int. fst a - fst b) [(3, 1), (1, 2), (3, 3), (2, 4)] =
    Inr (sort_key fst [(3, 1), (1, 2), (3, 3), (2, 4)])"
  by (rule flist_sort_stable) simp

end
