(* ===== verification/Io_U.thy ===== *)
theory Io_U
  imports Bitops Axmap Lfsr Rand Flist_Sort
begin

text \<open>
  How \<open>io_u.c\<close> chooses the offset and the length of the next I/O unit: the random offsets with
  their map of used blocks, the zoned distributions, the sequential offsets, the block sizes, and
  \<open>fill_io_u\<close>, which puts them together; with \<open>fio_file_reset\<close> and \<open>get_start_offset\<close> of
  \<open>filesetup.c\<close>.  The state is the part of \<open>struct thread_data\<close>, \<open>struct fio_file\<close> and
  \<open>struct io_u\<close> that this code reads or writes, passed explicitly.

  The zipf, pareto and gauss generators compute with \<open>pow\<close> and other functions of the C
  mathematics library.  They are the argument \<open>dist_next\<close> of the definitions that call them, on a
  state of any type kept in the file.  Log messages and the invalidation of the page cache are
  left out, as are the hooks of the profile plug-ins.
\<close>

section \<open>State\<close>

datatype fio_ddir = DDIR_READ | DDIR_WRITE | DDIR_TRIM | DDIR_SYNC | DDIR_DATASYNC | DDIR_SYNC_FILE_RANGE
  | DDIR_WAIT | DDIR_LAST | DDIR_INVAL

definition ddir_rw :: "fio_ddir \<Rightarrow> bool" where
  "ddir_rw ddir \<longleftrightarrow> ddir = DDIR_READ \<or> ddir = DDIR_WRITE \<or> ddir = DDIR_TRIM"

definition ddir_sync :: "fio_ddir \<Rightarrow> bool" where
  "ddir_sync ddir \<longleftrightarrow> ddir = DDIR_SYNC \<or> ddir = DDIR_DATASYNC \<or> ddir = DDIR_SYNC_FILE_RANGE"

datatype rand_gen = FIO_RAND_GEN_TAUSWORTHE | FIO_RAND_GEN_LFSR | FIO_RAND_GEN_TAUSWORTHE64

datatype rand_dist = FIO_RAND_DIST_RANDOM | FIO_RAND_DIST_ZIPF | FIO_RAND_DIST_PARETO
  | FIO_RAND_DIST_GAUSS | FIO_RAND_DIST_ZONED | FIO_RAND_DIST_ZONED_ABS

text \<open>The order of directions per array is that of the indices \<open>DDIR_READ\<close>, \<open>DDIR_WRITE\<close>, \<open>DDIR_TRIM\<close>.\<close>

record bssplit =
  split_bs :: u32
  split_perc :: u32

record zone_split_index =
  size_perc :: u8
  size_perc_prev :: u8
  zsize :: u64
  zsize_prev :: u64

record thread_options =
  td_ddir :: u32
  rw_seq :: u32
  ddir_seq_nr :: u32
  ddir_seq_add :: int
  file_append :: bool
  start_offset :: u64
  start_offset_align :: "u64 option"
  start_offset_percent :: u32
  offset_increment :: u64
  min_bs :: "fio_ddir \<Rightarrow> u32"
  max_bs :: "fio_ddir \<Rightarrow> u32"
  ba :: "fio_ddir \<Rightarrow> u32"
  bssplit_of :: "fio_ddir \<Rightarrow> bssplit list"
  bs_unaligned :: bool
  bs_is_seq_rand :: bool
  norandommap :: bool
  random_generator :: rand_gen
  random_distribution :: rand_dist
  perc_rand :: "fio_ddir \<Rightarrow> u32"
  zone_split_nr :: "fio_ddir \<Rightarrow> u32"
  zone_range :: u64
  zone_size :: u64
  zone_skip :: u64
  verifysort_nr :: u32
  do_verify :: bool
  time_based :: bool
  fservice_nonuniform :: bool

record thread_data =
  opts :: thread_options
  subjob_number :: u32
  random_state :: frand_state
  bsrange_state :: "fio_ddir \<Rightarrow> frand_state"
  seq_rand_state :: "fio_ddir \<Rightarrow> frand_state"
  zone_state :: frand_state
  zone_state_index :: "fio_ddir \<Rightarrow> zone_split_index list"
  rand_seed_off :: u64
  next_rand_list :: "u64 list"
  verifying :: bool
  td_seq_nr :: u32
  zone_bytes :: u64
  io_skip_bytes :: u64

record 'z fio_file =
  real_file_size :: u64
  file_offset :: u64
  io_size :: u64
  last_pos :: "fio_ddir \<Rightarrow> u64"
  last_start :: "fio_ddir \<Rightarrow> u64"
  regular_file :: bool
  io_axmap :: "axmap option"
  lfsr :: "fio_lfsr option"
  dist_state :: 'z

record io_u =
  io_ddir :: fio_ddir
  io_offset :: u64
  io_buflen :: u64
  busy_ok :: bool

text \<open>The bit 4 of the direction of a job is \<open>TD_DDIR_RAND\<close>.\<close>

definition td_random :: "thread_data \<Rightarrow> bool" where
  "td_random td \<longleftrightarrow> td_ddir (opts td) AND 4 \<noteq> 0"

text \<open>The flag \<open>FIO_FILE_axmap\<close> is set exactly with the pointer to a map.\<close>

definition file_randommap :: "thread_data \<Rightarrow> 'z fio_file \<Rightarrow> bool" where
  "file_randommap td f \<longleftrightarrow> \<not> norandommap (opts td) \<and> io_axmap f \<noteq> None"

section \<open>Files\<close>

definition fio_file_reset :: "thread_data \<Rightarrow> 'z fio_file \<Rightarrow> 'z fio_file" where
  "fio_file_reset td f =
    (let f = f\<lparr>last_pos := \<lambda>_. file_offset f, last_start := \<lambda>_. - 1\<rparr>
     in case io_axmap f of
          Some am \<Rightarrow> f\<lparr>io_axmap := Some (axmap_reset am)\<rparr>
        | None \<Rightarrow> (case lfsr f of
              Some fl \<Rightarrow> f\<lparr>lfsr := Some (snd (lfsr_reset fl (rand_seed_off td)))\<rparr>
            | None \<Rightarrow> f))"

definition td_min_bs :: "thread_data \<Rightarrow> u32" where
  "td_min_bs td =
    (let b = min (min_bs (opts td) DDIR_READ) (min_bs (opts td) DDIR_WRITE)
     in min (min_bs (opts td) DDIR_TRIM) b)"

definition get_start_offset :: "thread_data \<Rightarrow> 'z fio_file \<Rightarrow> u64 res" where
  "get_start_offset td f =
    (let op = opts td in
     if file_append op \<and> regular_file f then Inr (real_file_size f)
     else if start_offset_percent op > 0
     then let align_bs = (case start_offset_align op of Some a \<Rightarrow> a | None \<Rightarrow> ucast (td_min_bs td));
              offset = real_file_size f * ucast (start_offset_percent op) div 100 +
                       ucast (subjob_number td) * offset_increment op
          in bindr (udiv offset align_bs) (\<lambda>q. bindr (umod offset align_bs) (\<lambda>r.
               Inr ((q + (if r \<noteq> 0 then 1 else 0)) * align_bs)))
     else Inr (start_offset op + ucast (subjob_number td) * offset_increment op))"

section \<open>The map of used blocks\<close>

definition random_map_free :: "'z fio_file \<Rightarrow> u64 \<Rightarrow> bool res" where
  "random_map_free f block =
    (case io_axmap f of
       None \<Rightarrow> Inl Null_deref
     | Some am \<Rightarrow> bindr (axmap_isset am block) (\<lambda>b. Inr (\<not> b)))"

definition mark_random_map :: "thread_data \<Rightarrow> io_u \<Rightarrow> 'z fio_file \<Rightarrow> (io_u \<times> 'z fio_file) res" where
  "mark_random_map td io f =
    (let mbs = min_bs (opts td) (io_ddir io) in
     bindr (udiv (io_offset io - file_offset f) (ucast mbs)) (\<lambda>block.
     bindr (udiv (io_buflen io + ucast mbs - 1) (ucast mbs)) (\<lambda>nr.
     bindr (if busy_ok io then Inr (ucast nr, f)
            else case io_axmap f of
                   None \<Rightarrow> Inl Null_deref
                 | Some am \<Rightarrow> bindr (axmap_set_nr am block (ucast nr)) (\<lambda>(n, am'). Inr (n, f\<lparr>io_axmap := Some am'\<rparr>)))
       (\<lambda>(nr_blocks, f). let len = ucast (nr_blocks * mbs :: u32)
          in Inr (if len < io_buflen io then io\<lparr>io_buflen := len\<rparr> else io, f)))))"

section \<open>Random offsets\<close>

definition last_block :: "thread_data \<Rightarrow> 'z fio_file \<Rightarrow> fio_ddir \<Rightarrow> u64 res" where
  "last_block td f ddir = assertr (ddir_rw ddir)
    (let op = opts td;
         max_size = (if io_size f > real_file_size f then real_file_size f else io_size f);
         max_size = (if zone_range op \<noteq> 0 then zone_range op else max_size);
         max_size = (if min_bs op ddir > ba op ddir then max_size - ucast (min_bs op ddir - ba op ddir) else max_size)
     in udiv max_size (ucast (ba op ddir)))"

text \<open>
  \<open>lastb * (r / (rand_max + 1.0))\<close>, converted to an unsigned integer: both operands are rounded to
  doubles, the division by a power of two is exact, and the product is rounded again.
\<close>

definition rand_scale :: "frand_state \<Rightarrow> u64 \<Rightarrow> u64 \<Rightarrow> u64 res" where
  "rand_scale st lastb r =
    (let k = (case st of State32 _ \<Rightarrow> 32 | State64 _ \<Rightarrow> 64);
         v = rnd53 (rnd53 (unat lastb) * rnd53 (unat r)) div 2 ^ k
     in if v < 2 ^ 64 then Inr (of_nat v) else Inl Float_range)"

text \<open>
  An offset function returns the block, or \<open>None\<close> for the return value 1, with the new state.
\<close>

definition draw_block :: "thread_data \<Rightarrow> 'z fio_file \<Rightarrow> u64 \<Rightarrow> (u64 option \<times> thread_data \<times> 'z fio_file) comp" where
  "draw_block td f lastb =
    (if random_generator (opts td) \<noteq> FIO_RAND_GEN_LFSR
     then let (r, st) = rand_next (random_state td)
          in Some (bindr (rand_scale (random_state td) lastb r) (\<lambda>b. Inr (Some b, td\<lparr>random_state := st\<rparr>, f)))
     else case lfsr f of
            None \<Rightarrow> Some (Inl Assert_failed)
          | Some fl \<Rightarrow> (case lfsr_next fl of
                None \<Rightarrow> None
              | Some (b, fl) \<Rightarrow> retc (b, td, f\<lparr>lfsr := Some fl\<rparr>)))"

definition free_block :: "'z fio_file \<Rightarrow> u64 \<Rightarrow> (u64 option \<times> 'z fio_file) res" where
  "free_block f b =
    bindr (random_map_free f b) (\<lambda>free.
      if free then Inr (Some b, f)
      else case io_axmap f of
             None \<Rightarrow> Inl Null_deref
           | Some am \<Rightarrow> bindr (axmap_next_free am b) (\<lambda>(b, am').
               Inr (if b = - 1 then None else Some b, f\<lparr>io_axmap := Some am'\<rparr>)))"

definition next_rand_offset :: "thread_data \<Rightarrow> 'z fio_file \<Rightarrow> u64 \<Rightarrow> (u64 option \<times> thread_data \<times> 'z fio_file) comp" where
  "next_rand_offset td f lastb =
    bindc (draw_block td f lastb) (\<lambda>(b, td, f).
      case b of
        None \<Rightarrow> retc (None, td, f)
      | Some b \<Rightarrow>
          if \<not> file_randommap td f then retc (Some b, td, f)
          else Some (bindr (free_block f b) (\<lambda>(b, f). Inr (b, td, f))))"

section \<open>Zoned distributions\<close>

definition zone_entry :: "thread_data \<Rightarrow> fio_ddir \<Rightarrow> (zone_split_index \<times> thread_data) res" where
  "zone_entry td ddir =
    bindr (rand32_between (zone_state td) 1 100) (\<lambda>(v, st).
      bindr (rd (zone_state_index td ddir) (nat (v - 1))) (\<lambda>zsi. Inr (zsi, td\<lparr>zone_state := st\<rparr>)))"

definition next_rand_offset_zoned_abs ::
    "thread_data \<Rightarrow> 'z fio_file \<Rightarrow> fio_ddir \<Rightarrow> (u64 option \<times> thread_data \<times> 'z fio_file) comp" where
  "next_rand_offset_zoned_abs td f ddir =
    bindc (Some (last_block td f ddir)) (\<lambda>lastb.
      if lastb = 0 then retc (None, td, f)
      else if zone_split_nr (opts td) ddir = 0 then next_rand_offset td f lastb
      else bindc (Some (zone_entry td ddir)) (\<lambda>(zsi, td).
           bindc (Some (udiv (zsize_prev zsi) (ucast (ba (opts td) ddir)))) (\<lambda>stotal.
           bindc (Some (udiv (zsize zsi) (ucast (ba (opts td) ddir)))) (\<lambda>send.
             if send = 0xffffffff then next_rand_offset td f lastb
             else if send > lastb then retc (None, td, f)
             else bindc (next_rand_offset td f (send - stotal)) (\<lambda>(b, td, f).
                    retc (map_option (\<lambda>b. b + stotal) b, td, f))))))"

definition next_rand_offset_zoned ::
    "thread_data \<Rightarrow> 'z fio_file \<Rightarrow> fio_ddir \<Rightarrow> (u64 option \<times> thread_data \<times> 'z fio_file) comp" where
  "next_rand_offset_zoned td f ddir =
    bindc (Some (last_block td f ddir)) (\<lambda>lastb.
      if lastb = 0 then retc (None, td, f)
      else if zone_split_nr (opts td) ddir = 0 then next_rand_offset td f lastb
      else bindc (Some (zone_entry td ddir)) (\<lambda>(zsi, td).
           let stotal = ucast (size_perc_prev zsi) :: u32; send = ucast (size_perc zsi) :: u32
           in if send = - 1 then next_rand_offset td f lastb
              else let offset = (if stotal \<noteq> 0 then ucast stotal * lastb div 100 else 0);
                       lastb = lastb * ucast (send - stotal) div 100
                   in bindc (next_rand_offset td f lastb) (\<lambda>(b, td, f).
                        retc (map_option (\<lambda>b. if offset \<noteq> 0 then b + offset else b) b, td, f))))"

section \<open>The distributions\<close>

type_synonym 'z dist_fun = "rand_dist \<Rightarrow> 'z \<Rightarrow> u64 \<times> 'z"

definition next_dist_offset :: "'z dist_fun \<Rightarrow> thread_data \<Rightarrow> 'z fio_file \<Rightarrow> (u64 option \<times> thread_data \<times> 'z fio_file) comp" where
  "next_dist_offset dist_next td f =
    (let (b, z) = dist_next (random_distribution (opts td)) (dist_state f)
     in retc (Some b, td, f\<lparr>dist_state := z\<rparr>))"

definition get_off_from_method ::
    "'z dist_fun \<Rightarrow> thread_data \<Rightarrow> 'z fio_file \<Rightarrow> fio_ddir \<Rightarrow> (u64 option \<times> thread_data \<times> 'z fio_file) comp" where
  "get_off_from_method dist_next td f ddir =
    (case random_distribution (opts td) of
       FIO_RAND_DIST_RANDOM \<Rightarrow>
         bindc (Some (last_block td f ddir)) (\<lambda>lastb.
           if lastb = 0 then retc (None, td, f) else next_rand_offset td f lastb)
     | FIO_RAND_DIST_ZIPF \<Rightarrow> next_dist_offset dist_next td f
     | FIO_RAND_DIST_PARETO \<Rightarrow> next_dist_offset dist_next td f
     | FIO_RAND_DIST_GAUSS \<Rightarrow> next_dist_offset dist_next td f
     | FIO_RAND_DIST_ZONED \<Rightarrow> next_rand_offset_zoned td f ddir
     | FIO_RAND_DIST_ZONED_ABS \<Rightarrow> next_rand_offset_zoned_abs td f ddir)"

section \<open>Sorted batches for verification\<close>

text \<open>The difference of two offsets, converted to an \<open>int\<close> as the compiler does: modulo \<open>2 ^ 32\<close>.\<close>

definition flist_cmp :: "u64 \<Rightarrow> u64 \<Rightarrow> int" where
  "flist_cmp r1 r2 = sint (ucast (r1 - r2) :: u32)"

definition should_sort_io :: "thread_data \<Rightarrow> bool" where
  "should_sort_io td \<longleftrightarrow>
    verifysort_nr (opts td) \<noteq> 0 \<and> do_verify (opts td) \<and> td_random td \<and> verifying td \<and>
    random_generator (opts td) = FIO_RAND_GEN_LFSR"

definition should_do_random :: "thread_data \<Rightarrow> fio_ddir \<Rightarrow> (bool \<times> thread_data) res" where
  "should_do_random td ddir =
    (if perc_rand (opts td) ddir = 100 then Inr (True, td)
     else bindr (rand32_between (seq_rand_state td ddir) 1 100) (\<lambda>(v, st).
       Inr (v \<le> int (unat (perc_rand (opts td) ddir)),
            td\<lparr>seq_rand_state := (seq_rand_state td)(ddir := st)\<rparr>)))"

text \<open>
  The loop that collects a batch of \<open>n\<close> offsets; each is added at the head of the list.  The
  result tells whether the last attempt failed.  Allocation is taken to succeed.
\<close>

fun collect_batch :: "'z dist_fun \<Rightarrow> nat \<Rightarrow> thread_data \<Rightarrow> 'z fio_file \<Rightarrow> fio_ddir \<Rightarrow> u64 list \<Rightarrow>
    (bool \<times> u64 list \<times> thread_data \<times> 'z fio_file) comp" where
  "collect_batch dist_next 0 td f ddir acc = retc (False, acc, td, f)"
| "collect_batch dist_next (Suc n) td f ddir acc =
    bindc (get_off_from_method dist_next td f ddir) (\<lambda>(b, td, f).
      case b of
        None \<Rightarrow> retc (True, acc, td, f)
      | Some b \<Rightarrow> collect_batch dist_next n td f ddir (b # acc))"

definition fetch_offset :: "thread_data \<Rightarrow> 'z fio_file \<Rightarrow> u64 list \<Rightarrow> (u64 option \<times> thread_data \<times> 'z fio_file) res" where
  "fetch_offset td f l =
    (case l of [] \<Rightarrow> Inl Assert_failed | b # bs \<Rightarrow> Inr (Some b, td\<lparr>next_rand_list := bs\<rparr>, f))"

definition get_next_rand_offset ::
    "'z dist_fun \<Rightarrow> thread_data \<Rightarrow> 'z fio_file \<Rightarrow> fio_ddir \<Rightarrow> (u64 option \<times> thread_data \<times> 'z fio_file) comp" where
  "get_next_rand_offset dist_next td f ddir =
    (if \<not> should_sort_io td then get_off_from_method dist_next td f ddir
     else if next_rand_list td \<noteq> [] then Some (fetch_offset td f (next_rand_list td))
     else bindc (collect_batch dist_next (unat (verifysort_nr (opts td))) td f ddir []) (\<lambda>(failed, l, td, f).
       if failed \<and> l = [] then retc (None, td, f)
       else Some (assertr (l \<noteq> []) (bindr (flist_sort flist_cmp l) (fetch_offset td f)))))"

definition get_next_rand_block ::
    "'z dist_fun \<Rightarrow> thread_data \<Rightarrow> 'z fio_file \<Rightarrow> fio_ddir \<Rightarrow> (u64 option \<times> thread_data \<times> 'z fio_file) comp" where
  "get_next_rand_block dist_next td f ddir =
    bindc (get_next_rand_offset dist_next td f ddir) (\<lambda>(b, td, f).
      if b \<noteq> None then retc (b, td, f)
      else if time_based (opts td) \<or> fservice_nonuniform (opts td)
      then get_next_rand_offset dist_next td (fio_file_reset td f) ddir
      else retc (None, td, f))"

section \<open>Sequential offsets\<close>

definition seq_end :: "'z fio_file \<Rightarrow> u64" where
  "seq_end f = (if real_file_size f > io_size f then io_size f else real_file_size f)"

definition get_next_seq_offset :: "thread_data \<Rightarrow> 'z fio_file \<Rightarrow> fio_ddir \<Rightarrow> (u64 option \<times> 'z fio_file) res" where
  "get_next_seq_offset td f ddir = assertr (ddir_rw ddir)
    (let op = opts td; add = of_int (ddir_seq_add op) :: u64 in
     bindr (get_start_offset td f) (\<lambda>start.
       let f = (if last_pos f ddir \<ge> io_size f + start \<and> time_based op
                then f\<lparr>last_pos := (last_pos f)(ddir := file_offset f)\<rparr> else f)
       in if last_pos f ddir < real_file_size f
          then let f = (if last_pos f ddir = file_offset f \<and> ddir_seq_add op < 0
                        then f\<lparr>last_pos := (last_pos f)(ddir := seq_end f)\<rparr> else f);
                   pos = last_pos f ddir - file_offset f;
                   pos = (if pos \<noteq> 0 \<and> ddir_seq_add op \<noteq> 0
                          then let pos = pos + add
                               in if pos \<ge> real_file_size f
                                  then if ddir_seq_add op > 0 then file_offset f else seq_end f + add
                                  else pos
                          else pos)
               in Inr (Some pos, f)
          else Inr (None, f)))"

section \<open>The next block\<close>

text \<open>
  The offset before \<open>file_offset\<close> is added, or \<open>None\<close>; a block or an offset of \<open>- 1\<close> counts as not
  set, as in the code.  The other results are \<open>is_random\<close> and the state.
\<close>

datatype next_pos = Pos_none | Pos_block u64 | Pos_offset u64

definition pos_of :: "('a \<Rightarrow> next_pos) \<Rightarrow> 'a option \<Rightarrow> next_pos" where
  "pos_of c x = (case x of None \<Rightarrow> Pos_none | Some b \<Rightarrow> c b)"

definition seq_or_rand :: "'z dist_fun \<Rightarrow> thread_data \<Rightarrow> 'z fio_file \<Rightarrow> fio_ddir \<Rightarrow> (next_pos \<times> thread_data \<times> 'z fio_file) comp" where
  "seq_or_rand dist_next td f ddir =
    bindc (Some (get_next_seq_offset td f ddir)) (\<lambda>(off, f).
      case off of
        Some p \<Rightarrow> retc (Pos_offset p, td, f)
      | None \<Rightarrow> bindc (get_next_rand_block dist_next td f ddir) (\<lambda>(b, td, f). retc (pos_of Pos_block b, td, f)))"

definition choose_pos :: "'z dist_fun \<Rightarrow> thread_data \<Rightarrow> io_u \<Rightarrow> 'z fio_file \<Rightarrow> bool \<Rightarrow>
    (next_pos \<times> bool \<times> thread_data \<times> io_u \<times> 'z fio_file) comp" where
  "choose_pos dist_next td io f rw_hit =
    (let ddir = io_ddir io in
     if rw_hit
     then if td_random td
          then bindc (Some (should_do_random td ddir)) (\<lambda>(rand, td).
                 if rand
                 then bindc (get_next_rand_block dist_next td f ddir) (\<lambda>(b, td, f).
                        retc (pos_of Pos_block b, True, td, io, f))
                 else bindc (seq_or_rand dist_next td f ddir) (\<lambda>(p, td, f).
                        retc (p, False, td, io\<lparr>busy_ok := True\<rparr>, f)))
          else bindc (Some (get_next_seq_offset td f ddir)) (\<lambda>(off, f).
                 retc (pos_of Pos_offset off, False, td, io, f))
     else if rw_seq (opts td) = 0
     then bindc (seq_or_rand dist_next td f ddir) (\<lambda>(p, td, f). retc (p, False, td, io\<lparr>busy_ok := True\<rparr>, f))
     else if rw_seq (opts td) = 1
     then retc (Pos_offset (if last_start f ddir \<noteq> - 1 then last_start f ddir - file_offset f else 0),
                False, td, io\<lparr>busy_ok := True\<rparr>, f)
     else retc (Pos_none, False, td, io\<lparr>busy_ok := True\<rparr>, f))"

definition get_next_block :: "'z dist_fun \<Rightarrow> thread_data \<Rightarrow> io_u \<Rightarrow> 'z fio_file \<Rightarrow> bool \<Rightarrow>
    (bool \<times> bool \<times> thread_data \<times> io_u \<times> 'z fio_file) comp" where
  "get_next_block dist_next td io f rw_hit =
    (if \<not> ddir_rw (io_ddir io) then Some (Inl Assert_failed)
     else bindc (choose_pos dist_next td io f rw_hit) (\<lambda>(p, is_random, td, io, f).
       case p of
         Pos_none \<Rightarrow> retc (False, is_random, td, io, f)
       | Pos_offset off \<Rightarrow>
           if off \<noteq> - 1 then retc (True, is_random, td, io\<lparr>io_offset := off\<rparr>, f)
           else retc (False, is_random, td, io, f)
       | Pos_block b \<Rightarrow>
           if b \<noteq> - 1 then retc (True, is_random, td, io\<lparr>io_offset := b * ucast (ba (opts td) (io_ddir io))\<rparr>, f)
           else retc (False, is_random, td, io, f)))"

definition get_next_offset :: "'z dist_fun \<Rightarrow> thread_data \<Rightarrow> io_u \<Rightarrow> 'z fio_file \<Rightarrow>
    (bool \<times> bool \<times> thread_data \<times> io_u \<times> 'z fio_file) comp" where
  "get_next_offset dist_next td io f =
    (if \<not> ddir_rw (io_ddir io) then Some (Inl Assert_failed)
     else let (hit, td) =
            (if ddir_seq_nr (opts td) \<noteq> 0
             then if td_seq_nr td - 1 = 0 then (True, td\<lparr>td_seq_nr := ddir_seq_nr (opts td)\<rparr>)
                  else (False, td\<lparr>td_seq_nr := td_seq_nr td - 1\<rparr>)
             else (False, td))
          in bindc (get_next_block dist_next td io f hit) (\<lambda>(ok, is_random, td, io, f).
            if \<not> ok then retc (False, is_random, td, io, f)
            else if io_offset io \<ge> io_size f then retc (False, is_random, td, io, f)
            else let io = io\<lparr>io_offset := io_offset io + file_offset f\<rparr>
                 in retc (io_offset io < real_file_size f, is_random, td, io, f)))"

section \<open>The block size\<close>

definition io_u_fits :: "u64 \<Rightarrow> io_u \<Rightarrow> u32 \<Rightarrow> bool" where
  "io_u_fits limit io buflen \<longleftrightarrow> io_offset io + ucast buflen \<le> limit"

text \<open>
  The walk over the list of block sizes with their percentages: \<open>perc\<close> is the sum so far and
  \<open>buflen\<close> the size seen last, which is kept when no entry is taken.
\<close>

fun bssplit_walk :: "(u32 \<Rightarrow> bool) \<Rightarrow> u64 \<Rightarrow> u64 \<Rightarrow> u64 \<Rightarrow> u32 \<Rightarrow> bssplit list \<Rightarrow> u32" where
  "bssplit_walk fits frand_max r perc buflen [] = buflen"
| "bssplit_walk fits frand_max r perc buflen (bsp # rest) =
    (let buflen = split_bs bsp; perc = perc + ucast (split_perc bsp)
     in if perc = 0 then buflen
        else if r div perc \<le> frand_max div 100 \<and> fits buflen then buflen
        else bssplit_walk fits frand_max r perc buflen rest)"

definition align_buflen :: "thread_options \<Rightarrow> u32 \<Rightarrow> u32 \<Rightarrow> u32 res" where
  "align_buflen op minbs buflen =
    (if bs_unaligned op then Inr buflen
     else if is_power_of_2 (ucast minbs) then Inr (buflen AND NOT (minbs - 1))
     else bindr (umod buflen minbs) (\<lambda>r. Inr (buflen - r)))"

text \<open>One round of the loop: a draw, a length, and its alignment.\<close>

definition draw_buflen :: "thread_options \<Rightarrow> fio_ddir \<Rightarrow> (u32 \<Rightarrow> bool) \<Rightarrow> frand_state \<Rightarrow> (u32 \<times> frand_state) res" where
  "draw_buflen op ddir fits st =
    (let (r, st') = rand_next st; minbs = min_bs op ddir; maxbs = max_bs op ddir in
     bindr (if bssplit_of op ddir = []
            then bindr (rand_scale st (ucast maxbs) r) (\<lambda>v.
                   let buflen = 1 + ucast v in Inr (if buflen < minbs then minbs else buflen))
            else Inr (bssplit_walk fits (rand_max st) r 0 0 (bssplit_of op ddir)))
       (\<lambda>buflen. bindr (align_buflen op minbs buflen) (\<lambda>buflen. Inr (buflen, st'))))"

partial_function (option) buflen_loop ::
    "thread_options \<Rightarrow> fio_ddir \<Rightarrow> (u32 \<Rightarrow> bool) \<Rightarrow> frand_state \<Rightarrow> (u32 \<times> frand_state) res option" where
  "buflen_loop op ddir fits st =
    (case draw_buflen op ddir fits st of
       Inl e \<Rightarrow> Some (Inl e)
     | Inr (buflen, st') \<Rightarrow> if fits buflen then Some (Inr (buflen, st')) else buflen_loop op ddir fits st')"

text \<open>\<open>get_start_offset\<close> depends only on what the loop does not change, so that the limit is fixed.\<close>

definition get_next_buflen :: "thread_data \<Rightarrow> io_u \<Rightarrow> 'z fio_file \<Rightarrow> bool \<Rightarrow> (u32 \<times> thread_data) comp" where
  "get_next_buflen td io f is_random =
    (if \<not> ddir_rw (io_ddir io) then Some (Inl Assert_failed)
     else let op = opts td;
              ddir = (if bs_is_seq_rand op then if is_random then DDIR_WRITE else DDIR_READ else io_ddir io)
          in if min_bs op ddir = max_bs op ddir then retc (min_bs op ddir, td)
             else bindc (Some (get_start_offset td f)) (\<lambda>start.
               let fits = io_u_fits (io_size f + start) io
               in if \<not> fits (min_bs op ddir) then retc (0, td)
                  else bindc (buflen_loop op ddir fits (bsrange_state td ddir)) (\<lambda>(buflen, st).
                    retc (buflen, td\<lparr>bsrange_state := (bsrange_state td)(ddir := st)\<rparr>))))"

section \<open>Filling in an I/O unit\<close>

definition fill_io_u_zone :: "thread_data \<Rightarrow> io_u \<Rightarrow> 'z fio_file \<Rightarrow> (thread_data \<times> 'z fio_file) res" where
  "fill_io_u_zone td io f =
    (let op = opts td; ddir = io_ddir io;
         (td, f) =
           (if zone_bytes td \<ge> zone_size op \<and> zone_skip op \<noteq> 0
            then let fo = file_offset f + (zone_range op + zone_skip op);
                     fo = (if fo \<ge> real_file_size f then real_file_size f - fo else fo)
                 in (td\<lparr>zone_bytes := 0, io_skip_bytes := io_skip_bytes td + zone_skip op\<rparr>,
                     f\<lparr>file_offset := fo, last_pos := (last_pos f)(ddir := fo)\<rparr>)
            else (td, f));
         f = (if last_pos f ddir \<ge> file_offset f + zone_range op
              then f\<lparr>last_pos := (last_pos f)(ddir := file_offset f)\<rparr> else f)
     in bindr (umod (zone_bytes td) (zone_range op)) (\<lambda>r.
          Inr (td, if r = 0 then fio_file_reset td f else f)))"

text \<open>
  \<open>fill_io_u\<close> from the point where \<open>set_rw_ddir\<close> has set the direction, which depends on clocks and
  rates; \<open>noio\<close> is the flag \<open>FIO_NOIO\<close> of the engine.  The result tells whether a unit was filled in.
\<close>

definition fill_rw :: "'z dist_fun \<Rightarrow> thread_data \<Rightarrow> io_u \<Rightarrow> 'z fio_file \<Rightarrow> (bool \<times> thread_data \<times> io_u \<times> 'z fio_file) comp" where
  "fill_rw dist_next td io f =
    bindc (get_next_offset dist_next td io f) (\<lambda>(ok, is_random, td, io, f).
      if \<not> ok then retc (False, td, io, f)
      else bindc (get_next_buflen td io f is_random) (\<lambda>(buflen, td).
        let io = io\<lparr>io_buflen := ucast buflen\<rparr>
        in if buflen = 0 then retc (False, td, io, f)
           else if io_offset io + io_buflen io > real_file_size f then retc (False, td, io, f)
           else if td_random td \<and> file_randommap td f
           then bindc (Some (mark_random_map td io f)) (\<lambda>(io, f). retc (True, td, io, f))
           else retc (True, td, io, f)))"

definition fill_io_u :: "'z dist_fun \<Rightarrow> bool \<Rightarrow> thread_data \<Rightarrow> io_u \<Rightarrow> 'z fio_file \<Rightarrow> (bool \<times> thread_data \<times> io_u \<times> 'z fio_file) comp" where
  "fill_io_u dist_next noio td io f =
    bindc (if noio \<or> \<not> ddir_rw (io_ddir io) then retc (True, td, io, f)
           else bindc (if zone_range (opts td) \<noteq> 0 then Some (fill_io_u_zone td io f) else retc (td, f)) (\<lambda>(td, f).
             fill_rw dist_next td io f))
      (\<lambda>(ok, td, io, f). retc (ok, if ok then td\<lparr>zone_bytes := zone_bytes td + io_buflen io\<rparr> else td, io, f))"

text \<open>What \<open>get_io_u\<close> records in the file for a unit that was filled in.\<close>

definition record_io :: "io_u \<Rightarrow> 'z fio_file \<Rightarrow> 'z fio_file" where
  "record_io io f =
    (if ddir_rw (io_ddir io)
     then f\<lparr>last_start := (last_start f)(io_ddir io := io_offset io),
            last_pos := (last_pos f)(io_ddir io := io_offset io + io_buflen io)\<rparr>
     else f)"

end
