(* ===== verification/Io_U_Safety.thy ===== *)
theory Io_U_Safety
  imports Io_U
begin

text \<open>
  What the choice of offsets in \<open>Io_U\<close> keeps of a file, that no I/O leaves the file, and the range
  of the lengths.
\<close>

section \<open>What the offset functions keep\<close>

text \<open>The sizes of a file are read by the offset functions and never written.\<close>

definition same_sizes :: "'z fio_file \<Rightarrow> 'z fio_file \<Rightarrow> bool" where
  "same_sizes f f' \<longleftrightarrow> real_file_size f' = real_file_size f \<and> io_size f' = io_size f \<and>
    file_offset f' = file_offset f \<and> regular_file f' = regular_file f"

named_theorems sizes

lemma same_sizes_refl [simp]: "same_sizes f f"
  by (simp add: same_sizes_def)

lemma same_sizes_trans: "same_sizes f g \<Longrightarrow> same_sizes g h \<Longrightarrow> same_sizes f h"
  by (simp add: same_sizes_def)

lemma same_sizes_updates [simp]:
  "same_sizes f (g\<lparr>io_axmap := a\<rparr>) = same_sizes f g"
  "same_sizes f (g\<lparr>lfsr := l\<rparr>) = same_sizes f g"
  "same_sizes f (g\<lparr>dist_state := z\<rparr>) = same_sizes f g"
  "same_sizes f (g\<lparr>last_pos := p\<rparr>) = same_sizes f g"
  "same_sizes f (g\<lparr>last_start := p\<rparr>) = same_sizes f g"
  by (simp_all add: same_sizes_def)

lemma fio_file_reset_sizes [simp]:
  "same_sizes f (fio_file_reset td g) = same_sizes f g"
  "same_sizes (fio_file_reset td f) g = same_sizes f g"
  by (simp_all add: fio_file_reset_def Let_def same_sizes_def split: option.splits)

lemma draw_block_sizes [sizes]: "draw_block td f lastb = retc (b, td', f') \<Longrightarrow> same_sizes f f'"
  by (auto simp: draw_block_def bindr_Inr_iff Let_def split: if_splits prod.splits option.splits)

lemma free_block_sizes [sizes]: "free_block f b = Inr (r, f') \<Longrightarrow> same_sizes f f'"
  by (auto simp: free_block_def bindr_Inr_iff split: if_splits option.splits)

lemma next_rand_offset_sizes [sizes]: "next_rand_offset td f lastb = retc (b, td', f') \<Longrightarrow> same_sizes f f'"
  by (auto simp: next_rand_offset_def bindc_eq_retc bindr_Inr_iff split: if_splits option.splits
      dest!: sizes intro: same_sizes_trans)

lemma zoned_abs_sizes [sizes]: "next_rand_offset_zoned_abs td f ddir = retc (b, td', f') \<Longrightarrow> same_sizes f f'"
  by (auto simp: next_rand_offset_zoned_abs_def bindc_eq_retc split: if_splits dest!: sizes)

lemma zoned_sizes [sizes]: "next_rand_offset_zoned td f ddir = retc (b, td', f') \<Longrightarrow> same_sizes f f'"
  by (auto simp: next_rand_offset_zoned_def bindc_eq_retc Let_def split: if_splits dest!: sizes)

lemma next_dist_sizes [sizes]: "next_dist_offset dn td f = retc (b, td', f') \<Longrightarrow> same_sizes f f'"
  by (auto simp: next_dist_offset_def Let_def split: prod.splits)

lemma method_sizes [sizes]: "get_off_from_method dn td f ddir = retc (b, td', f') \<Longrightarrow> same_sizes f f'"
  by (auto simp: get_off_from_method_def bindc_eq_retc split: if_splits rand_dist.splits dest!: sizes)

lemma collect_batch_sizes [sizes]:
  "collect_batch dn n td f ddir acc = retc (e, l, td', f') \<Longrightarrow> same_sizes f f'"
proof (induction n arbitrary: td f acc)
  case (Suc n)
  then show ?case
    by (auto simp: bindc_eq_retc split: option.splits dest!: method_sizes Suc.IH intro: same_sizes_trans)
qed simp

lemma fetch_sizes [sizes]: "fetch_offset td f l = Inr (b, td', f') \<Longrightarrow> f' = f"
  by (auto simp: fetch_offset_def split: list.splits)

lemma get_next_rand_offset_sizes [sizes]: "get_next_rand_offset dn td f ddir = retc (b, td', f') \<Longrightarrow> same_sizes f f'"
  by (auto simp: get_next_rand_offset_def bindc_eq_retc assertr_def bindr_Inr_iff split: if_splits dest!: sizes)

lemma get_next_rand_block_sizes [sizes]: "get_next_rand_block dn td f ddir = retc (b, td', f') \<Longrightarrow> same_sizes f f'"
  by (auto simp: get_next_rand_block_def bindc_eq_retc split: if_splits
      dest!: get_next_rand_offset_sizes intro: same_sizes_trans)

lemma seq_offset_sizes [sizes]: "get_next_seq_offset td f ddir = Inr (b, f') \<Longrightarrow> same_sizes f f'"
  by (auto simp: get_next_seq_offset_def assertr_def bindr_Inr_iff Let_def split: if_splits)

lemma seq_or_rand_sizes [sizes]: "seq_or_rand dn td f ddir = retc (p, td', f') \<Longrightarrow> same_sizes f f'"
  by (auto simp: seq_or_rand_def bindc_eq_retc split: option.splits
      dest!: seq_offset_sizes get_next_rand_block_sizes intro: same_sizes_trans)

lemma choose_pos_sizes [sizes]:
  "choose_pos dn td io f hit = retc (p, r, td', io', f') \<Longrightarrow> same_sizes f f' \<and> io_ddir io' = io_ddir io"
  by (auto simp: choose_pos_def bindc_eq_retc Let_def split: if_splits dest!: sizes)

lemma get_next_block_sizes [sizes]:
  assumes "get_next_block dn td io f hit = retc (ok, r, td', io', f')"
  shows "same_sizes f f' \<and> io_ddir io' = io_ddir io"
proof -
  obtain p r1 td1 io1 f1 where c: "choose_pos dn td io f hit = retc (p, r1, td1, io1, f1)"
    and k: "(case p of Pos_none \<Rightarrow> retc (False, r1, td1, io1, f1)
       | Pos_offset off \<Rightarrow> if off \<noteq> - 1 then retc (True, r1, td1, io1\<lparr>io_offset := off\<rparr>, f1) else retc (False, r1, td1, io1, f1)
       | Pos_block b \<Rightarrow> if b \<noteq> - 1 then retc (True, r1, td1, io1\<lparr>io_offset := b * ucast (ba (opts td1) (io_ddir io1))\<rparr>, f1)
           else retc (False, r1, td1, io1, f1)) = retc (ok, r, td', io', f')"
    using assms by (auto simp: get_next_block_def bindc_eq_retc split: if_splits)
  from choose_pos_sizes [OF c] k show ?thesis by (cases p) (auto split: if_splits)
qed

lemma get_next_offset_ok:
  assumes "get_next_offset dn td io f = retc (ok, r, td', io', f')"
  shows "same_sizes f f' \<and> io_ddir io' = io_ddir io \<and> (ok \<longrightarrow> io_offset io' < real_file_size f)"
  using assms
  by (auto simp: get_next_offset_def bindc_eq_retc Let_def same_sizes_def split: if_splits prod.splits
      dest!: get_next_block_sizes)


section \<open>No I/O leaves the file\<close>

lemma mark_random_map_shrinks:
  assumes "mark_random_map td io f = Inr (io', f')"
  shows "io_offset io' = io_offset io \<and> io_buflen io' \<le> io_buflen io"
  using assms by (auto simp: mark_random_map_def Let_def bindr_Inr_iff split: if_splits)

lemma fill_rw_in_file:
  assumes "fill_rw dn td io f = retc (True, td', io', f')"
    and "unat (real_file_size f) + 2 ^ 32 \<le> 2 ^ 64"
  shows "unat (io_offset io') + unat (io_buflen io') \<le> unat (real_file_size f)"
proof -
  from assms(1) obtain r td1 io1 f1 buflen td2 where
    o: "get_next_offset dn td io f = retc (True, r, td1, io1, f1)"
    and b: "io_offset io1 + ucast buflen \<le> real_file_size f1"
    and m: "io_offset io' = io_offset io1 \<and> io_buflen io' \<le> ucast (buflen :: u32)"
    by (auto simp: fill_rw_def bindc_eq_retc Let_def not_less split: if_splits dest!: mark_random_map_shrinks)
  from get_next_offset_ok [OF o] have lt: "unat (io_offset io1) < unat (real_file_size f)"
    and e: "real_file_size f1 = real_file_size f" by (auto simp: same_sizes_def word_less_nat_alt)
  have "unat (io_offset io1) + unat (ucast buflen :: u64) < 2 ^ 64"
    using lt assms(2) unat_u32_less [of buflen] by simp
  then have "unat (io_offset io1 + ucast buflen) = unat (io_offset io1) + unat (ucast buflen :: u64)"
    by (intro unat_add_no_wrap) simp
  moreover have "unat (io_buflen io') \<le> unat (ucast buflen :: u64)" using m by (simp add: word_le_nat_alt)
  ultimately show ?thesis using b m e by (simp add: word_le_nat_alt)
qed

lemma fill_io_u_zone_real_size:
  "fill_io_u_zone td io f = Inr (td', f') \<Longrightarrow> real_file_size f' = real_file_size f"
  using same_sizes_refl [of "fio_file_reset _ _"]
  by (auto simp: fill_io_u_zone_def Let_def bindr_Inr_iff fio_file_reset_def split: if_splits option.splits)

section \<open>Draws\<close>

lemma rand_next_32: "rand_next (State32 st) = (ucast (fst (rand32 st)), State32 (snd (rand32 st)))"
  by (simp add: rand_next_def split_beta)

lemma rand_scale_less:
  assumes "0 < unat lastb" "unat lastb < 2 ^ 53"
  shows "\<exists>b. rand_scale (State32 st) lastb (ucast (r :: u32)) = Inr b \<and> unat b < unat lastb"
proof -
  have r: "unat r < 2 ^ 32" by (rule unat_u32_less)
  have "unat r < 2 ^ 53" by (rule less_trans [OF r]) simp
  then have e: "rnd53 (unat r) = unat r" "rnd53 (unat lastb) = unat lastb"
    using assms(2) by (simp_all only: rnd53_exact)
  define v where "v = rnd53 (unat lastb * unat r) div 2 ^ 32"
  have v: "v < unat lastb" unfolding v_def using rnd53_scale [OF r assms(1)] .
  then have v64: "v < 2 ^ 64" using assms(2) by simp
  then have "unat (of_nat v :: u64) = v" by (simp add: unsigned_of_nat take_bit_nat_eq_self)
  with v v64 e show ?thesis by (simp add: rand_scale_def v_def)
qed


section \<open>Lengths\<close>

lemma align_buflen_ok:
  assumes "align_buflen op m x = Inr y" "m \<noteq> 0" "m \<le> x"
  shows "m \<le> y \<and> y \<le> x \<and> (bs_unaligned op \<or> unat m dvd unat y)"
proof (cases "bs_unaligned op")
  case False
  have "unat y = unat x div unat m * unat m"
  proof (cases "is_power_of_2 (ucast m)")
    case True
    then obtain k where k: "unat m = 2 ^ k" by (auto simp: is_power_of_2_iff)
    have "m = of_nat (unat m)" by simp
    also have "\<dots> = 2 ^ k" unfolding k by simp
    finally have "m = 2 ^ k" .
    then have "m - 1 = mask k" by (simp add: mask_eq_exp_minus_1)
    then have "y = x AND NOT (mask k)" using assms(1) False True by (simp add: align_buflen_def)
    then show ?thesis by (simp only: k unat_and_not_mask)
  next
    case F: False
    then have y: "y = x - x mod m" using assms(1,2) False by (simp add: align_buflen_def umod_def)
    have le: "x mod m \<le> x" by (simp add: word_le_nat_alt unat_mod)
    show ?thesis unfolding y unat_sub_no_wrap [OF le] unat_mod by (simp add: minus_mod_eq_div_mult)
  qed
  moreover have "1 \<le> unat x div unat m"
    using assms(2,3) by (simp add: div_greater_zero_iff word_le_nat_alt unat_gt_0 Suc_leI)
  then have "unat m \<le> unat x div unat m * unat m" by simp
  ultimately show ?thesis by (simp add: word_le_nat_alt)
qed (use assms in \<open>simp add: align_buflen_def\<close>)

text \<open>What a length drawn from the range of block sizes satisfies.\<close>

definition length_ok :: "thread_options \<Rightarrow> fio_ddir \<Rightarrow> u32 \<Rightarrow> bool" where
  "length_ok op ddir len \<longleftrightarrow> min_bs op ddir \<le> len \<and> len \<le> max_bs op ddir \<and>
    (bs_unaligned op \<or> unat (min_bs op ddir) dvd unat len)"

definition bs_range_ok :: "thread_options \<Rightarrow> fio_ddir \<Rightarrow> bool" where
  "bs_range_ok op ddir \<longleftrightarrow> bssplit_of op ddir = [] \<and> min_bs op ddir \<noteq> 0 \<and> min_bs op ddir \<le> max_bs op ddir"

lemma draw_buflen_ok:
  assumes "draw_buflen op ddir fits (State32 st) = Inr (len, st')" "bs_range_ok op ddir"
  shows "length_ok op ddir len \<and> (\<exists>s. st' = State32 s)"
proof -
  let ?min = "min_bs op ddir" and ?max = "max_bs op ddir"
  have pos: "0 < unat ?max" using assms(2) by (metis bs_range_ok_def unat_gt_0 word_le_0_iff)
  have m32: "unat ?max < 2 ^ 32" by (rule unat_u32_less)
  obtain v where v: "rand_scale (State32 st) (ucast ?max) (ucast (fst (rand32 st))) = Inr v" "unat v < unat ?max"
    using rand_scale_less [of "ucast ?max" st "fst (rand32 st)"] pos m32 by auto
  define b where "b = (if 1 + ucast v < ?min then ?min else 1 + (ucast v :: u32))"
  have a: "align_buflen op ?min b = Inr len" and st': "st' = State32 (snd (rand32 st))"
    using assms v(1) by (auto simp: draw_buflen_def bs_range_ok_def rand_next_32 Let_def bindr_Inr_iff b_def split: if_splits)
  have "unat (ucast v :: u32) = unat v" using v(2) m32 by (simp add: unat_ucast)
  then have "unat (1 + ucast v :: u32) = 1 + unat v" using v(2) m32 by (subst unat_add_no_wrap) simp_all
  then have "?min \<le> b" "b \<le> ?max" using v(2) assms(2) by (auto simp: b_def bs_range_ok_def word_le_nat_alt word_less_nat_alt)
  with align_buflen_ok [OF a] assms(2) st' show ?thesis by (auto simp: length_ok_def bs_range_ok_def)
qed

lemma buflen_loop_ok:
  assumes "buflen_loop op ddir fits st = Some r"
  shows "\<forall>s len st'. st = State32 s \<longrightarrow> r = Inr (len, st') \<longrightarrow> bs_range_ok op ddir \<longrightarrow> length_ok op ddir len \<and> fits len"
  using assms
proof (induction rule: buflen_loop.raw_induct [rotated 1, consumes 1, case_names step])
  case (step f op ddir fits st r)
  show ?case
  proof (intro allI impI)
    fix s len st'
    assume s: "st = State32 s" and r: "r = Inr (len, st')" and ok: "bs_range_ok op ddir"
    obtain l1 st1 where d: "draw_buflen op ddir fits (State32 s) = Inr (l1, st1)"
      using step(2) s r by (cases "draw_buflen op ddir fits (State32 s)") auto
    from draw_buflen_ok [OF d ok] obtain s1 where l1: "length_ok op ddir l1" "st1 = State32 s1" by blast
    show "length_ok op ddir len \<and> fits len"
    proof (cases "fits l1")
      case True
      then show ?thesis using step(2) s r d l1 by simp
    next
      case False
      then have "f op ddir fits st1 = Some r" using step(2) s d by simp
      then show ?thesis using step(1) l1(2) r ok by blast
    qed
  qed
qed

section \<open>Properties\<close>

text \<open>
  C5. Whatever the options, the distribution, the zones and the state: an I/O unit that
  \<open>fill_io_u\<close> fills in lies inside the file, provided the file ends 4 GiB before the end of the
  64-bit range.
\<close>

theorem fill_io_u_in_file:
  assumes "fill_io_u dist_next False td io f = retc (True, td', io', f')" "ddir_rw (io_ddir io)"
    and "unat (real_file_size f) + 2 ^ 32 \<le> 2 ^ 64"
  shows "unat (io_offset io') + unat (io_buflen io') \<le> unat (real_file_size f)"
proof -
  obtain td1 f1 td2 f2 where r: "fill_rw dist_next td1 io f1 = retc (True, td2, io', f2)"
    and "real_file_size f1 = real_file_size f"
    using assms(1,2) by (auto simp: fill_io_u_def bindc_eq_retc split: if_splits dest!: fill_io_u_zone_real_size)
  with fill_rw_in_file [OF r] assms(3) show ?thesis by simp
qed

definition seq_options :: thread_options where
  "seq_options = \<lparr>td_ddir = 1, rw_seq = 0, ddir_seq_nr = 1, ddir_seq_add = 0, file_append = False,
    start_offset = 0, start_offset_align = None, start_offset_percent = 0, offset_increment = 0,
    min_bs = \<lambda>_. 4096, max_bs = \<lambda>_. 4096, ba = \<lambda>_. 4096, bssplit_of = \<lambda>_. [], bs_unaligned = False,
    bs_is_seq_rand = False, norandommap = False, random_generator = FIO_RAND_GEN_TAUSWORTHE,
    random_distribution = FIO_RAND_DIST_RANDOM, perc_rand = \<lambda>_. 100, zone_split_nr = \<lambda>_. 0, zone_range = 0,
    zone_size = 0, zone_skip = 0, verifysort_nr = 0, do_verify = False, time_based = False, fservice_nonuniform = False\<rparr>"

definition sample_td :: "thread_options \<Rightarrow> thread_data" where
  "sample_td op = \<lparr>opts = op, subjob_number = 0, random_state = init_rand False, bsrange_state = \<lambda>_. init_rand False,
    seq_rand_state = \<lambda>_. init_rand False, zone_state = init_rand False, zone_state_index = \<lambda>_. [],
    rand_seed_off = 0, next_rand_list = [], verifying = False, td_seq_nr = 1, zone_bytes = 0, io_skip_bytes = 0\<rparr>"

definition sample_file :: "axmap option \<Rightarrow> unit fio_file" where
  "sample_file am = \<lparr>real_file_size = 16384, file_offset = 4096, io_size = 8192, last_pos = \<lambda>_. 4096, last_start = \<lambda>_. - 1,
    regular_file = True, io_axmap = am, lfsr = None, dist_state = ()\<rparr>"

definition read_io :: io_u where
  "read_io = \<lparr>io_ddir = DDIR_READ, io_offset = 0, io_buflen = 0, busy_ok = False\<rparr>"

theorem fill_io_u_in_file_witness:
  "\<exists>td' io' f'. fill_io_u (\<lambda>_ z. (0, z)) False (sample_td seq_options) read_io (sample_file None) = retc (True, td', io', f') \<and>
    unat (io_offset io') + unat (io_buflen io') \<le> unat (real_file_size (sample_file None))"
proof -
  obtain td' io' f' where r: "fill_io_u (\<lambda>_ z. (0, z)) False (sample_td seq_options) read_io (sample_file None) = retc (True, td', io', f')"
    by (simp add: fill_io_u_def fill_rw_def get_next_offset_def get_next_block_def choose_pos_def get_next_seq_offset_def
        get_start_offset_def get_next_buflen_def td_random_def ddir_rw_def pos_of_def Let_def
        seq_options_def sample_td_def sample_file_def read_io_def)
  have "ddir_rw (io_ddir read_io)" "unat (real_file_size (sample_file None)) + 2 ^ 32 \<le> 2 ^ 64"
    by (simp_all add: ddir_rw_def read_io_def sample_file_def)
  from fill_io_u_in_file [OF r this] r show ?thesis by blast
qed



end
