(* ===== verification/Io_U_Cover.thy ===== *)
theory Io_U_Cover
  imports Io_U_Safety Axmap_Props
begin

text \<open>
  The order in which the I/O units of a job visit the blocks of a file: random I/O takes every
  block of the region once before it reports that none is left, sequential I/O tiles the region.
\<close>

section \<open>Random I/O\<close>

text \<open>
  A job of uniformly random I/O on one file: every unit has the block size \<open>bs\<close>, the offsets come
  from the 32-bit generator, and the map has one bit for each block of the region.
\<close>

definition random_job :: "thread_data \<Rightarrow> io_u \<Rightarrow> 'z fio_file \<Rightarrow> u32 \<Rightarrow> axmap \<Rightarrow> bool" where
  "random_job td io f bs am \<longleftrightarrow>
    (let op = opts td; ddir = io_ddir io in
      ddir_rw ddir \<and> \<not> busy_ok io \<and> td_random td \<and> ddir_seq_nr op = 1 \<and> td_seq_nr td = 1 \<and>
      perc_rand op ddir = 100 \<and> random_distribution op = FIO_RAND_DIST_RANDOM \<and>
      random_generator op = FIO_RAND_GEN_TAUSWORTHE \<and> (\<exists>st. random_state td = State32 st) \<and>
      \<not> norandommap op \<and> \<not> bs_is_seq_rand op \<and> \<not> time_based op \<and> \<not> fservice_nonuniform op \<and>
      min_bs op ddir = bs \<and> max_bs op ddir = bs \<and> ba op ddir = bs \<and> bs \<noteq> 0 \<and> zone_range op = 0 \<and>
      io_axmap f = Some am \<and> axmap_inv am \<and> unat (nr_bits am) = unat (io_size f) div unat bs \<and>
      0 < unat (nr_bits am) \<and> unat (nr_bits am) < 2 ^ 53 \<and>
      unat (file_offset f) + unat (io_size f) \<le> unat (real_file_size f))"

lemma free_block_pick:
  assumes "io_axmap f = Some am"
  shows "free_block f b = bindr (axm.pick am b) (\<lambda>(r, am'). Inr (r, f\<lparr>io_axmap := Some am'\<rparr>))"
proof -
  have "f\<lparr>io_axmap := Some am\<rparr> = f" using assms by (cases f) simp
  then show ?thesis using assms
    by (auto simp: free_block_def random_map_free_def axm.pick_def bindr_assoc bindr_def split: sum.splits)
qed

lemma random_last_block:
  assumes "random_job td io f bs am"
  shows "last_block td f (io_ddir io) = Inr (nr_bits am)"
proof -
  have le: "\<not> io_size f > real_file_size f" and bs: "bs \<noteq> 0" and n: "unat (nr_bits am) = unat (io_size f) div unat bs"
    using assms by (auto simp: random_job_def Let_def word_less_nat_alt)
  have "io_size f div ucast bs = nr_bits am"
    using n by (simp add: word_unat_eq_iff unat_div)
  moreover have "(ucast bs :: u64) \<noteq> 0" using bs by (simp add: word_unat_eq_iff)
  ultimately show ?thesis
    using assms le by (simp add: last_block_def random_job_def Let_def udiv_def)
qed

lemma random_block:
  assumes "random_job td io f bs am"
  shows "\<exists>r st am'. get_next_rand_block dn td f (io_ddir io) =
      retc (r, td\<lparr>random_state := State32 st\<rparr>, f\<lparr>io_axmap := Some am'\<rparr>) \<and>
    axmap_inv am' \<and> nr_bits am' = nr_bits am \<and> used am' = used am \<and>
    (case r of None \<Rightarrow> used am = {..<unat (nr_bits am)}
     | Some c \<Rightarrow> unat c < unat (nr_bits am) \<and> unat c \<notin> used am)"
proof -
  note j = assms [unfolded random_job_def Let_def]
  obtain st where st: "random_state td = State32 st" using j by blast
  obtain b where b: "rand_scale (State32 st) (nr_bits am) (ucast (fst (rand32 st))) = Inr b" "unat b < unat (nr_bits am)"
    using rand_scale_less j by blast
  obtain r am' where p: "axm.pick am b = Inr (r, am')" "axmap_inv am'" "nr_bits am' = nr_bits am" "used am' = used am"
    "case r of None \<Rightarrow> used am = {..<unat (nr_bits am)} | Some c \<Rightarrow> unat c < unat (nr_bits am) \<and> unat c \<notin> used am"
    using axm.pick_ok [OF _ b(2)] j by blast
  have "next_rand_offset td f (nr_bits am) =
      retc (r, td\<lparr>random_state := State32 (snd (rand32 st))\<rparr>, f\<lparr>io_axmap := Some am'\<rparr>)"
    using j st b(1) p(1)
    by (simp add: next_rand_offset_def draw_block_def rand_next_32 file_randommap_def free_block_pick [of f am])
  then have "get_next_rand_offset dn td f (io_ddir io) =
      retc (r, td\<lparr>random_state := State32 (snd (rand32 st))\<rparr>, f\<lparr>io_axmap := Some am'\<rparr>)"
    using j random_last_block [OF assms]
    by (auto simp: get_next_rand_offset_def should_sort_io_def get_off_from_method_def)
  then have "get_next_rand_block dn td f (io_ddir io) =
      retc (r, td\<lparr>random_state := State32 (snd (rand32 st))\<rparr>, f\<lparr>io_axmap := Some am'\<rparr>)"
    using j by (auto simp: get_next_rand_block_def)
  with p show ?thesis by blast
qed

text \<open>The \<open>i\<close>-th block of the region, as an offset in the file.\<close>

definition block_at :: "'z fio_file \<Rightarrow> u32 \<Rightarrow> nat \<Rightarrow> nat" where
  "block_at f bs i = unat (file_offset f) + i * unat bs"

lemma block_in_region:
  assumes "c < unat (io_size f) div unat (bs :: u32)"
  shows "c * unat bs + unat bs \<le> unat (io_size f)"
proof -
  have "(c + 1) * unat bs \<le> unat (io_size f) div unat bs * unat bs" using assms by (intro mult_le_mono1) simp
  also have "\<dots> \<le> unat (io_size f)" by simp
  finally show ?thesis by simp
qed

lemma offset_words:
  assumes "unat c < unat (io_size f) div unat bs" "unat (file_offset f) + unat (io_size f) < 2 ^ 64" "bs \<noteq> (0 :: u32)"
  shows "unat (c * ucast bs :: u64) = unat c * unat bs"
    "unat (c * ucast bs + file_offset f :: u64) = block_at f bs (unat c)"
    "unat (c * ucast bs + file_offset f + ucast bs :: u64) = block_at f bs (unat c) + unat bs"
proof -
  have le: "unat c * unat bs + unat bs \<le> unat (io_size f)" by (rule block_in_region [OF assms(1)])
  show 1: "unat (c * ucast bs :: u64) = unat c * unat bs"
    using le assms(2) by (subst unat_mult_no_wrap) simp_all
  show 2: "unat (c * ucast bs + file_offset f :: u64) = block_at f bs (unat c)"
    using le assms(2) by (subst unat_add_no_wrap) (simp_all add: 1 block_at_def)
  show "unat (c * ucast bs + file_offset f + ucast bs :: u64) = block_at f bs (unat c) + unat bs"
    using le assms(2) by (subst unat_add_no_wrap) (simp_all add: 2 block_at_def)
qed

text \<open>A job that asks for a new position with every unit.\<close>

lemma get_next_offset_hit:
  assumes "ddir_rw (io_ddir io)" "ddir_seq_nr (opts td) = 1" "td_seq_nr td = 1"
  shows "get_next_offset dn td io f = bindc (get_next_block dn td io f True) (\<lambda>(ok, is_random, td, io, f).
    if \<not> ok then retc (False, is_random, td, io, f)
    else if io_offset io \<ge> io_size f then retc (False, is_random, td, io, f)
    else let io = io\<lparr>io_offset := io_offset io + file_offset f\<rparr>
         in retc (io_offset io < real_file_size f, is_random, td, io, f))"
proof -
  have td: "td\<lparr>td_seq_nr := 1\<rparr> = td" using assms(3) by (cases td) simp
  show ?thesis using assms by (simp add: get_next_offset_def td)
qed

lemma random_offset:
  assumes "random_job td io f bs am" "get_next_rand_block dn td f (io_ddir io) = retc (r, td', f')"
    and "opts td' = opts td" "same_sizes f f'"
    and "case r of None \<Rightarrow> True | Some c \<Rightarrow> unat c < unat (nr_bits am)"
  shows "get_next_offset dn td io f =
    (case r of
       None \<Rightarrow> retc (False, True, td', io, f')
     | Some c \<Rightarrow> retc (True, True, td', io\<lparr>io_offset := c * ucast bs + file_offset f\<rparr>, f'))"
proof -
  note j = assms(1) [unfolded random_job_def Let_def]
  have hit: "ddir_rw (io_ddir io)" "ddir_seq_nr (opts td) = 1" "td_seq_nr td = 1" using j by simp_all
  note hit = get_next_offset_hit [OF this, of dn f]
  have pos: "choose_pos dn td io f True = retc (pos_of Pos_block r, True, td', io, f')"
    using j assms(2) by (simp add: choose_pos_def should_do_random_def)
  show ?thesis
  proof (cases r)
    case None
    then show ?thesis using j hit pos by (simp add: get_next_block_def pos_of_def)
  next
    case (Some c)
    have c: "unat c < unat (io_size f) div unat bs" using assms(5) Some j by simp
    have w: "unat (file_offset f) + unat (io_size f) < 2 ^ 64"
      using j unat_u64_less [of "real_file_size f"] by linarith
    have m1: "c \<noteq> - 1" using c j assms(5) Some unat_u64_max by auto
    have blk: "get_next_block dn td io f True = retc (True, True, td', io\<lparr>io_offset := c * ucast bs\<rparr>, f')"
      using j pos Some assms(3) m1 by (simp add: get_next_block_def pos_of_def)
    have le: "unat c * unat bs + unat bs \<le> unat (io_size f)" by (rule block_in_region [OF c])
    have "0 < unat bs" using j by (simp add: unat_gt_0)
    then have "\<not> c * ucast bs \<ge> io_size f" "c * ucast bs + file_offset f < real_file_size f"
      using offset_words [OF c w] j le by (auto simp: word_le_nat_alt word_less_nat_alt block_at_def)
    then show ?thesis using hit blk Some assms(4) by (simp add: same_sizes_def Let_def)
  qed
qed

lemma one_block:
  assumes "bs \<noteq> (0 :: u32)" "unat (c * ucast bs :: u64) = unat c * unat bs"
  shows "c * ucast bs div ucast bs = (c :: u64)" "(2 * ucast bs - 1 :: u64) div ucast bs = 1"
proof -
  have b: "0 < unat bs" using assms(1) by (simp add: unat_gt_0)
  have b32: "unat bs < 2 ^ 32" by (rule unat_u32_less)
  show "c * ucast bs div ucast bs = (c :: u64)"
    using b by (simp add: word_unat_eq_iff unat_div assms(2))
  have "unat (ucast bs + ucast bs :: u64) = 2 * unat bs"
    using b32 by (subst unat_add_no_wrap) simp_all
  moreover have "(1 :: u64) \<le> ucast bs + ucast bs" using b calculation by (simp add: word_le_nat_alt)
  ultimately have "unat (ucast bs + ucast bs - 1 :: u64) = 2 * unat bs - 1" by (simp add: unat_sub_no_wrap)
  moreover have "(2 * unat bs - 1) div unat bs = 1"
    using b by (intro div_nat_eqI) simp_all
  ultimately show "(2 * ucast bs - 1 :: u64) div ucast bs = 1"
    unfolding mult_2 [of "ucast bs"] by (simp add: word_unat_eq_iff unat_div)
qed

lemma random_mark:
  assumes "random_job td io f bs am" "axmap_inv am'" "nr_bits am' = nr_bits am"
    and "unat c < unat (nr_bits am)" "unat c \<notin> used am'"
  shows "\<exists>am''. mark_random_map td (io\<lparr>io_offset := c * ucast bs + file_offset f, io_buflen := ucast bs\<rparr>)
      (f\<lparr>io_axmap := Some am'\<rparr>) =
      Inr (io\<lparr>io_offset := c * ucast bs + file_offset f, io_buflen := ucast bs\<rparr>, f\<lparr>io_axmap := Some am''\<rparr>) \<and>
    axmap_inv am'' \<and> nr_bits am'' = nr_bits am \<and> used am'' = insert (unat c) (used am')"
proof -
  note j = assms(1) [unfolded random_job_def Let_def]
  obtain am'' where s: "axmap_set_nr am' c 1 = Inr (1, am'')" "axmap_inv am''" "nr_bits am'' = nr_bits am'"
    "used am'' = insert (unat c) (used am')"
    using axm.set_one [OF assms(2) _ assms(5)] assms(3,4) by auto
  have c: "unat c < unat (io_size f) div unat bs" using assms(4) j by simp
  have w: "unat (file_offset f) + unat (io_size f) < 2 ^ 64"
    using j unat_u64_less [of "real_file_size f"] by linarith
  have bs: "bs \<noteq> 0" using j by blast
  note o = one_block [OF bs offset_words(1) [OF c w bs]]
  have "(ucast bs :: u64) \<noteq> 0" using bs by (simp add: word_unat_eq_iff)
  then have "mark_random_map td (io\<lparr>io_offset := c * ucast bs + file_offset f, io_buflen := ucast bs\<rparr>)
      (f\<lparr>io_axmap := Some am'\<rparr>) =
      Inr (io\<lparr>io_offset := c * ucast bs + file_offset f, io_buflen := ucast bs\<rparr>, f\<lparr>io_axmap := Some am''\<rparr>)"
    using j s(1) by (simp add: mark_random_map_def udiv_def o Let_def)
  with s assms(3) show ?thesis by auto
qed

text \<open>One unit: a free block is taken if there is one, and otherwise no unit is filled in.\<close>

lemma random_fill:
  assumes "random_job td io f bs am"
  shows "used am = {..<unat (nr_bits am)} \<and> (\<exists>td' f'. fill_io_u dn False td io f = retc (False, td', io, f')) \<or>
    (\<exists>c td' f' am'. fill_io_u dn False td io f =
        retc (True, td', io\<lparr>io_offset := c * ucast bs + file_offset f, io_buflen := ucast bs\<rparr>, f') \<and>
      unat c < unat (nr_bits am) \<and> unat c \<notin> used am \<and> random_job td' io f' bs am' \<and> same_sizes f f' \<and>
      nr_bits am' = nr_bits am \<and> used am' = insert (unat c) (used am))"
proof -
  note j = assms [unfolded random_job_def Let_def]
  obtain r st am' where b: "get_next_rand_block dn td f (io_ddir io) =
      retc (r, td\<lparr>random_state := State32 st\<rparr>, f\<lparr>io_axmap := Some am'\<rparr>)"
    and a: "axmap_inv am'" "nr_bits am' = nr_bits am" "used am' = used am"
    and r: "case r of None \<Rightarrow> used am = {..<unat (nr_bits am)} | Some c \<Rightarrow> unat c < unat (nr_bits am) \<and> unat c \<notin> used am"
    using random_block [OF assms] by blast
  let ?td = "td\<lparr>random_state := State32 st\<rparr>" and ?f = "f\<lparr>io_axmap := Some am'\<rparr>"
  have off: "get_next_offset dn td io f =
    (case r of
       None \<Rightarrow> retc (False, True, ?td, io, ?f)
     | Some c \<Rightarrow> retc (True, True, ?td, io\<lparr>io_offset := c * ucast bs + file_offset f\<rparr>, ?f))"
    using r by (intro random_offset [OF assms b]) (auto split: option.splits)
  have fill: "fill_io_u dn False td io f = bindc (fill_rw dn td io f)
      (\<lambda>(ok, td, io, f). retc (ok, if ok then td\<lparr>zone_bytes := zone_bytes td + io_buflen io\<rparr> else td, io, f))"
    using j by (simp add: fill_io_u_def)
  show ?thesis
  proof (cases r)
    case None
    then show ?thesis using r off fill by (intro disjI1) (simp add: fill_rw_def)
  next
    case (Some c)
    let ?io = "io\<lparr>io_offset := c * ucast bs + file_offset f, io_buflen := ucast bs\<rparr>"
    have c: "unat c < unat (nr_bits am)" "unat c \<notin> used am'" using r Some a by simp_all
    obtain am'' where m: "mark_random_map ?td ?io ?f = Inr (?io, f\<lparr>io_axmap := Some am''\<rparr>)"
      "axmap_inv am''" "nr_bits am'' = nr_bits am" "used am'' = insert (unat c) (used am')"
      using random_mark [OF _ a(1,2) c, of ?td io f bs] assms by (auto simp: random_job_def Let_def td_random_def)
    have w: "unat (file_offset f) + unat (io_size f) < 2 ^ 64"
      using j unat_u64_less [of "real_file_size f"] by linarith
    have ci: "unat c < unat (io_size f) div unat bs" using c(1) j by simp
    have "\<not> c * ucast bs + file_offset f + ucast bs > real_file_size f"
      using offset_words(3) [OF ci w] block_in_region [OF ci] j by (simp add: word_less_nat_alt block_at_def)
    then have rw: "fill_rw dn td io f = retc (True, ?td, ?io, f\<lparr>io_axmap := Some am''\<rparr>)"
      using off Some j m(1)
      by (simp add: fill_rw_def get_next_buflen_def file_randommap_def td_random_def Let_def)
    let ?td' = "?td\<lparr>zone_bytes := zone_bytes td + ucast bs\<rparr>"
    let ?f' = "f\<lparr>io_axmap := Some am''\<rparr>"
    have fe: "fill_io_u dn False td io f = retc (True, ?td', ?io, ?f')" using fill rw by simp
    have "random_job ?td' io ?f' bs am''" using j m(2,3) by (simp add: random_job_def Let_def td_random_def)
    then have "fill_io_u dn False td io f = retc (True, ?td', ?io, ?f') \<and>
        unat c < unat (nr_bits am) \<and> unat c \<notin> used am \<and> random_job ?td' io ?f' bs am'' \<and> same_sizes f ?f' \<and>
        nr_bits am'' = nr_bits am \<and> used am'' = insert (unat c) (used am)"
      using fe c m(3,4) a(3) by (simp only: same_sizes_updates same_sizes_refl simp_thms)
    then show ?thesis by blast
  qed
qed

lemma random_fill_full:
  assumes "random_job td io f bs am" "used am = {..<unat (nr_bits am)}"
  shows "\<exists>td' f'. fill_io_u dn False td io f = retc (False, td', io, f')"
  using random_fill [OF assms(1), of dn] assms(2) by blast

section \<open>Sequences of units\<close>

text \<open>
  The offsets and lengths of up to \<open>n\<close> units, each filled in from the same template and recorded in
  the file as \<open>get_io_u\<close> does; the list ends early when no unit can be filled in.
\<close>

fun issue_run :: "'z dist_fun \<Rightarrow> nat \<Rightarrow> thread_data \<Rightarrow> io_u \<Rightarrow> 'z fio_file \<Rightarrow> ((nat \<times> nat) list \<times> thread_data \<times> 'z fio_file) comp" where
  "issue_run dn 0 td io f = retc ([], td, f)"
| "issue_run dn (Suc n) td io f =
    bindc (fill_io_u dn False td io f) (\<lambda>(ok, td, io', f).
      if ok then bindc (issue_run dn n td io (record_io io' f)) (\<lambda>(l, td, f).
        retc ((unat (io_offset io'), unat (io_buflen io')) # l, td, f))
      else retc ([], td, f))"

lemma record_io_random_job [simp]: "random_job td io (record_io io' f) bs am = random_job td io f bs am"
  by (simp add: random_job_def record_io_def)

lemma record_io_sizes [simp]: "same_sizes f (record_io io g) = same_sizes f g"
  by (simp add: record_io_def)

lemma block_at_sizes: "same_sizes f g \<Longrightarrow> block_at g bs = block_at f bs"
  by (simp add: fun_eq_iff block_at_def same_sizes_def)

lemma used_finite: "axmap_inv am \<Longrightarrow> finite (used am)"
  by (rule axm.taken_finite)

lemma random_run:
  assumes "random_job td io f bs am" "n + card (used am) = unat (nr_bits am)"
  shows "\<exists>cs td' f' am'. issue_run dn n td io f = retc (map (\<lambda>c. (block_at f bs c, unat bs)) cs, td', f') \<and>
    distinct cs \<and> set cs = {..<unat (nr_bits am)} - used am \<and>
    random_job td' io f' bs am' \<and> nr_bits am' = nr_bits am \<and> used am' = {..<unat (nr_bits am)}"
  using assms
proof (induction n arbitrary: td f am)
  case 0
  then have "axmap_inv am" by (simp add: random_job_def Let_def)
  then have "used am = {..<unat (nr_bits am)}" using 0(2) by (intro card_subset_eq) (auto dest: axm.taken_bound)
  with 0 show ?case by (intro exI [of _ "[]"] exI [of _ td] exI [of _ f] exI [of _ am]) simp
next
  case (Suc n)
  let ?N = "unat (nr_bits am)"
  have inv: "axmap_inv am" using Suc.prems(1) by (simp add: random_job_def Let_def)
  have "card (used am) < card {..<?N}" using Suc.prems(2) by simp
  then have ne: "used am \<noteq> {..<?N}" by (metis less_irrefl)
  with random_fill [OF Suc.prems(1), of dn] obtain c td1 f1 am1 where
    s: "fill_io_u dn False td io f = retc (True, td1, io\<lparr>io_offset := c * ucast bs + file_offset f, io_buflen := ucast bs\<rparr>, f1)"
      "unat c < ?N" "unat c \<notin> used am" "random_job td1 io f1 bs am1" "same_sizes f f1" "nr_bits am1 = nr_bits am"
      "used am1 = insert (unat c) (used am)" by blast
  let ?io = "io\<lparr>io_offset := c * ucast bs + file_offset f, io_buflen := ucast bs\<rparr>"
  have "n + card (used am1) = unat (nr_bits am1)" using s(3,6,7) Suc.prems(2) used_finite [OF inv] by simp
  with Suc.IH [of td1 "record_io ?io f1" am1] s(4) obtain cs td' f' am' where
    r: "issue_run dn n td1 io (record_io ?io f1) = retc (map (\<lambda>c. (block_at (record_io ?io f1) bs c, unat bs)) cs, td', f')"
      "distinct cs" "set cs = {..<unat (nr_bits am1)} - used am1" "random_job td' io f' bs am'" "nr_bits am' = nr_bits am1"
      "used am' = {..<unat (nr_bits am1)}" by auto
  have w: "unat (file_offset f) + unat (io_size f) < 2 ^ 64" and ci: "unat c < unat (io_size f) div unat bs" and "bs \<noteq> 0"
    using Suc.prems(1) s(2) unat_u64_less [of "real_file_size f"] by (auto simp: random_job_def Let_def)
  then have o: "unat (c * ucast bs + file_offset f :: u64) = block_at f bs (unat c)" by (intro offset_words(2))
  have "block_at (record_io ?io f1) bs = block_at f bs" using s(5) by (intro block_at_sizes) simp
  then have run: "issue_run dn (Suc n) td io f = retc (map (\<lambda>c. (block_at f bs c, unat bs)) (unat c # cs), td', f')"
    using s(1) r(1) o by simp
  have cs: "distinct (unat c # cs)" "set (unat c # cs) = {..<?N} - used am" using r(2,3) s(2,3,6,7) by auto
  show ?case
    by (rule exI [of _ "unat c # cs"], rule exI [of _ td'], rule exI [of _ f'], rule exI [of _ am'])
       (use run cs r(4-6) s(6) in \<open>simp only: simp_thms\<close>)
qed

section \<open>Sequential I/O\<close>

text \<open>A job of sequential I/O with one block size, whose next unit is block \<open>i\<close> of the region.\<close>

definition seq_job :: "thread_data \<Rightarrow> io_u \<Rightarrow> 'z fio_file \<Rightarrow> u32 \<Rightarrow> nat \<Rightarrow> bool" where
  "seq_job td io f bs i \<longleftrightarrow>
    (let op = opts td; ddir = io_ddir io in
      ddir_rw ddir \<and> \<not> td_random td \<and> ddir_seq_nr op = 1 \<and> td_seq_nr td = 1 \<and> ddir_seq_add op = 0 \<and>
      \<not> time_based op \<and> \<not> bs_is_seq_rand op \<and> min_bs op ddir = bs \<and> max_bs op ddir = bs \<and> bs \<noteq> 0 \<and>
      zone_range op = 0 \<and> (\<exists>start. get_start_offset td f = Inr start) \<and>
      unat (file_offset f) + unat (io_size f) \<le> unat (real_file_size f) \<and> unat bs dvd unat (io_size f) \<and>
      unat (last_pos f ddir) = block_at f bs i \<and> i * unat bs \<le> unat (io_size f))"

lemma seq_offset:
  assumes "seq_job td io f bs i"
  shows "get_next_offset dn td io f =
    (if i * unat bs < unat (io_size f)
     then retc (True, False, td, io\<lparr>io_offset := last_pos f (io_ddir io)\<rparr>, f)
     else retc (False, False, td,
       if unat (last_pos f (io_ddir io)) < unat (real_file_size f)
       then io\<lparr>io_offset := last_pos f (io_ddir io) - file_offset f\<rparr> else io, f))"
proof -
  note j = assms [unfolded seq_job_def Let_def]
  let ?lp = "last_pos f (io_ddir io)"
  have "ddir_rw (io_ddir io)" "ddir_seq_nr (opts td) = 1" "td_seq_nr td = 1" using j by simp_all
  note hit = get_next_offset_hit [OF this, of dn f]
  obtain start where st: "get_start_offset td f = Inr start" using j by blast
  have lp: "unat ?lp = unat (file_offset f) + i * unat bs" using j by (simp add: block_at_def)
  then have d: "unat (?lp - file_offset f) = i * unat bs" by (subst unat_sub_no_wrap) (simp_all add: word_le_nat_alt)
  have ne: "?lp - file_offset f \<noteq> - 1" if "unat ?lp < unat (real_file_size f)"
  proof
    assume "?lp - file_offset f = - 1"
    then have "i * unat bs = 2 ^ 64 - 1" using d unat_u64_max by simp
    then show False using that lp unat_u64_less [of "real_file_size f"] by linarith
  qed
  have seq: "get_next_seq_offset td f (io_ddir io) =
      Inr (if unat ?lp < unat (real_file_size f) then Some (?lp - file_offset f) else None, f)"
    using j st by (simp add: get_next_seq_offset_def word_less_nat_alt Let_def)
  have pos: "choose_pos dn td io f True = retc (if unat ?lp < unat (real_file_size f)
      then Pos_offset (?lp - file_offset f) else Pos_none, False, td, io, f)"
    using j seq by (simp add: choose_pos_def pos_of_def Let_def)
  have blk: "get_next_block dn td io f True = (if unat ?lp < unat (real_file_size f)
      then retc (True, False, td, io\<lparr>io_offset := ?lp - file_offset f\<rparr>, f) else retc (False, False, td, io, f))"
    using j pos ne by (simp add: get_next_block_def)
  have b: "i * unat bs < unat (io_size f) \<Longrightarrow> unat ?lp < unat (real_file_size f)" using lp j by linarith
  show ?thesis
  proof (cases "i * unat bs < unat (io_size f)")
    case True
    have "\<not> io_size f \<le> ?lp - file_offset f" "?lp < real_file_size f"
      using True d b by (simp_all add: word_le_nat_alt word_less_nat_alt)
    then show ?thesis using True b hit blk by simp
  next
    case False
    then have "io_size f \<le> ?lp - file_offset f" using d by (simp add: word_le_nat_alt)
    then show ?thesis using False hit blk by simp
  qed
qed

lemma get_start_offset_frame:
  assumes "opts td' = opts td" "subjob_number td' = subjob_number td" "same_sizes f f'"
  shows "get_start_offset td' f' = get_start_offset td f"
proof -
  have "real_file_size f' = real_file_size f" "regular_file f' = regular_file f" "td_min_bs td' = td_min_bs td"
    using assms by (simp_all add: same_sizes_def td_min_bs_def)
  then show ?thesis unfolding get_start_offset_def assms(1,2) by (simp only:)
qed

lemma seq_fill:
  assumes "seq_job td io f bs i" "i * unat bs < unat (io_size f)"
  defines "io' \<equiv> io\<lparr>io_offset := last_pos f (io_ddir io), io_buflen := ucast bs\<rparr>"
  shows "\<exists>td'. fill_io_u dn False td io f = retc (True, td', io', f) \<and> seq_job td' io (record_io io' f) bs (Suc i)"
proof -
  note j = assms(1) [unfolded seq_job_def Let_def]
  let ?lp = "last_pos f (io_ddir io)" and ?td = "td\<lparr>zone_bytes := zone_bytes td + ucast bs\<rparr>"
  have lp: "unat ?lp = block_at f bs i" using j by blast
  have i: "Suc i * unat bs \<le> unat (io_size f)"
  proof -
    obtain k where k: "unat (io_size f) = unat bs * k" using j by (metis dvdE)
    then have "i < k" using assms(2) by (simp add: mult.commute)
    then show ?thesis unfolding k by (simp add: mult.commute [of "unat bs"] mult_le_mono1 del: mult_Suc)
  qed
  then have e: "unat (?lp + ucast bs) = block_at f bs (Suc i)"
    using lp j unat_u64_less [of "real_file_size f"] by (subst unat_add_no_wrap) (simp_all add: block_at_def)
  then have "\<not> ?lp + ucast bs > real_file_size f" using i j by (simp add: word_less_nat_alt block_at_def)
  then have "fill_rw dn td io f = retc (True, td, io', f)"
    using j seq_offset [OF assms(1), of dn] assms(2)
    by (simp add: fill_rw_def get_next_buflen_def io'_def Let_def)
  then have "fill_io_u dn False td io f = retc (True, ?td, io', f)"
    using j by (simp add: fill_io_u_def io'_def)
  moreover have "get_start_offset ?td (record_io io' f) = get_start_offset td f"
    by (rule get_start_offset_frame) simp_all
  then have "seq_job ?td io (record_io io' f) bs (Suc i)"
    using j i e by (auto simp: seq_job_def Let_def record_io_def io'_def td_random_def block_at_def)
  ultimately show ?thesis by blast
qed

lemma seq_run:
  assumes "seq_job td io f bs i" "unat (io_size f) = (i + n) * unat bs"
  shows "\<exists>td' f'. issue_run dn n td io f = retc (map (\<lambda>c. (block_at f bs c, unat bs)) [i..<i + n], td', f') \<and>
    seq_job td' io f' bs (i + n) \<and> same_sizes f f'"
  using assms
proof (induction n arbitrary: td f i)
  case 0
  then show ?case by auto
next
  case (Suc n)
  let ?io = "io\<lparr>io_offset := last_pos f (io_ddir io), io_buflen := ucast bs\<rparr>"
  have "0 < unat bs" "unat (last_pos f (io_ddir io)) = block_at f bs i"
    using Suc.prems(1) by (simp_all add: seq_job_def Let_def unat_gt_0)
  then have "i * unat bs < unat (io_size f)" using Suc.prems(2) by (simp add: algebra_simps)
  from seq_fill [OF Suc.prems(1) this, of dn] obtain td1 where
    f: "fill_io_u dn False td io f = retc (True, td1, ?io, f)" "seq_job td1 io (record_io ?io f) bs (Suc i)" by blast
  have sz: "same_sizes f (record_io ?io f)" by simp
  then have "unat (io_size (record_io ?io f)) = (Suc i + n) * unat bs" using Suc.prems(2) by (simp add: same_sizes_def)
  from Suc.IH [OF f(2) this] obtain td' f' where
    r: "issue_run dn n td1 io (record_io ?io f) = retc (map (\<lambda>c. (block_at (record_io ?io f) bs c, unat bs)) [Suc i..<Suc i + n], td', f')"
      "seq_job td' io f' bs (Suc i + n)" "same_sizes (record_io ?io f) f'" by blast
  have "[i..<i + Suc n] = i # [Suc i..<Suc i + n]" by (simp add: upt_conv_Cons)
  moreover have "same_sizes f f'" by (rule same_sizes_trans [OF sz r(3)])
  ultimately show ?case
    using f(1) r(1,2) block_at_sizes [OF sz] \<open>unat (last_pos f (io_ddir io)) = block_at f bs i\<close> by simp
qed

section \<open>Properties\<close>

text \<open>
  C3. Random I/O with a map covers the region fairly: from an empty map, as many units as the
  region has blocks visit every block exactly once, each with the full block size, whatever the
  generator draws; the next attempt finds no block left and fails.
\<close>

theorem random_io_covers_once:
  assumes "random_job td io f bs am" "used am = {}"
  shows "\<exists>cs td' f' td'' f''.
    issue_run dist_next (unat (nr_bits am)) td io f = retc (map (\<lambda>c. (block_at f bs c, unat bs)) cs, td', f') \<and>
    distinct cs \<and> set cs = {..<unat (nr_bits am)} \<and>
    fill_io_u dist_next False td' io f' = retc (False, td'', io, f'')"
proof -
  have "unat (nr_bits am) + card (used am) = unat (nr_bits am)" using assms(2) by simp
  from random_run [OF assms(1) this, of dist_next] obtain cs td' f' am' where
    r: "issue_run dist_next (unat (nr_bits am)) td io f = retc (map (\<lambda>c. (block_at f bs c, unat bs)) cs, td', f')"
      "distinct cs" "set cs = {..<unat (nr_bits am)}"
    and j: "random_job td' io f' bs am'" "nr_bits am' = nr_bits am" "used am' = {..<unat (nr_bits am)}"
    using assms(2) by auto
  moreover have "used am' = {..<unat (nr_bits am')}" using j(2,3) by simp
  ultimately obtain td'' f'' where "fill_io_u dist_next False td' io f' = retc (False, td'', io, f'')"
    using random_fill_full by blast
  with r show ?thesis by blast
qed

theorem random_io_covers_once_witness:
  "\<exists>am cs td' f' td'' f''. axmap_new (\<lambda>_. True) 0 2 = Inr (Some am) \<and>
    issue_run (\<lambda>_ z. (0, z)) 2 (sample_td (seq_options\<lparr>td_ddir := 5\<rparr>)) read_io (sample_file (Some am)) =
      retc (map (\<lambda>c. (block_at (sample_file (Some am)) 4096 c, 4096)) cs, td', f') \<and>
    distinct cs \<and> set cs = {..<2} \<and>
    fill_io_u (\<lambda>_ z. (0, z)) False td' read_io f' = retc (False, td'', read_io, f'')"
proof -
  obtain am where am: "axmap_new (\<lambda>_. True) 0 2 = Inr (Some am)" "axmap_inv am" "nr_bits am = 2" "used am = {}"
    using axmap_new_ok [of "\<lambda>_. True" 2 0] by auto
  have "random_job (sample_td (seq_options\<lparr>td_ddir := 5\<rparr>)) read_io (sample_file (Some am)) 4096 am"
    using am(2,3) by (simp add: random_job_def sample_td_def seq_options_def read_io_def sample_file_def ddir_rw_def
        td_random_def init_rand_def)
  from random_io_covers_once [OF this am(4), of "\<lambda>_ z. (0, z)"] am(1,3) show ?thesis by fastforce
qed

text \<open>
  C20. Sequential I/O tiles the region: from its start, the units are the blocks of the region in
  order, each with the full block size, and no unit follows the last block.
\<close>

theorem sequential_io_tiles:
  assumes "seq_job td io f bs 0" "unat (io_size f) = n * unat bs"
  shows "\<exists>td' f' td'' io'' f''.
    issue_run dist_next n td io f = retc (map (\<lambda>c. (block_at f bs c, unat bs)) [0..<n], td', f') \<and>
    fill_io_u dist_next False td' io f' = retc (False, td'', io'', f'')"
proof -
  from seq_run [OF assms(1), of n dist_next] assms(2) obtain td' f' where
    r: "issue_run dist_next n td io f = retc (map (\<lambda>c. (block_at f bs c, unat bs)) [0..<n], td', f')"
    and j: "seq_job td' io f' bs n" "same_sizes f f'" by auto
  have "\<not> n * unat bs < unat (io_size f')" using assms(2) j(2) by (simp add: same_sizes_def)
  then have "\<exists>td'' io'' f''. fill_io_u dist_next False td' io f' = retc (False, td'', io'', f'')"
    using j(1) seq_offset [OF j(1), of dist_next] by (simp add: fill_io_u_def fill_rw_def seq_job_def Let_def)
  with r show ?thesis by blast
qed

theorem sequential_io_tiles_witness:
  "\<exists>td' f' td'' io'' f''.
    issue_run (\<lambda>_ z. (0, z)) 2 (sample_td seq_options) read_io (sample_file None) =
      retc (map (\<lambda>c. (block_at (sample_file None) 4096 c, unat (4096 :: u32))) [0..<2], td', f') \<and>
    fill_io_u (\<lambda>_ z. (0, z)) False td' read_io f' = retc (False, td'', io'', f'')"
proof (rule sequential_io_tiles)
  show "seq_job (sample_td seq_options) read_io (sample_file None) 4096 0"
    by (simp add: seq_job_def sample_td_def seq_options_def read_io_def sample_file_def ddir_rw_def
        td_random_def get_start_offset_def block_at_def)
  show "unat (io_size (sample_file None)) = 2 * unat (4096 :: u32)" by (simp add: sample_file_def)
qed

end
