(* ===== verification/Stat_Plat.thy ===== *)
theory Stat_Plat
  imports Rand
begin

text \<open>
  The buckets of the latency histogram of \<open>stat.c\<close>: \<open>plat_val_to_idx\<close> maps a latency to the index
  of its bucket, \<open>plat_idx_to_val\<close> maps an index to the latency that stands for the bucket.
\<close>

section \<open>Definitions\<close>

definition FIO_IO_U_PLAT_BITS :: nat where
  "FIO_IO_U_PLAT_BITS = 6"

definition FIO_IO_U_PLAT_VAL :: nat where
  "FIO_IO_U_PLAT_VAL = 2 ^ FIO_IO_U_PLAT_BITS"

definition FIO_IO_U_PLAT_GROUP_NR :: nat where
  "FIO_IO_U_PLAT_GROUP_NR = 29"

definition FIO_IO_U_PLAT_NR :: nat where
  "FIO_IO_U_PLAT_NR = FIO_IO_U_PLAT_GROUP_NR * FIO_IO_U_PLAT_VAL"

text \<open>
  The number of leading zeros of a nonzero value is 64 less the length of its binary form.  All
  unsigned intermediate results are below \<open>2 ^ 12\<close> and no operation wraps, so that they are natural
  numbers here.
\<close>

definition clzll :: "u64 \<Rightarrow> nat" where
  "clzll val = 64 - bitlen (unat val)"

definition plat_val_to_idx :: "u64 \<Rightarrow> nat" where
  "plat_val_to_idx val =
    (let msb = (if val = 0 then 0 else 64 - clzll val - 1)
     in if msb \<le> FIO_IO_U_PLAT_BITS then unat val
        else let error_bits = msb - FIO_IO_U_PLAT_BITS;
                 base = (error_bits + 1) * 2 ^ FIO_IO_U_PLAT_BITS;
                 offset = (FIO_IO_U_PLAT_VAL - 1) AND unat (drop_bit error_bits val)
             in if base + offset < FIO_IO_U_PLAT_NR - 1 then base + offset else FIO_IO_U_PLAT_NR - 1)"

text \<open>
  The mean of the bucket is computed as a double, exactly: \<open>(k + 0.5) * 2 ^ e\<close> is
  \<open>(2 k + 1) 2 ^ e / 2\<close> and every number involved is below \<open>2 ^ 53\<close>.
\<close>

definition plat_idx_to_val :: "nat \<Rightarrow> u64 res" where
  "plat_idx_to_val idx = assertr (idx < FIO_IO_U_PLAT_NR)
    (if idx < FIO_IO_U_PLAT_VAL * 2 then Inr (of_nat idx)
     else let error_bits = idx div 2 ^ FIO_IO_U_PLAT_BITS - 1;
              base = 2 ^ (error_bits + FIO_IO_U_PLAT_BITS);
              k = idx mod FIO_IO_U_PLAT_VAL
          in Inr (of_nat (base + (2 * k + 1) * 2 ^ error_bits div 2)))"

text \<open>Counting a sample, in the histogram of one direction.\<close>

definition add_clat_percentile_sample :: "u32 list \<Rightarrow> u64 \<Rightarrow> u32 list res" where
  "add_clat_percentile_sample io_u_plat nsec =
    (let idx = plat_val_to_idx nsec
     in assertr (idx < FIO_IO_U_PLAT_NR) (bindr (rd io_u_plat idx) (\<lambda>c. wr io_u_plat idx (c + 1))))"

lemmas plat_defs = FIO_IO_U_PLAT_BITS_def FIO_IO_U_PLAT_VAL_def FIO_IO_U_PLAT_GROUP_NR_def FIO_IO_U_PLAT_NR_def

section \<open>Buckets\<close>

lemma less_bitlen: "n < 2 ^ bitlen n"
proof (induction n rule: bitlen.induct)
  case (1 n)
  show ?case
  proof (cases "n = 0")
    case False
    then have "n div 2 < 2 ^ bitlen (n div 2)" using 1 by simp
    then have "n < 2 * 2 ^ bitlen (n div 2)" by (simp add: div_less_iff_less_mult mult.commute)
    then show ?thesis using False by (simp add: bitlen.simps [of n])
  qed simp
qed

lemma and_63: "63 AND n = n mod 64" for n :: nat
  using take_bit_eq_mask [of 6 n] by (simp add: take_bit_eq_mod mask_eq_exp_minus_1 and.commute)

text \<open>A value from 128 up lies in group \<open>e \<ge> 1\<close>, where \<open>2 ^ (e + 6) \<le> n < 2 ^ (e + 7)\<close>.\<close>

lemma group_of:
  assumes "128 \<le> n"
  obtains e where "bitlen n = e + 7" "1 \<le> e" "2 ^ (e + 6) \<le> n" "n < 2 ^ (e + 7)"
    "64 \<le> n div 2 ^ e" "n div 2 ^ e < 128"
proof -
  have "\<not> bitlen n \<le> 7"
  proof
    assume "bitlen n \<le> 7"
    then have "2 ^ bitlen n \<le> (2 :: nat) ^ 7" by (rule power_increasing) simp
    then show False using less_bitlen [of n] assms by simp
  qed
  define e where "e = bitlen n - 7"
  have e: "bitlen n = e + 7" "1 \<le> e" using \<open>\<not> bitlen n \<le> 7\<close> by (simp_all add: e_def)
  have lo: "2 ^ (e + 6) \<le> n" using bitlen_le [of n] e(1) assms by (simp add: add.commute)
  have hi: "n < 2 ^ (e + 7)" using less_bitlen [of n] e(1) by simp
  have "64 \<le> n div 2 ^ e" using lo by (simp add: less_eq_div_iff_mult_less_eq power_add)
  moreover have "n div 2 ^ e < 128" using hi by (simp add: div_less_iff_less_mult power_add)
  ultimately show thesis using that e lo hi by blast
qed

lemma plat_val_to_idx_small: "unat val < 128 \<Longrightarrow> plat_val_to_idx val = unat val"
  using bitlen_less [of "unat val" 7] by (auto simp: plat_val_to_idx_def clzll_def plat_defs Let_def)

lemma plat_val_to_idx_group:
  assumes "unat val = n" "bitlen n = e + 7" "64 \<le> n div 2 ^ e" "n div 2 ^ e < 128" "e \<le> 27" "1 \<le> e"
  shows "plat_val_to_idx val = 64 * e + n div 2 ^ e"
proof -
  have "val \<noteq> 0" using assms(1,2) by (auto simp: bitlen.simps [of 0])
  moreover have "64 - clzll val - 1 = e + 6" using assms(1,2,5) by (simp add: clzll_def)
  moreover have "63 AND unat (drop_bit e val) = n div 2 ^ e - 64"
    using assms(1,3,4) by (simp add: and_63 unat_drop_bit mod_if)
  ultimately show ?thesis using assms(3-6) by (auto simp: plat_val_to_idx_def plat_defs Let_def)
qed

lemma bitlen_eqI:
  assumes "2 ^ k \<le> n" "n < 2 ^ Suc k"
  shows "bitlen n = Suc k"
proof (rule antisym)
  show "bitlen n \<le> Suc k" using assms(2) by (rule bitlen_less)
  show "Suc k \<le> bitlen n"
  proof (rule ccontr)
    assume "\<not> Suc k \<le> bitlen n"
    then have "2 ^ bitlen n \<le> (2 :: nat) ^ k" by (intro power_increasing) simp_all
    then show False using less_bitlen [of n] assms(1) by linarith
  qed
qed

text \<open>The value that stands for the bucket \<open>64 (e + 1) + k\<close>.\<close>

definition bucket_mid :: "nat \<Rightarrow> nat \<Rightarrow> nat" where
  "bucket_mid e k = (64 + k) * 2 ^ e + 2 ^ (e - 1)"

lemma bucket_mid_bounds:
  assumes "1 \<le> e" "e \<le> 27" "k < 64"
  shows "bucket_mid e k div 2 ^ e = 64 + k" "2 ^ (e + 6) \<le> bucket_mid e k" "bucket_mid e k < 2 ^ (e + 7)"
    "bucket_mid e k < 2 ^ 34"
proof -
  have half: "(2 :: nat) ^ (e - 1) < 2 ^ e" using assms(1) by (intro power_strict_increasing) simp_all
  show "bucket_mid e k div 2 ^ e = 64 + k" using half by (simp add: bucket_mid_def)
  have "64 * 2 ^ e \<le> (64 + k) * 2 ^ e" by (intro mult_le_mono1) simp
  then have "64 * 2 ^ e \<le> bucket_mid e k" unfolding bucket_mid_def by (rule trans_le_add1)
  then show "2 ^ (e + 6) \<le> bucket_mid e k" by (simp add: power_add mult.commute)
  have "(64 + k + 1) * 2 ^ e \<le> 128 * 2 ^ e" using assms(3) by (intro mult_le_mono1) simp
  then have "(64 + k) * 2 ^ e + 2 ^ e \<le> 128 * 2 ^ e" unfolding add_mult_distrib by simp
  then have "bucket_mid e k < 128 * 2 ^ e" unfolding bucket_mid_def using half by linarith
  then show hi: "bucket_mid e k < 2 ^ (e + 7)" by (simp add: power_add mult.commute)
  have "(2 :: nat) ^ (e + 7) \<le> 2 ^ 34" using assms(2) by (intro power_increasing) simp_all
  with hi show "bucket_mid e k < 2 ^ 34" by linarith
qed

lemma plat_idx_to_val_group:
  assumes "1 \<le> e" "e \<le> 27" "k < 64"
  shows "plat_idx_to_val (64 * (e + 1) + k) = Inr (of_nat (bucket_mid e k))"
proof -
  define idx where "idx = 64 * (e + 1) + k"
  have d: "idx div 64 - 1 = e" "idx mod 64 = k"
    using assms by (simp_all add: idx_def mod_mult_self4 del: mult_Suc_right)
  have ge: "\<not> idx < 128" using assms unfolding idx_def by presburger
  have lt: "idx < 1856" using assms unfolding idx_def by presburger
  have "(2 :: nat) ^ e = 2 * 2 ^ (e - 1)" using assms(1) by (cases e) simp_all
  then have "2 ^ (e + 6) + (2 * k + 1) * 2 ^ e div 2 = bucket_mid e k"
    by (simp add: bucket_mid_def power_add algebra_simps)
  with d ge lt have "plat_idx_to_val idx = Inr (of_nat (bucket_mid e k))"
    by (simp add: plat_idx_to_val_def plat_defs Let_def del: of_nat_add of_nat_mult of_nat_power)
  then show ?thesis by (simp only: idx_def)
qed

lemma unat_of_nat_34: "n < 2 ^ 34 \<Longrightarrow> unat (of_nat n :: u64) = n"
  by (simp add: unsigned_of_nat take_bit_nat_eq_self)

section \<open>Properties\<close>

text \<open>
  C33. The histogram keeps latencies accurately: below \<open>2 ^ 34\<close> nanoseconds the value that stands for
  the bucket of a sample differs from the sample by at most one part in 128, and the bucket exists.
\<close>

theorem plat_accurate:
  assumes "unat val < 2 ^ 34"
  shows "plat_val_to_idx val < FIO_IO_U_PLAT_NR \<and>
    (\<exists>v. plat_idx_to_val (plat_val_to_idx val) = Inr v \<and> 128 * \<bar>int (unat v) - int (unat val)\<bar> \<le> int (unat val))"
proof (cases "unat val < 128")
  case True
  then show ?thesis using plat_val_to_idx_small [OF True] by (simp add: plat_idx_to_val_def plat_defs)
next
  case False
  define n where "n = unat val"
  obtain e where e: "bitlen n = e + 7" "1 \<le> e" "2 ^ (e + 6) \<le> n" "n < 2 ^ (e + 7)" "64 \<le> n div 2 ^ e" "n div 2 ^ e < 128"
    using group_of [of n] False by (auto simp: n_def)
  have "bitlen n \<le> 34" using assms by (intro bitlen_less) (simp add: n_def)
  then have e27: "e \<le> 27" using e(1) by simp
  define k where "k = n div 2 ^ e - 64"
  have k: "k < 64" "n div 2 ^ e = 64 + k" using e(5,6) by (simp_all add: k_def)
  have idx: "plat_val_to_idx val = 64 * (e + 1) + k"
    using plat_val_to_idx_group [OF n_def [symmetric] e(1,5,6) e27 e(2)] k(2) by simp
  have v: "plat_idx_to_val (plat_val_to_idx val) = Inr (of_nat (bucket_mid e k))"
    "unat (of_nat (bucket_mid e k) :: u64) = bucket_mid e k"
    using plat_idx_to_val_group [OF e(2) e27 k(1)] bucket_mid_bounds(4) [OF e(2) e27 k(1)] idx
    by (simp_all only: unat_of_nat_34)
  have two: "(2 :: nat) ^ e = 2 * 2 ^ (e - 1)" using e(2) by (cases e) simp_all
  have n: "n = (64 + k) * 2 ^ e + n mod 2 ^ e" using k(2) by (metis div_mult_mod_eq)
  define h where "h = (2 :: nat) ^ (e - 1)"
  have "n mod 2 ^ e < 2 ^ e" by simp
  then have "\<bar>int (bucket_mid e k) - int n\<bar> \<le> int h"
    using n two unfolding bucket_mid_def h_def by linarith
  moreover have "128 * h \<le> n" using e(3) two by (simp add: power_add h_def)
  then have "128 * int h \<le> int n" by linarith
  ultimately have "128 * \<bar>int (bucket_mid e k) - int n\<bar> \<le> int n" by (meson mult_left_mono order_trans zero_le_numeral)
  moreover have "plat_val_to_idx val < FIO_IO_U_PLAT_NR" using idx e27 k(1) by (simp add: plat_defs)
  ultimately show ?thesis unfolding n_def using v by metis
qed

theorem plat_accurate_witness:
  "plat_val_to_idx 1000000 < FIO_IO_U_PLAT_NR \<and>
    (\<exists>v. plat_idx_to_val (plat_val_to_idx 1000000) = Inr v \<and>
      128 * \<bar>int (unat v) - int (unat (1000000 :: u64))\<bar> \<le> int (unat (1000000 :: u64)))"
  by (rule plat_accurate) simp

text \<open>Every bucket is reached: the value that stands for a bucket is counted in that bucket.\<close>

theorem plat_roundtrip:
  assumes "idx < FIO_IO_U_PLAT_NR"
  shows "\<exists>v. plat_idx_to_val idx = Inr v \<and> plat_val_to_idx v = idx"
proof (cases "idx < 128")
  case True
  then have "unat (of_nat idx :: u64) = idx" by (intro unat_of_nat_34) simp
  with True show ?thesis
    using plat_val_to_idx_small [of "of_nat idx"] by (simp add: plat_idx_to_val_def plat_defs)
next
  case False
  define e k where "e = idx div 64 - 1" and "k = idx mod 64"
  have ek: "1 \<le> e" "e \<le> 27" "k < 64" "idx = 64 * (e + 1) + k"
    using False assms by (auto simp: e_def k_def plat_defs)
  note b = bucket_mid_bounds [OF ek(1-3)]
  have "bitlen (bucket_mid e k) = e + 7" using bitlen_eqI [of "e + 6" "bucket_mid e k"] b(2,3)
    by (simp add: add.commute)
  from plat_val_to_idx_group [OF unat_of_nat_34 [OF b(4)] this _ _ ek(2,1)] b(1) ek(3)
  have "plat_val_to_idx (of_nat (bucket_mid e k)) = idx" using ek(4) by simp
  with plat_idx_to_val_group [OF ek(1-3)] ek(4) show ?thesis by simp
qed

theorem plat_roundtrip_witness: "\<exists>v. plat_idx_to_val 1855 = Inr v \<and> plat_val_to_idx v = 1855"
  by (rule plat_roundtrip) (simp add: plat_defs)

end
