(* ===== verification/Io_Queue.thy ===== *)
theory Io_Queue
  imports Bitops
begin

text \<open>
  The containers of I/O units of \<open>io_u_queue.h\<close> and \<open>io_u_queue.c\<close>: the stack of free units and the
  ring of units to be issued again.  A pointer to a unit is a value of any type, the null pointer
  is \<open>None\<close>.  A locale states what a user of either container relies on; each container is shown to
  provide it.
\<close>

section \<open>The stack\<close>

record 'a io_u_queue =
  io_us :: "'a option list"
  q_nr :: u32
  q_max :: u32

text \<open>\<open>calloc_ok\<close> tells whether the allocation succeeds.\<close>

definition io_u_qinit :: "bool \<Rightarrow> u32 \<Rightarrow> 'a io_u_queue option" where
  "io_u_qinit calloc_ok nr =
    (if \<not> calloc_ok then None else Some \<lparr>io_us = replicate (unat nr) None, q_nr = 0, q_max = nr\<rparr>)"

definition io_u_qpop :: "'a io_u_queue \<Rightarrow> ('a option \<times> 'a io_u_queue) res" where
  "io_u_qpop q =
    (if q_nr q \<noteq> 0
     then let next = q_nr q - 1 in
          bindr (rd (io_us q) (unat next)) (\<lambda>u. bindr (wr (io_us q) (unat next) None) (\<lambda>us.
            Inr (u, q\<lparr>q_nr := next, io_us := us\<rparr>)))
     else Inr (None, q))"

definition io_u_qpush :: "'a io_u_queue \<Rightarrow> 'a \<Rightarrow> 'a io_u_queue res" where
  "io_u_qpush q u =
    (if q_nr q < q_max q
     then bindr (wr (io_us q) (unat (q_nr q)) (Some u)) (\<lambda>us. Inr (q\<lparr>io_us := us, q_nr := q_nr q + 1\<rparr>))
     else Inl Assert_failed)"

definition io_u_qempty :: "'a io_u_queue \<Rightarrow> bool" where
  "io_u_qempty q \<longleftrightarrow> q_nr q = 0"

section \<open>The ring\<close>

record 'a io_u_ring =
  r_head :: u32
  r_tail :: u32
  r_max :: u32
  ring :: "'a option list"

definition ring_round :: "u32 \<Rightarrow> u32" where
  "ring_round m =
    (if m AND (m - 1) \<noteq> 0
     then let m = m - 1; m = m OR drop_bit 1 m; m = m OR drop_bit 2 m; m = m OR drop_bit 4 m;
              m = m OR drop_bit 8 m; m = m OR drop_bit 16 m
          in m + 1
     else m)"

definition io_u_rinit :: "bool \<Rightarrow> u32 \<Rightarrow> 'a io_u_ring option" where
  "io_u_rinit calloc_ok nr =
    (let m = ring_round (nr + 1)
     in if \<not> calloc_ok then None
        else Some \<lparr>r_head = 0, r_tail = 0, r_max = m, ring = replicate (unat m) None\<rparr>)"

definition io_u_rpush :: "'a io_u_ring \<Rightarrow> 'a \<Rightarrow> 'a io_u_ring res" where
  "io_u_rpush r u =
    (if r_head r + 1 \<noteq> r_tail r
     then bindr (wr (ring r) (unat (r_head r)) (Some u)) (\<lambda>us.
       Inr (r\<lparr>ring := us, r_head := (r_head r + 1) AND (r_max r - 1)\<rparr>))
     else Inl Assert_failed)"

definition io_u_rpop :: "'a io_u_ring \<Rightarrow> ('a option \<times> 'a io_u_ring) res" where
  "io_u_rpop r =
    (if r_head r \<noteq> r_tail r
     then bindr (rd (ring r) (unat (r_tail r))) (\<lambda>u. Inr (u, r\<lparr>r_tail := (r_tail r + 1) AND (r_max r - 1)\<rparr>))
     else Inr (None, r))"

definition io_u_rempty :: "'a io_u_ring \<Rightarrow> bool" where
  "io_u_rempty r \<longleftrightarrow> r_head r = r_tail r"

section \<open>Sequences of operations\<close>

datatype 'a queue_op = Push 'a | Pop

fun run_ops :: "('q \<Rightarrow> 'a \<Rightarrow> 'q res) \<Rightarrow> ('q \<Rightarrow> ('a option \<times> 'q) res) \<Rightarrow> 'a queue_op list \<Rightarrow> 'q \<Rightarrow> ('a option list \<times> 'q) res" where
  "run_ops push pop [] q = Inr ([], q)"
| "run_ops push pop (Push x # ops) q = bindr (push q x) (run_ops push pop ops)"
| "run_ops push pop (Pop # ops) q =
    bindr (pop q) (\<lambda>(u, q). bindr (run_ops push pop ops q) (\<lambda>(us, q). Inr (u # us, q)))"

text \<open>The same operations on a list, whose head is taken; \<open>ins\<close> says where a unit is put.\<close>

fun list_ops :: "('a list \<Rightarrow> 'a \<Rightarrow> 'a list) \<Rightarrow> 'a queue_op list \<Rightarrow> 'a list \<Rightarrow> 'a option list \<times> 'a list" where
  "list_ops ins [] xs = ([], xs)"
| "list_ops ins (Push x # ops) xs = list_ops ins ops (ins xs x)"
| "list_ops ins (Pop # ops) [] = (let (us, ys) = list_ops ins ops [] in (None # us, ys))"
| "list_ops ins (Pop # ops) (x # xs) = (let (us, ys) = list_ops ins ops xs in (Some x # us, ys))"

text \<open>At no time more than \<open>n\<close> units are held, starting from \<open>k\<close>.\<close>

fun within :: "nat \<Rightarrow> 'a queue_op list \<Rightarrow> nat \<Rightarrow> bool" where
  "within n [] k \<longleftrightarrow> True"
| "within n (Push x # ops) k \<longleftrightarrow> k < n \<and> within n ops (k + 1)"
| "within n (Pop # ops) k \<longleftrightarrow> within n ops (k - 1)"

section \<open>What a container promises\<close>

locale unit_container =
  fixes inv :: "'q \<Rightarrow> bool"
    and contents :: "'q \<Rightarrow> 'a list"
    and room :: "'q \<Rightarrow> nat"
    and ins :: "'a list \<Rightarrow> 'a \<Rightarrow> 'a list"
    and push :: "'q \<Rightarrow> 'a \<Rightarrow> 'q res"
    and pop :: "'q \<Rightarrow> ('a option \<times> 'q) res"
  assumes ins_length: "length (ins xs x) = Suc (length xs)"
    and push_law: "\<And>q x. inv q \<Longrightarrow> length (contents q) < room q \<Longrightarrow>
      \<exists>q'. push q x = Inr q' \<and> inv q' \<and> room q' = room q \<and> contents q' = ins (contents q) x"
    and pop_empty_law: "\<And>q. inv q \<Longrightarrow> contents q = [] \<Longrightarrow> pop q = Inr (None, q)"
    and pop_law: "\<And>q x xs. inv q \<Longrightarrow> contents q = x # xs \<Longrightarrow>
      \<exists>q'. pop q = Inr (Some x, q') \<and> inv q' \<and> room q' = room q \<and> contents q' = xs"
begin

lemma run_refines:
  assumes "inv q" "within n ops (length (contents q))" "n \<le> room q"
  shows "\<exists>q'. run_ops push pop ops q = Inr (fst (list_ops ins ops (contents q)), q') \<and> inv q' \<and>
    contents q' = snd (list_ops ins ops (contents q))"
  using assms
proof (induction ops arbitrary: q)
  case (Cons op ops)
  show ?case
  proof (cases op)
    case (Push x)
    have "length (contents q) < room q" using Cons.prems Push by simp
    from push_law [OF Cons.prems(1) this, of x] obtain q' where
      p: "push q x = Inr q'" "inv q'" "room q' = room q" "contents q' = ins (contents q) x" by blast
    with Cons.IH [of q'] Cons.prems Push show ?thesis by (simp add: ins_length)
  next
    case Pop
    show ?thesis
    proof (cases "contents q")
      case Nil
      with Cons.IH [of q] Cons.prems Pop pop_empty_law [of q] show ?thesis by (fastforce simp: split_beta)
    next
      case (Cons x xs)
      from pop_law [OF Cons.prems(1) Cons] obtain q' where
        p: "pop q = Inr (Some x, q')" "inv q'" "room q' = room q" "contents q' = xs" by blast
      with Cons.IH [of q'] Cons.prems Pop Cons show ?thesis by (fastforce simp: split_beta)
    qed
  qed
qed simp

end

section \<open>The stack provides it\<close>

definition stack_inv :: "'a io_u_queue \<Rightarrow> bool" where
  "stack_inv q \<longleftrightarrow> length (io_us q) = unat (q_max q) \<and> q_nr q \<le> q_max q \<and> (\<forall>i<unat (q_nr q). io_us q ! i \<noteq> None)"

definition stack_contents :: "'a io_u_queue \<Rightarrow> 'a list" where
  "stack_contents q = rev (map the (take (unat (q_nr q)) (io_us q)))"

lemma stack_length: "stack_inv q \<Longrightarrow> length (stack_contents q) = unat (q_nr q)"
  by (simp add: stack_contents_def stack_inv_def word_le_nat_alt)

lemma stack_push:
  assumes "stack_inv q" "length (stack_contents q) < unat (q_max q)"
  shows "\<exists>q'. io_u_qpush q x = Inr q' \<and> stack_inv q' \<and> unat (q_max q') = unat (q_max q) \<and>
    stack_contents q' = x # stack_contents q"
proof -
  have lt: "unat (q_nr q) < unat (q_max q)" using assms stack_length by metis
  then have n: "unat (q_nr q + 1) = Suc (unat (q_nr q))"
    using unat_u32_less [of "q_max q"] by (subst unat_add_no_wrap) simp_all
  have len: "length (io_us q) = unat (q_max q)" using assms(1) by (simp add: stack_inv_def)
  let ?q = "q\<lparr>io_us := (io_us q)[unat (q_nr q) := Some x], q_nr := q_nr q + 1\<rparr>"
  have "io_u_qpush q x = Inr ?q" using lt len by (simp add: io_u_qpush_def word_less_nat_alt)
  moreover have "stack_inv ?q"
    using assms(1) lt n by (auto simp: stack_inv_def word_le_nat_alt nth_list_update less_Suc_eq)
  moreover have "stack_contents ?q = x # stack_contents q"
    using lt len n by (simp add: stack_contents_def take_Suc_conv_app_nth)
  ultimately show ?thesis by auto
qed

lemma stack_pop:
  assumes "stack_inv q" "stack_contents q = x # xs"
  shows "\<exists>q'. io_u_qpop q = Inr (Some x, q') \<and> stack_inv q' \<and> unat (q_max q') = unat (q_max q) \<and> stack_contents q' = xs"
proof -
  have pos: "0 < unat (q_nr q)" using stack_length [OF assms(1)] assms(2) by auto
  define k where "k = unat (q_nr q) - 1"
  have k: "unat (q_nr q - 1) = k" "unat (q_nr q) = Suc k"
    using pos by (simp_all add: k_def unat_sub_no_wrap word_le_nat_alt)
  have len: "length (io_us q) = unat (q_max q)" "unat (q_nr q) \<le> unat (q_max q)" "io_us q ! k \<noteq> None"
    using assms(1) k by (auto simp: stack_inv_def word_le_nat_alt)
  have c: "stack_contents q = the (io_us q ! k) # rev (map the (take k (io_us q)))"
    using len k(2) by (simp add: stack_contents_def take_Suc_conv_app_nth)
  let ?q = "q\<lparr>q_nr := q_nr q - 1, io_us := (io_us q)[k := None]\<rparr>"
  have "io_u_qpop q = Inr (io_us q ! k, ?q)"
    using pos k len by (auto simp: io_u_qpop_def Let_def)
  moreover have "io_us q ! k = Some x" using c assms(2) len(3) by auto
  moreover have "stack_inv ?q" using assms(1) k len by (auto simp: stack_inv_def word_le_nat_alt nth_list_update)
  moreover have "stack_contents ?q = xs" using c assms(2) k(1) by (simp add: stack_contents_def)
  ultimately show ?thesis by auto
qed

interpretation iou_stack: unit_container stack_inv stack_contents "\<lambda>q. unat (q_max q)" "\<lambda>xs x. x # xs" io_u_qpush io_u_qpop
proof (unfold_locales, goal_cases)
  case (3 q)
  then show ?case using stack_length [of q] by (simp add: io_u_qpop_def word_unat_eq_iff)
qed (use stack_push stack_pop in auto)

section \<open>The ring provides it\<close>

definition ring_size :: "'a io_u_ring \<Rightarrow> nat" where
  "ring_size r = unat (r_max r)"

definition ring_count :: "'a io_u_ring \<Rightarrow> nat" where
  "ring_count r = (unat (r_head r) + ring_size r - unat (r_tail r)) mod ring_size r"

definition ring_slot :: "'a io_u_ring \<Rightarrow> nat \<Rightarrow> 'a option" where
  "ring_slot r i = ring r ! ((unat (r_tail r) + i) mod ring_size r)"

definition ring_inv :: "'a io_u_ring \<Rightarrow> bool" where
  "ring_inv r \<longleftrightarrow> (\<exists>p\<le>31. r_max r = 2 ^ p \<and> unat (r_max r) = 2 ^ p) \<and> length (ring r) = ring_size r \<and>
    unat (r_head r) < ring_size r \<and> unat (r_tail r) < ring_size r \<and> (\<forall>i<ring_count r. ring_slot r i \<noteq> None)"

definition ring_contents :: "'a io_u_ring \<Rightarrow> 'a list" where
  "ring_contents r = map (\<lambda>i. the (ring_slot r i)) [0..<ring_count r]"

lemma window_neq: "i < j \<Longrightarrow> j < M \<Longrightarrow> (t + i) mod M \<noteq> (t + j) mod M" for i j t M :: nat
proof
  assume a: "i < j" "j < M" "(t + i) mod M = (t + j) mod M"
  then have "M dvd (t + j) - (t + i)" using mod_eq_dvd_iff_nat [of "t + i" "t + j" M] by simp
  then have "M dvd j - i" by simp
  then show False using a(1,2) by (meson dvd_imp_le less_imp_diff_less not_le zero_less_diff)
qed

lemma window_end: "h < M \<Longrightarrow> t < M \<Longrightarrow> (t + (h + M - t) mod M) mod M = h" for h t M :: nat
  by (simp add: mod_add_right_eq)

lemma window_count:
  assumes "t < M" "c < M"
  shows "((t + c) mod M + M - t) mod M = (c :: nat)"
proof -
  have "((t + c) mod M + M - t) mod M = ((t + c) mod M + (M - t)) mod M" using assms(1) by simp
  also have "\<dots> = (t + c + (M - t)) mod M" by (rule mod_add_left_eq)
  also have "t + c + (M - t) = c + M" using assms(1) by simp
  finally show ?thesis using assms(2) by simp
qed

lemma ring_size_le: "ring_inv r \<Longrightarrow> ring_size r \<le> 2 ^ 31"
  using power_increasing [of _ 31 "2 :: nat"] by (auto simp: ring_inv_def ring_size_def)

lemma next_index:
  assumes "ring_inv r" "unat v < ring_size r"
  shows "unat ((v + 1) AND (r_max r - 1)) = (unat v + 1) mod ring_size r"
proof -
  obtain p where p: "p \<le> 31" "r_max r = 2 ^ p" "unat (r_max r) = 2 ^ p" using assms(1) by (auto simp: ring_inv_def)
  have "(2 :: nat) ^ p \<le> 2 ^ 31" using p(1) by (intro power_increasing) simp_all
  then have "unat (v + 1) = unat v + 1" using assms(2) p(3) by (subst unat_add_no_wrap) (simp_all add: ring_size_def)
  moreover have "r_max r - 1 = mask p" by (simp add: p(2) mask_eq_exp_minus_1)
  ultimately show ?thesis by (simp only: unat_and_mask p(3) ring_size_def)
qed

lemma ring_push:
  assumes inv: "ring_inv r" and room: "length (ring_contents r) < ring_size r - 1"
  shows "\<exists>r'. io_u_rpush r x = Inr r' \<and> ring_inv r' \<and> ring_size r' - 1 = ring_size r - 1 \<and>
    ring_contents r' = ring_contents r @ [x]"
proof -
  let ?M = "ring_size r" and ?h = "unat (r_head r)" and ?t = "unat (r_tail r)" and ?c = "ring_count r"
  note i = inv [unfolded ring_inv_def]
  have ht: "?h < ?M" "?t < ?M" "length (ring r) = ?M" using i by auto
  have c: "Suc ?c < ?M" using room by (simp add: ring_contents_def)
  have "?M \<le> 2 ^ 31" by (rule ring_size_le [OF inv])
  then have h1: "unat (r_head r + 1) = ?h + 1" using ht(1) by (subst unat_add_no_wrap) simp_all
  have ne: "r_head r + 1 \<noteq> r_tail r"
  proof
    assume "r_head r + 1 = r_tail r"
    then have "?t = ?h + 1" using h1 by simp
    then have "?c = ?M - 1" using ht by (simp add: ring_count_def)
    then show False using c by simp
  qed
  define r' where "r' = r\<lparr>ring := (ring r)[?h := Some x], r_head := (r_head r + 1) AND (r_max r - 1)\<rparr>"
  have s: "ring_size r' = ?M" "unat (r_tail r') = ?t" "unat (r_head r') = (?h + 1) mod ?M"
    "ring r' = (ring r)[?h := Some x]" "r_max r' = r_max r"
    using next_index [OF inv ht(1)] by (simp_all add: r'_def ring_size_def)
  have end_slot: "(?t + ?c) mod ?M = ?h" using window_end [OF ht(1,2)] by (simp add: ring_count_def)
  have "(?h + 1) mod ?M = (?t + Suc ?c) mod ?M" using mod_Suc_eq [of "?t + ?c" ?M] end_slot by simp
  then have c': "ring_count r' = Suc ?c" unfolding ring_count_def [of r'] s using window_count [OF ht(2) c] by simp
  have slot: "ring_slot r' j = (if j = ?c then Some x else ring_slot r j)" if "j \<le> ?c" for j
  proof (cases "j = ?c")
    case True
    then show ?thesis using end_slot ht by (simp add: ring_slot_def s)
  next
    case False
    then have "(?t + j) mod ?M \<noteq> ?h" using window_neq [of j ?c ?M ?t] that c end_slot by simp
    then show ?thesis using False by (simp add: ring_slot_def s)
  qed
  have "io_u_rpush r x = Inr r'" using ne ht by (simp add: io_u_rpush_def r'_def)
  moreover have "ring_inv r'" using i c' slot ht c unfolding ring_inv_def s c'
    by (auto simp: less_Suc_eq_le)
  moreover have "ring_contents r' = ring_contents r @ [x]"
    unfolding ring_contents_def c' using slot by (simp cong: map_cong)
  ultimately show ?thesis using s(1) by auto
qed

lemma ring_pop:
  assumes inv: "ring_inv r" and cons: "ring_contents r = x # xs"
  shows "\<exists>r'. io_u_rpop r = Inr (Some x, r') \<and> ring_inv r' \<and> ring_size r' - 1 = ring_size r - 1 \<and> ring_contents r' = xs"
proof -
  let ?M = "ring_size r" and ?h = "unat (r_head r)" and ?t = "unat (r_tail r)"
  note i = inv [unfolded ring_inv_def]
  have ht: "?h < ?M" "?t < ?M" "length (ring r) = ?M" using i by auto
  obtain c where c: "ring_count r = Suc c" using cons by (cases "ring_count r") (auto simp: ring_contents_def)
  have cM: "Suc c < ?M" unfolding c [symmetric] ring_count_def using ht(1) by (intro mod_less_divisor) simp
  have ne: "r_head r \<noteq> r_tail r" using c ht by (auto simp: ring_count_def)
  define r' where "r' = r\<lparr>r_tail := (r_tail r + 1) AND (r_max r - 1)\<rparr>"
  have s: "ring_size r' = ?M" "unat (r_head r') = ?h" "unat (r_tail r') = (?t + 1) mod ?M" "ring r' = ring r" "r_max r' = r_max r"
    using next_index [OF inv ht(2)] by (simp_all add: r'_def ring_size_def)
  have slot: "ring_slot r' j = ring_slot r (Suc j)" for j
    by (simp add: ring_slot_def s mod_add_left_eq)
  have "?h = (?t + Suc c) mod ?M" using window_end [OF ht(1,2)] c by (simp add: ring_count_def)
  also have "\<dots> = ((?t + 1) mod ?M + c) mod ?M" by (simp add: mod_add_left_eq)
  finally have "?h = ((?t + 1) mod ?M + c) mod ?M" .
  then have c': "ring_count r' = c"
    unfolding ring_count_def [of r'] s using window_count [of "(?t + 1) mod ?M" ?M c] cM ht(2) by simp
  have "io_u_rpop r = Inr (ring_slot r 0, r')" using ne ht by (simp add: io_u_rpop_def r'_def ring_slot_def)
  moreover have "ring_slot r 0 = Some x" "ring_contents r' = xs"
  proof -
    have "[0..<Suc c] = 0 # map Suc [0..<c]" by (simp add: map_Suc_upt upt_conv_Cons del: upt_Suc)
    then have "the (ring_slot r 0) = x" "map (\<lambda>j. the (ring_slot r (Suc j))) [0..<c] = xs"
      using cons c by (simp_all add: ring_contents_def comp_def del: upt_Suc)
    then show "ring_slot r 0 = Some x" "ring_contents r' = xs"
      using i c by (auto simp: ring_contents_def c' slot)
  qed
  moreover have "ring_inv r'" using i ht c slot unfolding ring_inv_def s c' by auto
  ultimately show ?thesis using s(1) by auto
qed

interpretation iou_ring: unit_container ring_inv ring_contents "\<lambda>r. ring_size r - 1" "\<lambda>xs x. xs @ [x]" io_u_rpush io_u_rpop
proof (unfold_locales, goal_cases)
  case (3 r)
  then have "(unat (r_tail r) + 0) mod ring_size r = unat (r_head r)"
    using window_end [of "unat (r_head r)" "ring_size r" "unat (r_tail r)"]
    by (simp add: ring_contents_def ring_count_def ring_inv_def)
  then have "r_head r = r_tail r" using 3(1) by (simp add: ring_inv_def word_unat_eq_iff)
  then show ?case by (simp add: io_u_rpop_def)
qed (use ring_push ring_pop in auto)

section \<open>The size of the ring\<close>

text \<open>The bits of \<open>x\<close>, smeared over the \<open>n\<close> places below them.\<close>

definition smeared :: "u32 \<Rightarrow> nat \<Rightarrow> u32 \<Rightarrow> bool" where
  "smeared x n y \<longleftrightarrow> (\<forall>i. bit y i \<longleftrightarrow> (\<exists>j<n. bit x (i + j)))"

lemma smeared_1: "smeared x 1 x"
  by (simp add: smeared_def)

lemma smeared_double:
  assumes "smeared x n y"
  shows "smeared x (2 * n) (y OR drop_bit n y)"
  unfolding smeared_def
proof
  fix i
  have "(\<exists>j<2 * n. bit x (i + j)) \<longleftrightarrow> (\<exists>j<n. bit x (i + j)) \<or> (\<exists>j<n. bit x (n + i + j))"
  proof
    assume "\<exists>j<2 * n. bit x (i + j)"
    then obtain j where j: "j < 2 * n" "bit x (i + j)" by blast
    show "(\<exists>j<n. bit x (i + j)) \<or> (\<exists>j<n. bit x (n + i + j))"
    proof (cases "j < n")
      case False
      then have "j - n < n" "bit x (n + i + (j - n))" using j by simp_all
      then show ?thesis by blast
    qed (use j in blast)
  next
    assume "(\<exists>j<n. bit x (i + j)) \<or> (\<exists>j<n. bit x (n + i + j))"
    then show "\<exists>j<2 * n. bit x (i + j)"
    proof (elim disjE exE conjE)
      fix j
      assume "j < n" "bit x (i + j)"
      then show ?thesis by (intro exI [of _ j]) simp
    next
      fix j
      assume j: "j < n" "bit x (n + i + j)"
      have "i + (n + j) = n + i + j" by simp
      then show ?thesis using j by (intro exI [of _ "n + j"]) (simp only:, simp)
    qed
  qed
  then show "bit (y OR drop_bit n y) i \<longleftrightarrow> (\<exists>j<2 * n. bit x (i + j))"
    using assms by (simp only: smeared_def bit_or_iff bit_drop_bit_eq comp_def)
qed

lemma smeared_mask:
  assumes "smeared x 32 y" "unat x < 2 ^ Suc k" "2 ^ k \<le> unat x"
  shows "y = mask (Suc k)"
proof (rule bit_eqI)
  fix i
  have bits: "bit x j \<Longrightarrow> j \<le> k" for j
  proof (rule ccontr)
    assume "bit x j" "\<not> j \<le> k"
    then have "bit (unat x) j" "Suc k \<le> j" by (simp_all add: bit_unsigned_iff)
    then have "odd (unat x div 2 ^ j)" by (simp add: bit_iff_odd)
    then have "unat x div 2 ^ j \<noteq> 0" by (intro notI) simp
    then have "2 ^ j \<le> unat x" by (simp add: div_eq_0_iff)
    moreover have "(2 :: nat) ^ Suc k \<le> 2 ^ j" using \<open>Suc k \<le> j\<close> by (intro power_increasing) simp_all
    ultimately show False using assms(2) by linarith
  qed
  have top: "bit x k"
  proof -
    have "unat x div 2 ^ k = 1" using assms(2,3) by (intro div_nat_eqI) simp_all
    then have "odd (unat x div 2 ^ k)" by simp
    then have "bit (unat x) k" by (simp add: bit_iff_odd)
    then show ?thesis by (simp add: bit_unsigned_iff)
  qed
  have k: "k < 32" using bit_imp_le_length [OF top] by simp
  have "(\<exists>j<32. bit x (i + j)) \<longleftrightarrow> i \<le> k"
  proof
    assume "i \<le> k"
    then have "k - i < 32" "bit x (i + (k - i))" using k top by simp_all
    then show "\<exists>j<32. bit x (i + j)" by blast
  qed (use bits in fastforce)
  then show "bit y i \<longleftrightarrow> bit (mask (Suc k) :: u32) i"
    using assms(1) k by (auto simp: smeared_def bit_mask_iff)
qed

lemma unat_power_u32: "p \<le> 31 \<Longrightarrow> unat (2 ^ p :: u32) = 2 ^ p"
proof -
  assume "p \<le> 31"
  then have lt: "(2 :: nat) ^ p < 2 ^ 32" by (intro power_strict_increasing) simp_all
  have "unat (2 ^ p :: u32) = unat (of_nat (2 ^ p) :: u32)" by simp
  also have "\<dots> = 2 ^ p" unfolding unsigned_of_nat using take_bit_nat_eq_self [of "2 ^ p" 32] lt by simp
  finally show ?thesis .
qed

lemma power_le_31: "(2 :: nat) ^ p \<le> 2 ^ 31 \<Longrightarrow> p \<le> 31"
  using power_increasing_iff [of "2 :: nat" p 31] by (simp only: one_less_numeral_iff) simp

lemma ring_round_power:
  assumes "0 < unat m" "unat m \<le> 2 ^ 31"
  shows "\<exists>p\<le>31. ring_round m = 2 ^ p \<and> unat m \<le> 2 ^ p"
proof (cases "m AND (m - 1) = 0")
  case True
  have "unat (m - 1) = unat m - 1" using assms(1) by (subst unat_sub_no_wrap) (simp_all add: word_le_nat_alt Suc_leI)
  then have "unat m AND (unat m - 1) = 0" using True by (metis unsigned_and_eq unsigned_0)
  then obtain p where p: "unat m = 2 ^ p" using and_pred_eq_0_power assms(1) by blast
  have "m = of_nat (unat m)" by simp
  also have "\<dots> = 2 ^ p" unfolding p by simp
  finally have "ring_round m = 2 ^ p" using True by (simp add: ring_round_def)
  moreover have "p \<le> 31" using p assms(2) by (intro power_le_31) simp
  ultimately show ?thesis using p by auto
next
  case False
  define x where "x = m - 1"
  have x: "unat x = unat m - 1" using assms(1) unfolding x_def by (subst unat_sub_no_wrap) (simp_all add: word_le_nat_alt Suc_leI)
  have "x \<noteq> 0" using False by (auto simp: x_def)
  then have pos: "0 < unat x" by (simp add: unat_gt_0)
  then obtain k where k: "2 ^ k \<le> unat x" "unat x < 2 ^ Suc k" using ex_power_ivl1 [of 2 "unat x"] by auto
  let ?y1 = "x OR drop_bit 1 x"
  let ?y2 = "?y1 OR drop_bit 2 ?y1"
  let ?y3 = "?y2 OR drop_bit 4 ?y2"
  let ?y4 = "?y3 OR drop_bit 8 ?y3"
  let ?y5 = "?y4 OR drop_bit 16 ?y4"
  have "smeared x 2 ?y1" using smeared_double [OF smeared_1] by simp
  from smeared_double [OF this] have "smeared x 4 ?y2" by simp
  from smeared_double [OF this] have "smeared x 8 ?y3" by simp
  from smeared_double [OF this] have "smeared x 16 ?y4" by simp
  from smeared_double [OF this] have "smeared x 32 ?y5" by simp
  then have "?y5 = mask (Suc k)" by (rule smeared_mask [OF _ k(2,1)])
  then have "ring_round m = mask (Suc k) + 1" using False unfolding ring_round_def Let_def x_def by (simp only: if_True not_False_eq_True)
  then have r: "ring_round m = 2 ^ Suc k" by (simp add: mask_eq_exp_minus_1)
  have "(2 :: nat) ^ k < 2 ^ 31" using k(1) x assms by linarith
  then have "k < 31" by (rule power_less_imp_less_exp [rotated]) simp
  moreover have "unat m \<le> 2 ^ Suc k" using k(2) x assms(1) by linarith
  ultimately show ?thesis using r by (intro exI [of _ "Suc k"]) simp
qed

lemma ring_init_ok:
  assumes "unat nr < 2 ^ 31" "io_u_rinit True nr = Some r"
  shows "ring_inv r \<and> ring_contents r = [] \<and> unat nr \<le> ring_size r - 1"
proof -
  have m: "unat (nr + 1) = unat nr + 1" using assms(1) by (subst unat_add_no_wrap) simp_all
  obtain p where p: "p \<le> 31" "ring_round (nr + 1) = 2 ^ p" "unat (nr + 1) \<le> 2 ^ p"
    using ring_round_power [of "nr + 1"] m assms(1) by auto
  then show ?thesis
    using assms(2) m unat_power_u32 [OF p(1)]
    by (auto simp: io_u_rinit_def ring_inv_def ring_contents_def ring_count_def ring_size_def)
qed

section \<open>Properties\<close>

text \<open>
  C34. The ring of requeued units is a queue: a ring made for \<open>nr\<close> units, on which any sequence of
  pushes and pops never holds more than \<open>nr\<close>, hands the units out in the order they came in, and
  a null pointer exactly when it is empty.
\<close>

theorem io_u_ring_is_queue:
  assumes "unat nr < 2 ^ 31" "io_u_rinit True nr = Some r" "within (unat nr) ops 0"
  shows "\<exists>r'. run_ops io_u_rpush io_u_rpop ops r = Inr (fst (list_ops (\<lambda>xs x. xs @ [x]) ops []), r')"
proof -
  note i = ring_init_ok [OF assms(1,2)]
  then show ?thesis using iou_ring.run_refines [of r "unat nr" ops] assms(3) by auto
qed

theorem io_u_ring_is_queue_witness:
  "\<exists>r r'. io_u_rinit True 2 = Some r \<and>
    run_ops io_u_rpush io_u_rpop [Push (7 :: nat), Push 8, Pop, Push 9, Pop, Pop, Pop] r =
      Inr (fst (list_ops (\<lambda>xs x. xs @ [x]) [Push (7 :: nat), Push 8, Pop, Push 9, Pop, Pop, Pop] []), r')"
proof -
  obtain r :: "nat io_u_ring" where r: "io_u_rinit True 2 = Some r" by (simp add: io_u_rinit_def Let_def)
  from io_u_ring_is_queue [OF _ this, of "[Push 7, Push 8, Pop, Push 9, Pop, Pop, Pop]"] r show ?thesis by simp
qed

end
