(* ===== verification/Tester_Base.thy ===== *)
theory Tester_Base
  imports Fio_Prelude
begin

text \<open>
  What the testers of \<open>io_tester/\<close> and \<open>tail_latency/\<close> share: the timer of \<open>timer.h\<close>, aligned
  buffers, decimal numbers in fixed buffers, the positioned reads and writes they issue, and the
  cursor that steps through a file and starts over at its end.

  What the operating system answers is an argument of the definitions: a record with the outcome
  of an allocation, the readings of the clock in the order they are taken, and whether a file
  opens.  The results of \<open>pread\<close> and \<open>pwrite\<close> are not used by the testers.
\<close>

section \<open>Host\<close>

record timespec =
  tv_sec :: int
  tv_nsec :: int

record host =
  can_alloc :: "u64 \<Rightarrow> bool"
  clock_gettime :: "nat \<Rightarrow> timespec"
  can_open :: "string \<Rightarrow> bool"

datatype io_call = Pread u64 u64 | Pwrite u64 u64

primrec call_pos :: "io_call \<Rightarrow> u64" where
  "call_pos (Pread p n) = p"
| "call_pos (Pwrite p n) = p"

primrec call_len :: "io_call \<Rightarrow> u64" where
  "call_len (Pread p n) = n"
| "call_len (Pwrite p n) = n"

text \<open>
  The alignment must be a power of two and a multiple of the size of a pointer.  On failure the
  pointer keeps its indeterminate value, which every caller goes on to use.
\<close>

definition posix_memalign :: "host \<Rightarrow> u64 \<Rightarrow> u64 \<Rightarrow> unit res" where
  "posix_memalign h alignment nbytes =
    (if alignment \<noteq> 0 \<and> alignment AND (alignment - 1) = 0 \<and> alignment mod 8 = 0 \<and> can_alloc h nbytes
     then Inr () else Inl Uninit_use)"

section \<open>Timer\<close>

text \<open>The differences are of type \<open>long\<close>; the sum is stored in a \<open>size_t\<close>.\<close>

definition slong :: "int \<Rightarrow> int res" where
  "slong x = (if - (2 ^ 63) \<le> x \<and> x < 2 ^ 63 then Inr x else Inl Signed_overflow)"

definition span :: "timespec \<Rightarrow> timespec \<Rightarrow> int res" where
  "span s e =
    bindr (slong (tv_sec e - tv_sec s)) (\<lambda>d.
    bindr (slong (d * 1000000000)) (\<lambda>m.
    bindr (slong (tv_nsec e - tv_nsec s)) (\<lambda>n. slong (m + n))))"

record timer =
  start :: "timespec option"
  end_time :: "timespec option"
  now :: "timespec option"
  elapsed :: u64

definition Timer :: timer where
  "Timer = \<lparr>start = None, end_time = None, now = None, elapsed = 0\<rparr>"

definition Timer_Start :: "timespec \<Rightarrow> timer \<Rightarrow> timer" where
  "Timer_Start ts t = t\<lparr>start := Some ts\<rparr>"

definition Timer_Stop :: "timespec \<Rightarrow> timer \<Rightarrow> timer res" where
  "Timer_Stop ts t =
    (case start t of
       None \<Rightarrow> Inl Uninit_use
     | Some s \<Rightarrow> bindr (span s ts) (\<lambda>d. Inr (t\<lparr>end_time := Some ts, elapsed := word_of_int d\<rparr>)))"

definition Timer_Get :: "timer \<Rightarrow> u64" where
  "Timer_Get t = elapsed t"

definition Timer_Now :: "timespec \<Rightarrow> timer \<Rightarrow> (u64 \<times> timer) res" where
  "Timer_Now ts t =
    bindr (slong (tv_sec ts * 1000000000)) (\<lambda>m.
    bindr (slong (m + tv_nsec ts)) (\<lambda>n. Inr (word_of_int n, t\<lparr>now := Some ts\<rparr>)))"

definition Timer_Accumulate :: "timespec \<Rightarrow> timer \<Rightarrow> timer res" where
  "Timer_Accumulate ts t =
    (case start t of
       None \<Rightarrow> Inl Uninit_use
     | Some s \<Rightarrow>
         bindr (span s ts) (\<lambda>d. Inr (t\<lparr>end_time := Some ts, elapsed := elapsed t + word_of_int d\<rparr>)))"

section \<open>Text in fixed buffers\<close>

fun dec :: "nat \<Rightarrow> string" where
  "dec n = (if n < 10 then [''0123456789'' ! n] else dec (n div 10) @ [''0123456789'' ! (n mod 10)])"

declare dec.simps [simp del]

definition dec_int :: "int \<Rightarrow> string" where
  "dec_int i = (if i < 0 then ''-'' @ dec (nat (- i)) else dec (nat i))"

definition sprintf_buf :: "nat \<Rightarrow> string \<Rightarrow> string res" where
  "sprintf_buf cap s = (if length s < cap then Inr s else Inl Out_of_bounds)"

definition io_file_name :: "string \<Rightarrow> int \<Rightarrow> string res" where
  "io_file_name path i = sprintf_buf 32 (path @ ''/'' @ dec_int i @ ''.io'')"

section \<open>Loops over a file\<close>

text \<open>
  The loops \<open>for (int i = 0; i < count; i++)\<close> with a \<open>size_t\<close> bound: the counter overflows after
  the body has run for the largest \<open>int\<close>.
\<close>

definition INT_MAX :: nat where
  "INT_MAX = 2 ^ 31 - 1"

function for_calls :: "(u64 \<Rightarrow> u64) \<Rightarrow> (u64 \<Rightarrow> io_call) \<Rightarrow> u64 \<Rightarrow> nat \<Rightarrow> u64 \<Rightarrow> io_call list res" where
  "for_calls step call count i pos =
    (if i < unat count
     then if i = INT_MAX then Inl Signed_overflow
          else bindr (for_calls step call count (i + 1) (step pos)) (\<lambda>cs. Inr (call pos # cs))
     else Inr [])"
  by auto
termination by (relation "measure (\<lambda>(step, call, count, i, pos). unat count - i)") auto

declare for_calls.simps [simp del]

fun mapr :: "('a \<Rightarrow> 'b res) \<Rightarrow> 'a list \<Rightarrow> 'b list res" where
  "mapr f [] = Inr []"
| "mapr f (x # xs) = bindr (f x) (\<lambda>y. bindr (mapr f xs) (\<lambda>ys. Inr (y # ys)))"

definition wrap_step :: "u64 \<Rightarrow> u64 \<Rightarrow> u64 \<Rightarrow> u64" where
  "wrap_step limit skip pos = (let pos = pos + skip in if pos > limit then 0 else pos)"

section \<open>Timer: the elapsed nanoseconds\<close>

definition ns :: "timespec \<Rightarrow> int" where
  "ns ts = tv_sec ts * 1000000000 + tv_nsec ts"

text \<open>What \<open>clock_gettime (CLOCK_MONOTONIC)\<close> documents, for the first 200 years after boot.\<close>

definition valid_time :: "timespec \<Rightarrow> bool" where
  "valid_time ts \<longleftrightarrow> 0 \<le> tv_sec ts \<and> tv_sec ts < 2 ^ 32 \<and> 0 \<le> tv_nsec ts \<and> tv_nsec ts < 1000000000"

definition monotonic :: "(nat \<Rightarrow> timespec) \<Rightarrow> bool" where
  "monotonic clk \<longleftrightarrow> (\<forall>k. valid_time (clk k)) \<and> (\<forall>j k. j \<le> k \<longrightarrow> ns (clk j) \<le> ns (clk k))"

lemma valid_ns: "valid_time ts \<Longrightarrow> 0 \<le> ns ts \<and> ns ts < 2 ^ 62"
  by (auto simp: valid_time_def ns_def)

lemma span_valid: "valid_time s \<Longrightarrow> valid_time e \<Longrightarrow> span s e = Inr (ns e - ns s)"
  by (simp add: span_def slong_def valid_time_def ns_def algebra_simps)

lemma Timer_Stop_valid:
  assumes "start t = Some s" "valid_time s" "valid_time e"
  shows "Timer_Stop e t = Inr (t\<lparr>end_time := Some e, elapsed := word_of_int (ns e - ns s)\<rparr>)"
  using assms by (simp add: Timer_Stop_def span_valid)

lemma unat_elapsed:
  assumes "valid_time s" "valid_time e" "ns s \<le> ns e"
  shows "unat (word_of_int (ns e - ns s) :: u64) = nat (ns e - ns s)"
proof -
  have "0 \<le> ns e - ns s" "ns e - ns s < 2 ^ 64"
    using valid_ns [OF assms(1)] valid_ns [OF assms(2)] assms(3) by auto
  then show ?thesis by (simp only: unsigned_of_int) (simp add: take_bit_int_eq_self)
qed

section \<open>Generic lemmas\<close>

lemma mapr_Inr: "(\<And>x. x \<in> set xs \<Longrightarrow> f x = Inr (g x)) \<Longrightarrow> mapr f xs = Inr (map g xs)"
  by (induction xs) simp_all

lemma mapr_eq_Inr: "mapr f xs = Inr ys \<Longrightarrow> list_all2 (\<lambda>x y. f x = Inr y) xs ys"
  by (induction xs arbitrary: ys) (auto simp: bindr_Inr_iff)

section \<open>Cursors\<close>

text \<open>
  A cursor that keeps a condition on its position.  What the loops of the testers issue is the
  orbit of the cursor, and every call keeps the condition.
\<close>

locale cursor =
  fixes step :: "u64 \<Rightarrow> u64"
    and ok :: "u64 \<Rightarrow> bool"
  assumes ok_start: "ok 0"
    and ok_step: "ok p \<Longrightarrow> ok (step p)"
begin

lemma ok_orbit: "ok ((step ^^ n) 0)"
  by (induction n) (simp_all add: ok_start ok_step)

lemma all_ok: "list_all ok (map (\<lambda>i. (step ^^ i) 0) [0..<n])"
  by (simp add: list_all_iff ok_orbit)

end

lemma for_calls_orbit:
  "unat count \<le> INT_MAX \<Longrightarrow>
    for_calls step call count i pos = Inr (map (\<lambda>j. call ((step ^^ j) pos)) [0..<unat count - i])"
proof (induction step call count i pos rule: for_calls.induct)
  case (1 step call count i pos)
  show ?case
  proof (cases "i < unat count")
    case True
    then have "unat count - i = Suc (unat count - (i + 1))" by simp
    moreover have "i \<noteq> INT_MAX" using True 1(2) by linarith
    ultimately show ?thesis using 1 True
      by (simp add: for_calls.simps [of _ _ _ i] upt_conv_Cons map_Suc_upt [symmetric] funpow_swap1
          del: upt_Suc)
  qed (simp add: for_calls.simps)
qed

interpretation wrap: cursor "wrap_step limit skip" "\<lambda>p. p \<le> limit" for limit skip
  by unfold_locales (simp_all add: wrap_step_def Let_def not_less)

lemma unat_of_nat_below: "n < 2 ^ 64 \<Longrightarrow> unat (of_nat n :: u64) = n"
  by (simp add: unat_of_nat)

text \<open>The positions of a cursor that starts over: a pass has one position more than whole steps.\<close>

lemma wrap_orbit:
  assumes "unat limit + unat skip < 2 ^ 64"
  shows "unat ((wrap_step limit skip ^^ n) 0) = (n mod (unat limit div unat skip + 1)) * unat skip"
proof (induction n)
  case (Suc n)
  define p where "p = (wrap_step limit skip ^^ n) 0"
  define q where "q = unat limit div unat skip"
  have le: "unat p \<le> unat limit" using wrap.ok_orbit [where limit = limit and skip = skip and n = n] by (simp add: p_def word_le_nat_alt)
  have add: "unat (p + skip) = unat p + unat skip" using assms le by (intro unat_add_no_wrap) simp
  have nxt: "unat ((wrap_step limit skip ^^ Suc n) 0) = (if unat limit < unat p + unat skip then 0 else unat p + unat skip)"
    using add by (simp add: p_def [symmetric] wrap_step_def Let_def word_less_nat_alt)
  have p: "unat p = (n mod (q + 1)) * unat skip" using Suc by (simp add: p_def q_def)
  show ?case
  proof (cases "n mod (q + 1) = q")
    case True
    then have "Suc n mod (q + 1) = 0" by (simp add: mod_Suc)
    moreover have "unat limit < unat skip + q * unat skip \<or> skip = 0"
      using dividend_less_div_times [of "unat skip" "unat limit"] by (auto simp: q_def unat_gt_0)
    ultimately show ?thesis using True p nxt by (auto simp: q_def [symmetric])
  next
    case False
    then have m: "Suc n mod (q + 1) = Suc (n mod (q + 1))" by (simp add: mod_Suc)
    have "n mod (q + 1) < q" using False mod_less_divisor [of "q + 1" n] by linarith
    then have "Suc (n mod (q + 1)) * unat skip \<le> unat limit"
      by (metis Suc_leI div_times_less_eq_dividend le_trans mult_le_mono1 q_def)
    then show ?thesis using m p nxt by (simp add: q_def [symmetric])
  qed
qed simp

lemma wrap_orbit_word:
  assumes "unat limit + unat skip < 2 ^ 64"
  shows "(wrap_step limit skip ^^ n) 0 = of_nat ((n mod (unat limit div unat skip + 1)) * unat skip)"
  by (simp only: wrap_orbit [OF assms, of n, symmetric]) simp

section \<open>Hosts\<close>

definition aligned_block :: "u64 \<Rightarrow> bool" where
  "aligned_block bs \<longleftrightarrow> bs \<noteq> 0 \<and> bs AND (bs - 1) = 0 \<and> bs mod 8 = 0"

lemma posix_memalign_ok: "aligned_block a \<Longrightarrow> can_alloc h n \<Longrightarrow> posix_memalign h a n = Inr ()"
  by (simp add: aligned_block_def posix_memalign_def)

lemma udiv_ok: "b \<noteq> 0 \<Longrightarrow> udiv a b = Inr (a div b)"
  by (simp add: udiv_def)

text \<open>A host on which everything succeeds and the clock advances by a microsecond at every reading.\<close>

definition sample_clock :: "nat \<Rightarrow> timespec" where
  "sample_clock k = \<lparr>tv_sec = 0, tv_nsec = min (1000 * int k) 999999999\<rparr>"

definition sample_host :: host where
  "sample_host = \<lparr>can_alloc = \<lambda>n. True, clock_gettime = sample_clock, can_open = \<lambda>s. True\<rparr>"

lemma sample_clock_monotonic: "monotonic sample_clock"
  by (auto simp: monotonic_def valid_time_def ns_def sample_clock_def)

lemma sample_host_simps [simp]:
  "can_alloc sample_host n" "clock_gettime sample_host = sample_clock" "can_open sample_host s"
  by (simp_all add: sample_host_def)

end
