(* ===== verification/Io_Tester.thy ===== *)
theory Io_Tester
  imports Tester_Base
begin

text \<open>
  The throughput testers of \<open>io_tester/\<close>: \<open>posix.cc\<close> with blocking calls, \<open>libaio.cc\<close> with batches
  of asynchronous requests and \<open>spdk.cc\<close> with commands to an NVMe queue.  A tester is the list of
  requests it issues.  The answers of \<open>io_submit\<close>, \<open>io_getevents\<close> and of the SPDK functions are
  arguments.  The rates that are printed at the end are quotients of doubles and are left out.
\<close>

section \<open>posix.cc\<close>

record tester_options =
  to_type :: int
  to_thread_id :: int
  to_block_size :: u64
  to_total_size :: u64
  to_path :: string

definition DO_RW :: int where "DO_RW = 1"
definition DO_SW :: int where "DO_SW = 2"
definition DO_RR :: int where "DO_RR = 3"
definition DO_SR :: int where "DO_SR = 4"

definition posix_do_randwrite :: "host \<Rightarrow> u64 \<Rightarrow> u64 \<Rightarrow> io_call list res" where
  "posix_do_randwrite h block_size total_size =
    bindr (udiv total_size block_size) (\<lambda>count.
    bindr (posix_memalign h block_size block_size) (\<lambda>_.
    for_calls (\<lambda>pos. pos + block_size) (\<lambda>pos. Pwrite pos block_size) count 0 0))"

definition posix_do_seqwrite :: "host \<Rightarrow> u64 \<Rightarrow> u64 \<Rightarrow> io_call list res" where
  "posix_do_seqwrite h block_size total_size =
    bindr (udiv total_size block_size) (\<lambda>count.
    let skip = 16 * 1024 + block_size
    in bindr (posix_memalign h block_size block_size) (\<lambda>_.
       for_calls (wrap_step total_size skip) (\<lambda>pos. Pwrite pos block_size) count 0 0))"

definition posix_do_randread :: "host \<Rightarrow> u64 \<Rightarrow> u64 \<Rightarrow> io_call list res" where
  "posix_do_randread h block_size total_size =
    bindr (udiv total_size block_size) (\<lambda>count.
    bindr (posix_memalign h block_size block_size) (\<lambda>_.
    for_calls (\<lambda>pos. pos + block_size) (\<lambda>pos. Pread pos block_size) count 0 0))"

definition posix_do_seqread :: "host \<Rightarrow> u64 \<Rightarrow> u64 \<Rightarrow> io_call list res" where
  "posix_do_seqread h block_size total_size =
    bindr (udiv total_size block_size) (\<lambda>count.
    let skip = 16 * 1024 + block_size
    in bindr (posix_memalign h block_size block_size) (\<lambda>_.
       for_calls (wrap_step total_size skip) (\<lambda>pos. Pread pos block_size) count 0 0))"

text \<open>The division at the end is the one in the average latency.\<close>

definition posix_run_benchmark :: "host \<Rightarrow> tester_options \<Rightarrow> (string \<times> io_call list) res" where
  "posix_run_benchmark h opt =
    bindr (io_file_name (to_path opt) (to_thread_id opt)) (\<lambda>name.
    bindr
      (if to_type opt = DO_RW then posix_do_randwrite h (to_block_size opt) (to_total_size opt)
       else if to_type opt = DO_SW then posix_do_seqwrite h (to_block_size opt) (to_total_size opt)
       else if to_type opt = DO_RR then posix_do_randread h (to_block_size opt) (to_total_size opt)
       else if to_type opt = DO_SR then posix_do_seqread h (to_block_size opt) (to_total_size opt)
       else Inr []) (\<lambda>calls.
    bindr (udiv (to_total_size opt) (to_block_size opt)) (\<lambda>_. Inr (name, calls))))"

text \<open>
  \<open>main\<close> of \<open>posix.cc\<close> and of \<open>libaio.cc\<close> after the arguments are read: the files are created,
  then the options of the threads are filled in.  There is room for 32 threads and for a path of
  127 characters.
\<close>

definition main_thread :: "int \<Rightarrow> string \<Rightarrow> u64 \<Rightarrow> u64 \<Rightarrow> int \<Rightarrow> tester_options res" where
  "main_thread type path block_size total_size i =
    (if 32 \<le> i then Inl Out_of_bounds
     else bindr (sprintf_buf 128 path) (\<lambda>p.
       Inr \<lparr>to_type = type, to_thread_id = i, to_block_size = block_size, to_total_size = total_size, to_path = p\<rparr>))"

definition tester_main :: "int \<Rightarrow> string \<Rightarrow> int \<Rightarrow> u64 \<Rightarrow> u64 \<Rightarrow> tester_options list res" where
  "tester_main type path num_thread block_size total_mb =
    (let total_size = total_mb * (1024 * 1024)
     in bindr (mapr (io_file_name path) [0..num_thread - 1]) (\<lambda>_.
        mapr (main_thread type path block_size total_size) [0..num_thread - 1]))"

section \<open>libaio.cc\<close>

datatype aio_cmd = IOCB_CMD_PREAD | IOCB_CMD_PWRITE

text \<open>\<open>aio_buf\<close> is the distance from the start of the buffer.\<close>

record iocb =
  aio_lio_opcode :: aio_cmd
  aio_offset :: u64
  aio_nbytes :: u64
  aio_buf :: u64

record aio_kernel =
  io_submit :: "nat \<Rightarrow> iocb list \<Rightarrow> int"
  io_getevents :: "nat \<Rightarrow> int \<Rightarrow> int"

definition MAX_IOCBS :: nat where "MAX_IOCBS = 128"

function aio_fill :: "aio_cmd \<Rightarrow> u64 \<Rightarrow> u64 \<Rightarrow> nat \<Rightarrow> u64 \<Rightarrow> (iocb list \<times> u64) res" where
  "aio_fill cmd block_size queue_size j current_count =
    (if j < unat queue_size
     then if MAX_IOCBS \<le> j then Inl Out_of_bounds
          else let cb = \<lparr>aio_lio_opcode = cmd, aio_offset = block_size * current_count,
                         aio_nbytes = block_size, aio_buf = of_nat j * block_size\<rparr>
               in bindr (aio_fill cmd block_size queue_size (j + 1) (current_count + 1)) (\<lambda>(cbs, cc).
                  Inr (cb # cbs, cc))
     else Inr ([], current_count))"
  by auto
termination by (relation "measure (\<lambda>(cmd, bs, qs, j, cc). unat qs - j)") auto

declare aio_fill.simps [simp del]

function aio_loop :: "aio_kernel \<Rightarrow> aio_cmd \<Rightarrow> u64 \<Rightarrow> u64 \<Rightarrow> u64 \<Rightarrow> nat \<Rightarrow> u64 \<Rightarrow> iocb list list res" where
  "aio_loop ker cmd block_size queue_size count i current_count =
    (if i < unat count
     then bindr (aio_fill cmd block_size queue_size 0 current_count) (\<lambda>(cbs, cc).
          let ret = io_submit ker i cbs
          in assertr (word_of_int ret = queue_size)
             (let ret = io_getevents ker i ret
              in assertr (word_of_int ret = queue_size)
                 (if i = INT_MAX then Inl Signed_overflow
                  else bindr (aio_loop ker cmd block_size queue_size count (i + 1) cc) (\<lambda>bs. Inr (cbs # bs)))))
     else Inr [])"
  by auto
termination by (relation "measure (\<lambda>(ker, cmd, bs, qs, count, i, cc). unat count - i)") auto

declare aio_loop.simps [simp del]

definition aio_do_seqwrite :: "host \<Rightarrow> aio_kernel \<Rightarrow> int \<Rightarrow> u64 \<Rightarrow> u64 \<Rightarrow> iocb list list res" where
  "aio_do_seqwrite h ker io_depth block_size total_size =
    (let queue_size = word_of_int io_depth
     in bindr (posix_memalign h block_size (block_size * queue_size)) (\<lambda>_.
        bindr (udiv total_size (block_size * queue_size)) (\<lambda>count.
        aio_loop ker IOCB_CMD_PWRITE block_size queue_size count 0 0)))"

text \<open>The read test queues the same command as the write test.\<close>

definition aio_do_seqread :: "host \<Rightarrow> aio_kernel \<Rightarrow> int \<Rightarrow> u64 \<Rightarrow> u64 \<Rightarrow> iocb list list res" where
  "aio_do_seqread h ker io_depth block_size total_size =
    (let queue_size = word_of_int io_depth
     in bindr (posix_memalign h block_size (block_size * queue_size)) (\<lambda>_.
        bindr (udiv total_size (block_size * queue_size)) (\<lambda>count.
        aio_loop ker IOCB_CMD_PWRITE block_size queue_size count 0 0)))"

definition aio_do_randwrite :: "u64 \<Rightarrow> u64 \<Rightarrow> iocb list list res" where
  "aio_do_randwrite block_size total_size = Inr []"

definition aio_do_randread :: "u64 \<Rightarrow> u64 \<Rightarrow> iocb list list res" where
  "aio_do_randread block_size total_size = Inr []"

definition aio_run_benchmark :: "host \<Rightarrow> aio_kernel \<Rightarrow> int \<Rightarrow> tester_options \<Rightarrow> (string \<times> iocb list list) res" where
  "aio_run_benchmark h ker io_depth opt =
    bindr (io_file_name (to_path opt) (to_thread_id opt)) (\<lambda>name.
    bindr
      (if to_type opt = DO_RW then aio_do_randwrite (to_block_size opt) (to_total_size opt)
       else if to_type opt = DO_SW then aio_do_seqwrite h ker io_depth (to_block_size opt) (to_total_size opt)
       else if to_type opt = DO_RR then aio_do_randread (to_block_size opt) (to_total_size opt)
       else if to_type opt = DO_SR then aio_do_seqread h ker io_depth (to_block_size opt) (to_total_size opt)
       else Inr []) (\<lambda>batches.
    bindr (udiv (to_total_size opt) (to_block_size opt)) (\<lambda>_. Inr (name, batches))))"

section \<open>spdk.cc\<close>

text \<open>
  The driver: whether a queue pair is available, the return code of a write command and the number
  of completions that a poll reports, by batch and by the position in the batch.
\<close>

record nvme =
  alloc_io_qpair :: bool
  cmd_write_rc :: "nat \<Rightarrow> nat \<Rightarrow> int"
  process_completions :: "nat \<Rightarrow> nat \<Rightarrow> int"

type_synonym lba_range = "u64 \<times> u32"

function spdk_send :: "host \<Rightarrow> nvme \<Rightarrow> u64 \<Rightarrow> int \<Rightarrow> u64 \<Rightarrow> nat \<Rightarrow> int \<Rightarrow> u64 \<Rightarrow> (lba_range list \<times> u64) res" where
  "spdk_send h dev block_size io_depth n_lba i j k =
    (if j < io_depth
     then if \<not> can_alloc h block_size then Inl Null_deref
          else assertr (cmd_write_rc dev i (nat j) = 0)
            (bindr (spdk_send h dev block_size io_depth n_lba i (j + 1) (k + n_lba)) (\<lambda>(cs, k').
             Inr ((k, ucast n_lba) # cs, k')))
     else Inr ([], k))"
  by auto
termination by (relation "measure (\<lambda>(h, dev, bs, d, n, i, j, k). nat (d - j))") auto

declare spdk_send.simps [simp del]

partial_function (option) spdk_wait :: "(nat \<Rightarrow> int) \<Rightarrow> int \<Rightarrow> nat \<Rightarrow> int \<Rightarrow> unit comp" where
  "spdk_wait polls io_depth n c =
    (let c = c + polls n
     in if c < - (2 ^ 31) \<or> 2 ^ 31 \<le> c then Some (Inl Signed_overflow)
        else if c = io_depth then retc ()
        else spdk_wait polls io_depth (n + 1) c)"

function spdk_loop :: "host \<Rightarrow> nvme \<Rightarrow> u64 \<Rightarrow> int \<Rightarrow> u64 \<Rightarrow> u64 \<Rightarrow> nat \<Rightarrow> u64 \<Rightarrow> lba_range list comp" where
  "spdk_loop h dev block_size io_depth n_lba count i k =
    (if i < unat count
     then bindc (Some (spdk_send h dev block_size io_depth n_lba i 0 k)) (\<lambda>(cs, k).
          bindc (spdk_wait (process_completions dev i) io_depth 0 0) (\<lambda>_.
          bindc (spdk_loop h dev block_size io_depth n_lba count (i + 1) k) (\<lambda>rest. retc (cs @ rest))))
     else retc [])"
  by auto
termination by (relation "measure (\<lambda>(h, dev, bs, d, n, count, i, k). unat count - i)") auto

declare spdk_loop.simps [simp del]

definition spdk_do_seqwrite :: "host \<Rightarrow> nvme \<Rightarrow> int \<Rightarrow> u64 \<Rightarrow> u64 \<Rightarrow> lba_range list comp" where
  "spdk_do_seqwrite h dev io_depth block_size total_size =
    bindc (Some (assertr (block_size mod 512 = 0) (Inr (block_size div 512)))) (\<lambda>n_lba.
    bindc (Some (udiv total_size block_size)) (\<lambda>blocks.
    bindc (Some (udiv blocks (word_of_int io_depth))) (\<lambda>count.
    bindc (Some (assertr (alloc_io_qpair dev) (Inr ()))) (\<lambda>_.
    spdk_loop h dev block_size io_depth n_lba count 0 0))))"

section \<open>What is issued\<close>

lemma add_orbit: "((\<lambda>p. p + s) ^^ n) (0 :: u64) = of_nat n * s"
  by (induction n) (simp_all add: algebra_simps)

lemma tile_in_file: "i < n div b \<Longrightarrow> i * b + b \<le> n" for n :: nat
  by (metis Suc_leI add.commute div_times_less_eq_dividend le_trans mult_Suc mult_le_mono1)

lemma unat_tile:
  fixes ts bs :: u64
  assumes "i < unat ts div unat bs"
  shows "unat (of_nat i * bs) + unat bs \<le> unat ts" "unat (of_nat i * bs) = i * unat bs"
proof -
  have le: "i * unat bs + unat bs \<le> unat ts" by (rule tile_in_file [OF assms])
  have "bs \<noteq> 0" using assms by (auto intro: ccontr)
  then have "i * 1 \<le> i * unat bs" by (intro mult_le_mono2) (simp add: Suc_leI unat_gt_0)
  then have "unat (of_nat i :: u64) = i" using le unat_u64_less [of ts] by (intro unat_of_nat_below) linarith
  then show "unat (of_nat i * bs) = i * unat bs"
    using le unat_u64_less [of ts] by (subst unat_mult_no_wrap) simp_all
  then show "unat (of_nat i * bs) + unat bs \<le> unat ts" using le by simp
qed

subsection \<open>Batches\<close>

definition aio_req :: "aio_cmd \<Rightarrow> u64 \<Rightarrow> nat \<Rightarrow> nat \<Rightarrow> iocb" where
  "aio_req cmd bs qs i =
    \<lparr>aio_lio_opcode = cmd, aio_offset = of_nat i * bs, aio_nbytes = bs, aio_buf = of_nat (i mod qs) * bs\<rparr>"

lemma aio_fill_eq:
  assumes "unat qs \<le> MAX_IOCBS" "m mod unat qs = 0"
  shows "j \<le> unat qs \<Longrightarrow> aio_fill cmd bs qs j (of_nat (m + j))
    = Inr (map (aio_req cmd bs (unat qs)) [m + j..<m + unat qs], of_nat (m + unat qs))"
proof (induction "unat qs - j" arbitrary: j)
  case 0
  then show ?case by (simp add: aio_fill.simps)
next
  case (Suc d)
  then have j: "j < unat qs" by simp
  have IH: "aio_fill cmd bs qs (j + 1) (of_nat (m + (j + 1)))
      = Inr (map (aio_req cmd bs (unat qs)) [m + (j + 1)..<m + unat qs], of_nat (m + unat qs))"
    using Suc j by (intro Suc(1)) simp_all
  have "(m + j) mod unat qs = j" using assms(2) j by (metis add_0 mod_add_left_eq mod_less)
  then have req: "aio_req cmd bs (unat qs) (m + j) = \<lparr>aio_lio_opcode = cmd,
      aio_offset = bs * of_nat (m + j), aio_nbytes = bs, aio_buf = of_nat j * bs\<rparr>"
    by (simp add: aio_req_def mult.commute)
  have idx: "(of_nat (m + j) :: u64) + 1 = of_nat (m + (j + 1))" by simp
  have upt: "[m + j..<m + unat qs] = (m + j) # [m + (j + 1)..<m + unat qs]" using j by (simp add: upt_conv_Cons)
  have guard: "\<not> MAX_IOCBS \<le> j" using j assms(1) by simp
  show ?case
    by (simp only: aio_fill.simps [of cmd bs qs j] j guard if_True if_False Let_def idx IH bindr_simps prod.case
        upt list.map req)
qed

definition aio_ok :: "aio_kernel \<Rightarrow> nat \<Rightarrow> bool" where
  "aio_ok ker qs \<longleftrightarrow>
    (\<forall>i cbs. length cbs = qs \<longrightarrow> io_submit ker i cbs = int qs) \<and> (\<forall>i. io_getevents ker i (int qs) = int qs)"

lemma aio_loop_eq:
  assumes "unat qs \<le> MAX_IOCBS" "aio_ok ker (unat qs)" "unat count \<le> INT_MAX"
  shows "i \<le> unat count \<Longrightarrow> \<exists>bs. aio_loop ker cmd b qs count i (of_nat (i * unat qs)) = Inr bs
    \<and> concat bs = map (aio_req cmd b (unat qs)) [i * unat qs..<unat count * unat qs]
    \<and> length bs = unat count - i \<and> (\<forall>r \<in> set bs. length r = unat qs)"
proof (induction "unat count - i" arbitrary: i)
  case 0
  then show ?case by (simp add: aio_loop.simps)
next
  case (Suc d)
  then have i: "i < unat count" by simp
  define cbs where "cbs = map (aio_req cmd b (unat qs)) [i * unat qs..<(i + 1) * unat qs]"
  have len: "length cbs = unat qs" by (simp add: cbs_def)
  have fill: "aio_fill cmd b qs 0 (of_nat (i * unat qs)) = Inr (cbs, of_nat ((i + 1) * unat qs))"
    using aio_fill_eq [OF assms(1), of "i * unat qs" 0] by (simp add: cbs_def algebra_simps)
  obtain bs where bs: "aio_loop ker cmd b qs count (i + 1) (of_nat ((i + 1) * unat qs)) = Inr bs"
      "concat bs = map (aio_req cmd b (unat qs)) [(i + 1) * unat qs..<unat count * unat qs]"
      "length bs = unat count - (i + 1)" "\<forall>r \<in> set bs. length r = unat qs"
    using Suc(1) [of "i + 1"] Suc(2) i by (elim meta_impE exE conjE) auto
  have "(i + 1) * unat qs \<le> unat count * unat qs" using i by (intro mult_le_mono1) simp
  then have split: "[i * unat qs..<unat count * unat qs]
      = [i * unat qs..<(i + 1) * unat qs] @ [(i + 1) * unat qs..<unat count * unat qs]"
    using upt_add_eq_append [of "i * unat qs" "(i + 1) * unat qs" "unat count * unat qs - (i + 1) * unat qs"] by simp
  have "i \<noteq> INT_MAX" using i assms(3) by linarith
  then have "aio_loop ker cmd b qs count i (of_nat (i * unat qs)) = Inr (cbs # bs)"
    using assms(2) fill len i bs(1)
    by (simp add: aio_loop.simps [of ker cmd b qs count i] aio_ok_def Let_def)
  then show ?case using bs i len split by (auto simp: cbs_def)
qed

subsection \<open>NVMe commands\<close>

text \<open>Every poll reports some of the commands of the batch, and together they report all of them.\<close>

definition completes :: "(nat \<Rightarrow> int) \<Rightarrow> int \<Rightarrow> bool" where
  "completes polls depth \<longleftrightarrow> (\<forall>n. 0 \<le> polls n) \<and> (\<exists>n. (\<Sum>m\<le>n. polls m) = depth)"

lemma spdk_wait_returns:
  assumes "\<And>m. 0 \<le> polls m" "depth < 2 ^ 31"
  shows "0 \<le> c \<Longrightarrow> c + (\<Sum>m = n..n + d. polls m) = depth \<Longrightarrow> spdk_wait polls depth n c = retc ()"
proof (induction d arbitrary: n c)
  case 0
  then have "0 \<le> depth" using assms(1) [of n] by simp
  then show ?case using assms(2) 0 by (subst spdk_wait.simps) (simp add: Let_def)
next
  case (Suc d)
  define c' where "c' = c + polls n"
  have sum: "c' + (\<Sum>m = n + 1..n + 1 + d. polls m) = depth"
    using Suc(3) by (simp add: c'_def sum.atLeast_Suc_atMost add.assoc)
  moreover have "0 \<le> (\<Sum>m = n + 1..n + 1 + d. polls m)" by (rule sum_nonneg) (rule assms(1))
  moreover have "0 \<le> c'" using Suc(2) assms(1) by (simp add: c'_def)
  moreover have "spdk_wait polls depth (n + 1) c' = retc ()" using Suc(1) sum \<open>0 \<le> c'\<close> by simp
  ultimately show ?case using assms(2)
    by (subst spdk_wait.simps) (simp add: Let_def c'_def [symmetric])
qed

lemma spdk_wait_completes: "completes polls depth \<Longrightarrow> depth < 2 ^ 31 \<Longrightarrow> spdk_wait polls depth 0 0 = retc ()"
  using spdk_wait_returns [of polls depth 0 0] by (auto simp: completes_def atMost_atLeast0)

definition nvme_range :: "u64 \<Rightarrow> nat \<Rightarrow> lba_range" where
  "nvme_range n_lba i = (of_nat i * n_lba, ucast n_lba)"

lemma spdk_send_eq:
  assumes "can_alloc h b" "\<And>j. cmd_write_rc dev i j = 0"
  shows "j \<le> d \<Longrightarrow> spdk_send h dev b (int d) n i (int j) (of_nat (m + j) * n)
    = Inr (map (nvme_range n) [m + j..<m + d], of_nat (m + d) * n)"
proof (induction "d - j" arbitrary: j)
  case 0
  then show ?case by (simp add: spdk_send.simps)
next
  case (Suc e)
  then have j: "j < d" by simp
  have "spdk_send h dev b (int d) n i (int (j + 1)) (of_nat (m + (j + 1)) * n)
      = Inr (map (nvme_range n) [m + (j + 1)..<m + d], of_nat (m + d) * n)"
    using Suc j by (intro Suc(1)) simp_all
  moreover have "[m + j..<m + d] = (m + j) # [m + (j + 1)..<m + d]" using j by (simp add: upt_conv_Cons)
  moreover have "of_nat (m + j) * n + n = of_nat (m + (j + 1)) * n" "int j + 1 = int (j + 1)"
    by (simp_all add: algebra_simps)
  ultimately show ?case using assms j
    by (simp only: spdk_send.simps [of h dev b "int d" n i "int j"]) (simp add: nvme_range_def)
qed

lemma spdk_loop_eq:
  assumes "can_alloc h b" "\<And>i j. cmd_write_rc dev i j = 0"
    "\<And>i. completes (process_completions dev i) (int d)" "d < 2 ^ 31"
  shows "i \<le> unat count \<Longrightarrow> spdk_loop h dev b (int d) n count i (of_nat (i * d) * n)
    = retc (map (nvme_range n) [i * d..<unat count * d])"
proof (induction "unat count - i" arbitrary: i)
  case 0
  then show ?case by (simp add: spdk_loop.simps)
next
  case (Suc e)
  then have i: "i < unat count" by simp
  have IH: "spdk_loop h dev b (int d) n count (i + 1) (of_nat ((i + 1) * d) * n)
      = retc (map (nvme_range n) [(i + 1) * d..<unat count * d])"
    using Suc i by (intro Suc(1)) simp_all
  have send: "spdk_send h dev b (int d) n i 0 (of_nat (i * d) * n)
      = Inr (map (nvme_range n) [i * d..<(i + 1) * d], of_nat ((i + 1) * d) * n)"
    using spdk_send_eq [OF assms(1), of dev i 0 d n "i * d"] assms(2) by (simp add: algebra_simps)
  have "(i + 1) * d \<le> unat count * d" using i by (intro mult_le_mono1) simp
  then have split: "[i * d..<unat count * d] = [i * d..<(i + 1) * d] @ [(i + 1) * d..<unat count * d]"
    using upt_add_eq_append [of "i * d" "(i + 1) * d" "unat count * d - (i + 1) * d"] by simp
  have "spdk_wait (process_completions dev i) (int d) 0 0 = retc ()"
    using assms(3,4) by (intro spdk_wait_completes) simp_all
  then show ?case using i send IH split
    by (simp only: spdk_loop.simps [of h dev b _ n count i] if_True bindc_simps prod.case map_append)
qed

section \<open>Correctness\<close>

text \<open>
  C22. The blocking tests, for an aligned block size: both random tests visit the whole blocks of the
  file in ascending order, each once, and never pass the end of the file; both sequential tests jump
  by 16 KiB plus a block and start over when the position is past the size of the file, so their
  i-th position is a multiple of the jump.
\<close>

theorem posix_tests_offsets:
  assumes "aligned_block bs" "can_alloc h bs" "unat ts div unat bs \<le> INT_MAX"
    "unat ts + 16384 + unat bs < 2 ^ 64"
  defines "n \<equiv> unat ts div unat bs" and "jump \<equiv> 16384 + unat bs"
  shows "posix_do_randwrite h bs ts = Inr (map (\<lambda>i. Pwrite (of_nat i * bs) bs) [0..<n])
    \<and> posix_do_randread h bs ts = Inr (map (\<lambda>i. Pread (of_nat i * bs) bs) [0..<n])
    \<and> (\<forall>i < n. unat (of_nat i * bs) = i * unat bs \<and> i * unat bs + unat bs \<le> unat ts)
    \<and> posix_do_seqwrite h bs ts
        = Inr (map (\<lambda>i. Pwrite (of_nat ((i mod (unat ts div jump + 1)) * jump)) bs) [0..<n])
    \<and> posix_do_seqread h bs ts
        = Inr (map (\<lambda>i. Pread (of_nat ((i mod (unat ts div jump + 1)) * jump)) bs) [0..<n])"
proof -
  have bs: "bs \<noteq> 0" using assms(1) by (simp add: aligned_block_def)
  have count: "unat (ts div bs) = n" by (simp add: n_def unat_div)
  have jump: "unat (16384 + bs) = jump" using assms(4) by (simp add: jump_def unat_add_no_wrap)
  have orbit: "(wrap_step ts (16384 + bs) ^^ i) 0 = of_nat ((i mod (unat ts div jump + 1)) * jump)" for i
    using wrap_orbit_word [of ts "16384 + bs" i] assms(4) jump by (simp add: jump_def)
  have loop: "for_calls step call (ts div bs) 0 0 = Inr (map (\<lambda>j. call ((step ^^ j) 0)) [0..<n])" for step call
    using for_calls_orbit [of "ts div bs" step call 0 0] count assms(3) by (simp add: n_def)
  have skip: "(16 * 1024 :: u64) = 16384" by simp
  note run = udiv_ok [OF bs] posix_memalign_ok [OF assms(1,2)] loop skip orbit add_orbit
  show ?thesis
  proof (intro conjI allI impI)
    fix i assume "i < n"
    then show "unat (of_nat i * bs) = i * unat bs" "i * unat bs + unat bs \<le> unat ts"
      using unat_tile [of i ts bs] by (simp_all add: n_def)
  qed (simp_all only: posix_do_randwrite_def posix_do_randread_def posix_do_seqwrite_def
      posix_do_seqread_def Let_def run bindr_simps)
qed

theorem posix_tests_offsets_witness:
  "posix_do_randwrite sample_host 4096 40960 = Inr (map (\<lambda>i. Pwrite (of_nat i * 4096) 4096) [0..<10])
    \<and> posix_do_seqwrite sample_host 4096 40960
      = Inr (map (\<lambda>i. Pwrite (of_nat ((i mod 3) * 20480)) 4096) [0..<10])"
  using posix_tests_offsets [of 4096 sample_host 40960] by (simp add: aligned_block_def INT_MAX_def)

lemma aio_tiles:
  assumes "aligned_block bs" "can_alloc h (bs * word_of_int d)" "0 < d" "d \<le> 128"
    "unat bs * nat d < 2 ^ 64" "unat ts div (unat bs * nat d) \<le> INT_MAX" "aio_ok ker (nat d)"
  defines "n \<equiv> unat ts div (unat bs * nat d)" and "qs \<equiv> word_of_int d :: u64"
  shows "posix_memalign h bs (bs * qs) = Inr ()" "udiv ts (bs * qs) = Inr (ts div (bs * qs))"
    "\<exists>batches. aio_loop ker cmd bs qs (ts div (bs * qs)) 0 0 = Inr batches
      \<and> concat batches = map (aio_req cmd bs (nat d)) [0..<n * nat d]
      \<and> length batches = n \<and> (\<forall>r \<in> set batches. length r = nat d)"
proof -
  have qs: "unat qs = nat d" using assms(3,4) by (simp add: qs_def unsigned_of_int take_bit_int_eq_self)
  have m: "unat (bs * qs) = unat bs * nat d" using assms(5) qs by (simp add: unat_mult_no_wrap)
  have bs: "bs \<noteq> 0" using assms(1) by (simp add: aligned_block_def)
  have "unat (bs * qs) \<noteq> 0" using m bs assms(3) by (simp add: unat_eq_zero)
  then show "udiv ts (bs * qs) = Inr (ts div (bs * qs))" by (intro udiv_ok) auto
  show "posix_memalign h bs (bs * qs) = Inr ()" using assms(1,2) by (simp add: posix_memalign_ok qs_def)
  have n: "unat (ts div (bs * qs)) = n" by (simp add: unat_div m n_def)
  show "\<exists>batches. aio_loop ker cmd bs qs (ts div (bs * qs)) 0 0 = Inr batches
      \<and> concat batches = map (aio_req cmd bs (nat d)) [0..<n * nat d]
      \<and> length batches = n \<and> (\<forall>r \<in> set batches. length r = nat d)"
    using aio_loop_eq [of qs ker "ts div (bs * qs)" 0 cmd bs] assms(4,6,7) n qs
    by (simp add: MAX_IOCBS_def n_def)
qed

lemma aio_req_in_file:
  fixes ts bs :: u64
  assumes "i < unat ts div (unat bs * d) * d" "0 < d"
  shows "unat (aio_offset (aio_req cmd bs d i)) = i * unat bs" "i * unat bs + unat bs \<le> unat ts"
proof -
  have "unat ts div (unat bs * d) * d \<le> unat ts div unat bs"
    by (simp add: div_mult2_eq)
  then have "i < unat ts div unat bs" using assms(1) by linarith
  then show "unat (aio_offset (aio_req cmd bs d i)) = i * unat bs" "i * unat bs + unat bs \<le> unat ts"
    using unat_tile [of i ts bs] by (simp_all add: aio_req_def)
qed

lemma aio_req_in_buffer:
  assumes "unat bs * d < 2 ^ 64" "0 < d" "bs \<noteq> 0"
  shows "unat (aio_buf (aio_req cmd bs d i)) = i mod d * unat bs"
proof -
  have le: "i mod d * unat bs + unat bs \<le> d * unat bs"
    using assms(2) by (metis Suc_leI add.commute mod_less_divisor mult_Suc mult_le_mono1)
  have "i mod d * 1 \<le> i mod d * unat bs" using assms(3) by (intro mult_le_mono2) (simp add: Suc_leI unat_gt_0)
  then have "unat (of_nat (i mod d) :: u64) = i mod d"
    using le assms(1) mult.commute [of d "unat bs"] by (intro unat_of_nat_below) linarith
  then show ?thesis using le assms(1) by (simp add: aio_req_def unat_mult_no_wrap mult.commute)
qed

text \<open>
  C23. The asynchronous write test, with at most 128 requests in flight and a kernel that accepts and
  completes every batch: it returns, its requests are the blocks of the file in ascending order
  without a gap, every batch is full, no request passes the end of the file, and the requests of a
  batch use disjoint parts of the buffer.
\<close>

theorem aio_seqwrite_tiles:
  assumes "aligned_block bs" "can_alloc h (bs * word_of_int d)" "0 < d" "d \<le> 128"
    "unat bs * nat d < 2 ^ 64" "unat ts div (unat bs * nat d) \<le> INT_MAX" "aio_ok ker (nat d)"
  defines "n \<equiv> unat ts div (unat bs * nat d)" and "req \<equiv> aio_req IOCB_CMD_PWRITE bs (nat d)"
  shows "\<exists>batches. aio_do_seqwrite h ker d bs ts = Inr batches
    \<and> concat batches = map req [0..<n * nat d]
    \<and> length batches = n \<and> (\<forall>r \<in> set batches. length r = nat d)
    \<and> (\<forall>i < n * nat d. unat (aio_offset (req i)) = i * unat bs \<and> i * unat bs + unat bs \<le> unat ts
        \<and> unat (aio_buf (req i)) = i mod nat d * unat bs)"
proof -
  have bs: "bs \<noteq> 0" using assms(1) by (simp add: aligned_block_def)
  note run = aio_tiles [OF assms(1-7)]
  show ?thesis using run(3) [of IOCB_CMD_PWRITE] aio_req_in_file [of _ ts bs "nat d"] assms(3)
      aio_req_in_buffer [OF assms(5) _ bs, of IOCB_CMD_PWRITE]
    by (simp add: aio_do_seqwrite_def Let_def run(1,2) n_def req_def)
qed

definition sample_kernel :: aio_kernel where
  "sample_kernel = \<lparr>io_submit = \<lambda>i cbs. int (length cbs), io_getevents = \<lambda>i n. n\<rparr>"

lemma sample_kernel_ok: "aio_ok sample_kernel n"
  by (simp add: aio_ok_def sample_kernel_def)

theorem aio_seqwrite_tiles_witness:
  "\<exists>batches. aio_do_seqwrite sample_host sample_kernel 8 4096 1048576 = Inr batches
    \<and> concat batches = map (aio_req IOCB_CMD_PWRITE 4096 8) [0..<256] \<and> length batches = 32"
  using aio_seqwrite_tiles [of 4096 sample_host 8 1048576 sample_kernel, OF _ _ _ _ _ _ sample_kernel_ok]
  by (auto simp: aligned_block_def INT_MAX_def)

text \<open>
  C25. The asynchronous read test reads nothing: under the same conditions it submits write requests
  for all the whole batches of blocks of the file.
\<close>

theorem aio_seqread_overwrites:
  assumes "aligned_block bs" "can_alloc h (bs * word_of_int d)" "0 < d" "d \<le> 128"
    "unat bs * nat d < 2 ^ 64" "unat ts div (unat bs * nat d) \<le> INT_MAX" "aio_ok ker (nat d)"
  defines "n \<equiv> unat ts div (unat bs * nat d)"
  shows "\<exists>batches. aio_do_seqread h ker d bs ts = Inr batches
    \<and> (\<forall>cb \<in> set (concat batches). aio_lio_opcode cb = IOCB_CMD_PWRITE \<and> aio_nbytes cb = bs)
    \<and> map (\<lambda>cb. unat (aio_offset cb)) (concat batches) = map (\<lambda>i. i * unat bs) [0..<n * nat d]"
proof -
  note run = aio_tiles [OF assms(1-7)]
  obtain batches where b: "aio_do_seqread h ker d bs ts = Inr batches"
      "concat batches = map (aio_req IOCB_CMD_PWRITE bs (nat d)) [0..<n * nat d]"
    using run(3) [of IOCB_CMD_PWRITE] by (auto simp: aio_do_seqread_def Let_def run(1,2) n_def)
  have "map (\<lambda>cb. unat (aio_offset cb)) (concat batches) = map (\<lambda>i. i * unat bs) [0..<n * nat d]"
    using aio_req_in_file(1) [of _ ts bs "nat d" IOCB_CMD_PWRITE] assms(3) by (simp add: b(2) n_def)
  then show ?thesis using b by (intro exI [of _ batches]) (simp add: aio_req_def)
qed

theorem aio_seqread_overwrites_witness:
  "\<exists>batches. aio_do_seqread sample_host sample_kernel 8 4096 1048576 = Inr batches
    \<and> (\<forall>cb \<in> set (concat batches). aio_lio_opcode cb = IOCB_CMD_PWRITE \<and> aio_nbytes cb = 4096)"
  using aio_seqread_overwrites [of 4096 sample_host 8 1048576 sample_kernel, OF _ _ _ _ _ _ sample_kernel_ok]
  by (auto simp: aligned_block_def INT_MAX_def)

text \<open>
  C24. The NVMe write test, with a block size of whole sectors and a driver that accepts every command
  and reports the completions of every batch: it returns, and its commands are consecutive ranges of
  blocks that start at block 0 and end inside the size of the test.
\<close>

theorem spdk_seqwrite_tiles:
  fixes bs ts :: u64
  assumes "bs \<noteq> 0" "bs mod 512 = 0" "0 < d" "d < 2 ^ 31" "can_alloc h bs" "alloc_io_qpair dev"
    "\<And>i j. cmd_write_rc dev i j = 0" "\<And>i. completes (process_completions dev i) d"
  defines "n \<equiv> unat ts div unat bs div nat d * nat d"
  shows "spdk_do_seqwrite h dev d bs ts = retc (map (nvme_range (bs div 512)) [0..<n])
    \<and> (\<forall>i < n. unat (fst (nvme_range (bs div 512) i)) * 512 = i * unat bs \<and> i * unat bs + unat bs \<le> unat ts)"
proof (intro conjI allI impI)
  define w where "w = (word_of_int d :: u64)"
  have w: "unat w = nat d" using assms(3,4) by (simp add: w_def unsigned_of_int take_bit_int_eq_self)
  then have "w \<noteq> 0" using assms(3) by auto
  have "unat (ts div bs div w) = unat ts div unat bs div nat d" by (simp add: unat_div w)
  then have "spdk_loop h dev bs d (bs div 512) (ts div bs div w) 0 0 = retc (map (nvme_range (bs div 512)) [0..<n])"
    using spdk_loop_eq [of h bs dev "nat d" 0 "ts div bs div w" "bs div 512"] assms by (simp add: n_def)
  then show "spdk_do_seqwrite h dev d bs ts = retc (map (nvme_range (bs div 512)) [0..<n])"
    using assms(1,2,6) \<open>w \<noteq> 0\<close> by (simp add: spdk_do_seqwrite_def udiv_ok w_def)
next
  fix i assume "i < n"
  then have "i < unat ts div unat bs" by (metis n_def div_times_less_eq_dividend less_le_trans)
  moreover have "unat ts div unat bs \<le> unat ts" by (rule div_le_dividend)
  ultimately have t: "i * unat bs + unat bs \<le> unat ts" "i < 2 ^ 64"
    using tile_in_file [of i "unat ts" "unat bs"] unat_u64_less [of ts] by linarith+
  then show "i * unat bs + unat bs \<le> unat ts" by simp
  have dvd: "unat bs div 512 * 512 = unat bs"
    using arg_cong [OF assms(2), of unat] by (intro dvd_div_mult_self) (simp add: unat_mod mod_0_imp_dvd)
  have "i * (unat bs div 512) \<le> i * unat bs" by simp
  then have "i * (unat bs div 512) < 2 ^ 64" using t unat_u64_less [of ts] by linarith
  then have "unat (of_nat i * (bs div 512)) = i * (unat bs div 512)"
    using t(2) by (subst unat_mult_no_wrap) (simp_all add: unat_of_nat_below unat_div)
  then show "unat (fst (nvme_range (bs div 512) i)) * 512 = i * unat bs"
    by (simp add: nvme_range_def dvd mult.assoc)
qed

definition sample_nvme :: nvme where
  "sample_nvme = \<lparr>alloc_io_qpair = True, cmd_write_rc = \<lambda>i j. 0, process_completions = \<lambda>i n. if n < 8 then 1 else 0\<rparr>"

lemma sample_nvme_completes: "completes (process_completions sample_nvme i) 8"
  by (auto simp: completes_def sample_nvme_def intro: exI [of _ 7])

theorem spdk_seqwrite_tiles_witness:
  "spdk_do_seqwrite sample_host sample_nvme 8 4096 1048576 = retc (map (nvme_range 8) [0..<256])"
  using spdk_seqwrite_tiles [of 4096 8 sample_host sample_nvme 1048576, OF _ _ _ _ _ _ _ sample_nvme_completes]
  by (simp add: sample_nvme_def)

end
