(* ===== verification/Percentile.thy ===== *)
theory Percentile
  imports Tester_Base Rand
begin

text \<open>
  The percentiles that \<open>tail_latency/posix.cc\<close> and \<open>detail.cc\<close> print: the element of the sorted
  samples at the index \<open>(size_t)(p * size)\<close>, computed with doubles.  A double constant below 1 is its
  numerator over 2 to the 53; \<open>rnd53\<close> rounds to the 53 bits of a double.  Whatever is rounded, the
  element is a quantile of the samples.
\<close>

section \<open>The index\<close>

definition P50 :: nat where "P50 = 4503599627370496"
definition P75 :: nat where "P75 = 6755399441055744"
definition P90 :: nat where "P90 = 8106479329266893"
definition P99 :: nat where "P99 = 8917127262193582"
definition P999 :: nat where "P999 = 8998192055486251"
definition P9999 :: nat where "P9999 = 9006298534815518"

definition pct_index :: "nat \<Rightarrow> nat \<Rightarrow> nat" where
  "pct_index p n = rnd53 (rnd53 n * p) div 2 ^ 53"

definition percentile :: "nat \<Rightarrow> u64 list \<Rightarrow> (nat \<times> u64) res" where
  "percentile p sorted_vec =
    (let idx = pct_index p (length sorted_vec) in bindr (rd sorted_vec idx) (\<lambda>v. Inr (idx, v)))"

section \<open>Quantiles\<close>

text \<open>
  At most the share \<open>num / den\<close> of the samples is smaller than the value, and at least that share
  is not larger.
\<close>

definition quantile :: "nat \<Rightarrow> nat \<Rightarrow> u64 list \<Rightarrow> u64 \<Rightarrow> bool" where
  "quantile num den xs v \<longleftrightarrow>
    v \<in> set xs \<and> den * length (filter (\<lambda>x. x < v) xs) \<le> num * length xs
    \<and> num * length xs \<le> den * length (filter (\<lambda>x. x \<le> v) xs)"

text \<open>The constant is the double next to \<open>num / den\<close>.\<close>

definition near_ratio :: "nat \<Rightarrow> nat \<Rightarrow> nat \<Rightarrow> bool" where
  "near_ratio p num den \<longleftrightarrow>
    p < 2 ^ 53 \<and> 0 < den \<and> den \<le> 10000 \<and> p * den \<le> num * 2 ^ 53 + den \<and> num * 2 ^ 53 \<le> p * den + den"

lemma near_ratios [simp]:
  "near_ratio P50 1 2" "near_ratio P75 3 4" "near_ratio P90 9 10"
  "near_ratio P99 99 100" "near_ratio P999 999 1000" "near_ratio P9999 9999 10000"
  by (simp_all add: near_ratio_def P50_def P75_def P90_def P99_def P999_def P9999_def)

lemma rnd53_ge: "n * (2 ^ 53 - 1) \<le> rnd53 n * 2 ^ 53"
proof (cases "bitlen n - 53 = 0")
  case True
  then show ?thesis by (simp add: rnd53_def)
next
  case False
  define k where "k = bitlen n - 53"
  have k: "0 < k" "bitlen n = k + 53" using False by (simp_all add: k_def)
  have "0 < n" using k(2) by (cases "n = 0") (simp_all add: bitlen.simps [of 0])
  then have n: "2 ^ (k + 52) \<le> n" using bitlen_le [of n] k by (simp add: add.commute)
  have split: "n = (n div 2 ^ k) * 2 ^ k + n mod 2 ^ k" by (rule div_mult_mod_eq [symmetric])
  have "n \<le> rnd53 n + 2 ^ (k - 1)"
  proof (cases "2 ^ (k - 1) < n mod 2 ^ k \<or> n mod 2 ^ k = 2 ^ (k - 1) \<and> odd (n div 2 ^ k)")
    case True
    then have "rnd53 n = (n div 2 ^ k) * 2 ^ k + 2 ^ k" using k by (simp add: rnd53_def Let_def)
    moreover have "n mod 2 ^ k < 2 ^ k" by simp
    ultimately show ?thesis using split by linarith
  next
    case F: False
    then have "rnd53 n = (n div 2 ^ k) * 2 ^ k" using k by (simp add: rnd53_def Let_def)
    moreover have "n mod 2 ^ k \<le> 2 ^ (k - 1)" using F by linarith
    ultimately show ?thesis using split by linarith
  qed
  then have "n * 2 ^ 53 \<le> rnd53 n * 2 ^ 53 + 2 ^ (k - 1) * 2 ^ 53"
    unfolding distrib_right [symmetric] by (rule mult_le_mono1)
  moreover have "(2 :: nat) ^ (k - 1) * 2 ^ 53 = 2 ^ (k + 52)" using k(1) by (cases k) (simp_all add: power_add)
  ultimately have "n * 2 ^ 53 \<le> rnd53 n * 2 ^ 53 + n" using n by linarith
  then show ?thesis by (simp add: diff_mult_distrib2)
qed

lemma pct_index_less:
  assumes "0 < n" "n < 2 ^ 53" "p < 2 ^ 53"
  shows "pct_index p n < n"
proof -
  have "rnd53 (n * p) * 2 ^ 53 \<le> n * (p * (2 ^ 53 + 1))" using rnd53_le [of "n * p"] by (simp add: mult.assoc)
  also have "\<dots> < n * 2 ^ 106" using assms(1,3) by simp
  finally have "rnd53 (n * p) < n * 2 ^ 53" by simp
  then show ?thesis using assms(2) by (simp add: pct_index_def rnd53_exact less_mult_imp_div_less)
qed

lemma rnd53_near:
  assumes "x \<le> n * 2 ^ 53"
  shows "rnd53 x \<le> x + n" "x \<le> rnd53 x + n"
  using rnd53_le [of x] rnd53_ge [of x] assms by simp_all

lemma pct_index_bounds:
  assumes "near_ratio p num den" "n < 2 ^ 38"
  shows "den * pct_index p n \<le> num * n" "num * n \<le> den * (pct_index p n + 1)"
proof -
  define x where "x = n * p"
  define r where "r = rnd53 x"
  define i where "i = pct_index p n"
  define y where "y = den * n"
  define z where "z = den * x"
  have i: "i = r div 2 ^ 53" using assms(2) by (simp add: i_def r_def x_def pct_index_def rnd53_exact)
  have p: "p < 2 ^ 53" "p * den \<le> num * 2 ^ 53 + den" "num * 2 ^ 53 \<le> p * den + den" "den \<le> 10000"
    using assms(1) by (simp_all add: near_ratio_def)
  have near: "r \<le> x + n" "x \<le> r + n" using rnd53_near [of x n] p(1) by (simp_all add: r_def x_def)
  have "y \<le> 10000 * n" using p(4) by (simp add: y_def)
  then have small: "2 * y < 2 ^ 53" using assms(2) by simp
  have z: "z \<le> num * n * 2 ^ 53 + y" "num * n * 2 ^ 53 \<le> z + y"
    using mult_le_mono2 [OF p(2), of n] mult_le_mono2 [OF p(3), of n]
    by (simp_all only: x_def y_def z_def distrib_left mult.assoc mult.commute mult.left_commute)
  have "i * 2 ^ 53 \<le> x + n" using near(1) by (simp add: i order.trans [OF div_times_less_eq_dividend])
  then have "den * (i * 2 ^ 53) \<le> z + y" unfolding y_def z_def distrib_left [symmetric] by (rule mult_le_mono2)
  then have "den * i * 2 ^ 53 < (num * n + 1) * 2 ^ 53" using z(1) small
    by (simp only: mult.assoc [symmetric] distrib_right)
  then show "den * pct_index p n \<le> num * n" by (simp add: i_def)
  have "r < (i + 1) * 2 ^ 53" using dividend_less_div_times [of "2 ^ 53" r] by (simp add: i)
  then have "x \<le> (i + 1) * 2 ^ 53 + n" using near(2) by linarith
  then have "z \<le> den * (i + 1) * 2 ^ 53 + y"
    unfolding y_def z_def mult.assoc distrib_left [symmetric] by (rule mult_le_mono2)
  then have "num * n * 2 ^ 53 < (den * (i + 1) + 1) * 2 ^ 53" using z(2) small
    unfolding distrib_right [of "den * (i + 1)"] mult_1 by linarith
  then have "num * n < den * (i + 1) + 1" by (simp only: mult_less_cancel2)
  then show "num * n \<le> den * (pct_index p n + 1)" by (simp add: i_def)
qed

section \<open>The element of a sorted list\<close>

lemma sorted_filter_less:
  assumes "sorted xs" "i < length xs"
  shows "length (filter (\<lambda>x. x < xs ! i) xs) \<le> i" "i + 1 \<le> length (filter (\<lambda>x. x \<le> xs ! i) xs)"
proof -
  have split: "xs = take i xs @ drop i xs" by simp
  have "filter (\<lambda>x. x < xs ! i) (drop i xs) = []"
    using assms by (auto simp: filter_empty_conv in_set_conv_nth not_less intro!: sorted_nth_mono)
  then have "filter (\<lambda>x. x < xs ! i) xs = filter (\<lambda>x. x < xs ! i) (take i xs)"
    by (subst split) (simp only: filter_append append_Nil2)
  then show "length (filter (\<lambda>x. x < xs ! i) xs) \<le> i"
    using length_filter_le [of _ "take i xs"] by (simp add: order.trans)
  have "\<forall>x \<in> set (take (i + 1) xs). x \<le> xs ! i"
    using assms by (auto simp: in_set_conv_nth intro!: sorted_nth_mono)
  then have "filter (\<lambda>x. x \<le> xs ! i) (take (i + 1) xs) = take (i + 1) xs" by (simp add: filter_id_conv)
  moreover have "length (filter (\<lambda>x. x \<le> xs ! i) (take (i + 1) xs)) \<le> length (filter (\<lambda>x. x \<le> xs ! i) xs)"
    by (subst (2) append_take_drop_id [of "i + 1" xs, symmetric]) (simp only: filter_append length_append le_add1)
  ultimately show "i + 1 \<le> length (filter (\<lambda>x. x \<le> xs ! i) xs)" using assms(2) by simp
qed

lemma length_filter_sort: "length (filter P (sort xs)) = length (filter P xs)"
  by (simp add: filter_sort)

lemma percentile_ok:
  assumes "near_ratio p num den" "xs \<noteq> []" "length xs < 2 ^ 38"
  shows "\<exists>i v. percentile p (sort xs) = Inr (i, v) \<and> i < length xs \<and> quantile num den xs v"
proof -
  define n where "n = length xs"
  define i where "i = pct_index p n"
  define v where "v = sort xs ! i"
  have i: "i < n" using assms by (auto simp: i_def n_def near_ratio_def intro!: pct_index_less)
  have f: "length (filter (\<lambda>x. x < v) xs) \<le> i" "i + 1 \<le> length (filter (\<lambda>x. x \<le> v) xs)"
    using sorted_filter_less [of "sort xs" i] i by (simp_all add: length_filter_sort v_def n_def)
  note b = pct_index_bounds [OF assms(1), of n, folded i_def]
  have "den * length (filter (\<lambda>x. x < v) xs) \<le> num * n"
    using b(1) assms(3) unfolding n_def [symmetric] by (intro order.trans [OF mult_le_mono2 [OF f(1), of den]])
  moreover have "num * n \<le> den * length (filter (\<lambda>x. x \<le> v) xs)"
    using b(2) assms(3) unfolding n_def [symmetric] by (intro order.trans [OF _ mult_le_mono2 [OF f(2), of den]])
  moreover have "v \<in> set xs" using i nth_mem [of i "sort xs"] by (simp add: v_def n_def)
  ultimately have "quantile num den xs v" by (simp add: quantile_def n_def)
  then show ?thesis using i by (intro exI [of _ i] exI [of _ v]) (simp add: percentile_def Let_def i_def v_def n_def)
qed

text \<open>
  C12. Every percentile printed from a non-empty list of fewer than 2 to the 38 sorted samples is
  read inside the list and is a quantile: at most the share p of the samples is smaller and at least
  the share p is not larger, for the six shares in use and with the rounding of the double product.
\<close>

theorem percentile_is_quantile:
  assumes "xs \<noteq> []" "length xs < 2 ^ 38"
    "(p, num, den) \<in> {(P50, 1, 2), (P75, 3, 4), (P90, 9, 10), (P99, 99, 100), (P999, 999, 1000), (P9999, 9999, 10000)}"
  shows "\<exists>i v. percentile p (sort xs) = Inr (i, v) \<and> i < length xs \<and> quantile num den xs v"
  using assms(3) by (intro percentile_ok assms(1,2)) (elim insertE emptyE, simp_all only: prod.inject near_ratios)

theorem percentile_is_quantile_witness:
  "\<exists>i v. percentile P90 (sort [30, 10, 20]) = Inr (i, v) \<and> i < 3 \<and> quantile 9 10 [30, 10, 20] v"
  using percentile_is_quantile [of "[30, 10, 20]" P90 9 10] by (simp add: numeral_3_eq_3)

end
