(* ===== verification/Tail_Latency.thy ===== *)
theory Tail_Latency
  imports Percentile
begin

text \<open>
  The latency tester of \<open>tail_latency/posix.cc\<close>: threads that time every read or write until their
  time is over, save the samples and print two percentiles.  The state of the loop is the pair of
  timers, the position, the samples and the requests so far, and the number of readings taken from
  the clock.  The directory for the results, whose name is the date, is an argument.
\<close>

section \<open>Options\<close>

definition OPT_RANDOM :: int where "OPT_RANDOM = 1"
definition OPT_READ :: int where "OPT_READ = 0"
definition OPT_WRITE :: int where "OPT_WRITE = 2"

definition RANDOM_SKIP :: u64 where "RANDOM_SKIP = 16384"

record lat_options =
  lo_type :: int
  lo_thread_id :: int
  lo_path :: string
  lo_time :: u64
  lo_file_size :: u64
  lo_block_size :: u64

record worker_options =
  wo_thread_id :: int
  wo_file_size :: u64
  wo_block_size :: u64
  wo_run_time :: u64

section \<open>Output\<close>

text \<open>The counter of the loop over the samples is an \<open>int\<close>.\<close>

definition result_output :: "host \<Rightarrow> string \<Rightarrow> u64 list \<Rightarrow> (string \<times> u64 list) option res" where
  "result_output h name data =
    (if can_open h name
     then if length data \<le> INT_MAX then Inr (Some (name, data)) else Inl Signed_overflow
     else Inr None)"

definition ff_file :: "host \<Rightarrow> u64 \<Rightarrow> u64 list res" where
  "ff_file h sz =
    (let blk = 16384; cnt = sz div blk
     in bindr (posix_memalign h blk blk) (\<lambda>_. Inr (replicate (unat cnt) blk)))"

section \<open>The timed loop\<close>

record lat_run =
  lr_clock :: nat
  lr_timer :: timer
  lr_latency :: timer
  lr_pos :: u64
  lr_vec :: "u64 list"
  lr_calls :: "io_call list"

definition lat_start :: "(nat \<Rightarrow> timespec) \<Rightarrow> lat_run" where
  "lat_start clk =
    \<lparr>lr_clock = 1, lr_timer = Timer_Start (clk 0) Timer, lr_latency = Timer, lr_pos = 0, lr_vec = [], lr_calls = []\<rparr>"

definition timed_call :: "(nat \<Rightarrow> timespec) \<Rightarrow> (u64 \<Rightarrow> io_call) \<Rightarrow> lat_run \<Rightarrow> lat_run res" where
  "timed_call clk call r =
    (let k = lr_clock r
     in bindr (Timer_Stop (clk (k + 1)) (Timer_Start (clk k) (lr_latency r))) (\<lambda>lat.
        bindr (Timer_Stop (clk (k + 2)) (lr_timer r)) (\<lambda>t.
        Inr (r\<lparr>lr_clock := k + 3, lr_timer := t, lr_latency := lat,
               lr_vec := lr_vec r @ [Timer_Get lat], lr_calls := lr_calls r @ [call (lr_pos r)]\<rparr>))))"

partial_function (option) lat_loop ::
  "(nat \<Rightarrow> timespec) \<Rightarrow> u64 \<Rightarrow> (u64 \<Rightarrow> u64) \<Rightarrow> (u64 \<Rightarrow> io_call) \<Rightarrow> lat_run \<Rightarrow> lat_run comp" where
  "lat_loop clk run_time step call r =
    (case timed_call clk call r of
       Inl e \<Rightarrow> Some (Inl e)
     | Inr r' \<Rightarrow>
         if Timer_Get (lr_timer r') > run_time then retc r'
         else lat_loop clk run_time step call (r'\<lparr>lr_pos := step (lr_pos r')\<rparr>))"

section \<open>The four tests\<close>

record lat_report =
  rp_calls :: "io_call list"
  rp_saved :: "(string \<times> u64 list) option"
  rp_size :: nat
  rp_p99 :: "nat \<times> u64"
  rp_p999 :: "nat \<times> u64"

definition save_file_path :: "string \<Rightarrow> int \<Rightarrow> string \<Rightarrow> u64 \<Rightarrow> string res" where
  "save_file_path dir thread_id tag bs =
    sprintf_buf 128 (dir @ ''/'' @ dec_int thread_id @ tag @ dec (unat bs) @ ''.lat'')"

text \<open>What follows the loop, the same in the four tests but for the tag in the name of the file.\<close>

definition lat_summary :: "host \<Rightarrow> string \<Rightarrow> string \<Rightarrow> worker_options \<Rightarrow> lat_run \<Rightarrow> lat_report res" where
  "lat_summary h dir tag w r =
    bindr (save_file_path dir (wo_thread_id w) tag (wo_block_size w)) (\<lambda>path.
    bindr (result_output h path (lr_vec r)) (\<lambda>saved.
    let vec = sort (lr_vec r)
    in bindr (percentile P99 vec) (\<lambda>(i99, v99).
       bindr (percentile P999 vec) (\<lambda>(i999, v999).
       Inr \<lparr>rp_calls = lr_calls r, rp_saved = saved, rp_size = length vec,
            rp_p99 = (i99, v99 div 1000), rp_p999 = (i999, v999 div 1000)\<rparr>))))"

definition lat_do_randwrite :: "host \<Rightarrow> string \<Rightarrow> worker_options \<Rightarrow> lat_report comp" where
  "lat_do_randwrite h dir w =
    (let bs = wo_block_size w
     in bindc (Some (posix_memalign h bs bs)) (\<lambda>_.
        bindc (lat_loop (clock_gettime h) (wo_run_time w) (wrap_step (wo_file_size w) RANDOM_SKIP)
                 (\<lambda>pos. Pwrite pos bs) (lat_start (clock_gettime h))) (\<lambda>r.
        Some (lat_summary h dir ''_rw_'' w r))))"

definition lat_do_seqwrite :: "host \<Rightarrow> string \<Rightarrow> worker_options \<Rightarrow> lat_report comp" where
  "lat_do_seqwrite h dir w =
    (let bs = wo_block_size w
     in bindc (Some (posix_memalign h bs bs)) (\<lambda>_.
        bindc (lat_loop (clock_gettime h) (wo_run_time w) (wrap_step (wo_file_size w) bs)
                 (\<lambda>pos. Pwrite pos bs) (lat_start (clock_gettime h))) (\<lambda>r.
        Some (lat_summary h dir ''_sw_'' w r))))"

definition lat_do_randread :: "host \<Rightarrow> string \<Rightarrow> worker_options \<Rightarrow> lat_report comp" where
  "lat_do_randread h dir w =
    (let bs = wo_block_size w
     in bindc (Some (posix_memalign h bs bs)) (\<lambda>_.
        bindc (lat_loop (clock_gettime h) (wo_run_time w) (wrap_step (wo_file_size w) RANDOM_SKIP)
                 (\<lambda>pos. Pread pos bs) (lat_start (clock_gettime h))) (\<lambda>r.
        Some (lat_summary h dir ''_rr_'' w r))))"

definition lat_do_seqread :: "host \<Rightarrow> string \<Rightarrow> worker_options \<Rightarrow> lat_report comp" where
  "lat_do_seqread h dir w =
    (let bs = wo_block_size w
     in bindc (Some (posix_memalign h bs bs)) (\<lambda>_.
        bindc (lat_loop (clock_gettime h) (wo_run_time w) (wrap_step (wo_file_size w) bs)
                 (\<lambda>pos. Pread pos bs) (lat_start (clock_gettime h))) (\<lambda>r.
        Some (lat_summary h dir ''_sr_'' w r))))"

definition lat_run_benchmark :: "host \<Rightarrow> string \<Rightarrow> lat_options \<Rightarrow> lat_report option comp" where
  "lat_run_benchmark h dir opt =
    bindc (Some (io_file_name (lo_path opt) (lo_thread_id opt))) (\<lambda>_.
    let w = \<lparr>wo_thread_id = lo_thread_id opt, wo_file_size = lo_file_size opt,
             wo_block_size = lo_block_size opt, wo_run_time = lo_time opt\<rparr>;
        ty = lo_type opt
    in if ty = OPT_WRITE OR OPT_RANDOM then bindc (lat_do_randwrite h dir w) (\<lambda>rep. retc (Some rep))
       else if ty = OPT_WRITE then bindc (lat_do_seqwrite h dir w) (\<lambda>rep. retc (Some rep))
       else if ty = OPT_READ OR OPT_RANDOM then bindc (lat_do_randread h dir w) (\<lambda>rep. retc (Some rep))
       else if ty = OPT_READ then bindc (lat_do_seqread h dir w) (\<lambda>rep. retc (Some rep))
       else retc None)"

text \<open>
  \<open>main\<close> after the arguments are read.  The readers come after the writers; the block size of the
  readers is an argument of the program that no thread gets.
\<close>

definition lat_thread :: "string \<Rightarrow> u64 \<Rightarrow> u64 \<Rightarrow> int \<Rightarrow> int \<Rightarrow> u64 \<Rightarrow> int \<Rightarrow> u64 \<Rightarrow> int \<Rightarrow> lat_options res" where
  "lat_thread path file_size time write_type num_write write_bs read_type read_bs i =
    (if 32 \<le> i then Inl Out_of_bounds
     else bindr (sprintf_buf 128 path) (\<lambda>p.
       Inr \<lparr>lo_type = (if i < num_write then OPT_WRITE OR write_type else OPT_READ OR read_type),
            lo_thread_id = i, lo_path = p, lo_time = time * 1000000000, lo_file_size = file_size,
            lo_block_size = write_bs\<rparr>))"

definition lat_main :: "host \<Rightarrow> string \<Rightarrow> u64 \<Rightarrow> u64 \<Rightarrow> int \<Rightarrow> int \<Rightarrow> u64 \<Rightarrow> int \<Rightarrow> int \<Rightarrow> u64 \<Rightarrow>
    (u64 list list \<times> lat_options list) res" where
  "lat_main h path file_gb time write_type num_write write_bs read_type num_read read_bs =
    (let file_size = file_gb * (1024 * 1024 * 1024); num_thread = num_write + num_read
     in if num_thread < - (2 ^ 31) \<or> 2 ^ 31 \<le> num_thread then Inl Signed_overflow
        else bindr (mapr (\<lambda>i. bindr (io_file_name path i) (\<lambda>_. ff_file h file_size)) [0..num_thread - 1]) (\<lambda>fills.
             bindr (mapr (lat_thread path file_size time write_type num_write write_bs read_type read_bs)
               [0..num_thread - 1]) (\<lambda>opts. Inr (fills, opts))))"

section \<open>The loop returns\<close>

definition since :: "(nat \<Rightarrow> timespec) \<Rightarrow> nat \<Rightarrow> nat" where
  "since clk k = nat (ns (clk k) - ns (clk 0))"

definition sample :: "(nat \<Rightarrow> timespec) \<Rightarrow> nat \<Rightarrow> u64" where
  "sample clk i = word_of_int (ns (clk (3 * i + 2)) - ns (clk (3 * i + 1)))"

definition lat_at :: "(nat \<Rightarrow> timespec) \<Rightarrow> (u64 \<Rightarrow> u64) \<Rightarrow> (u64 \<Rightarrow> io_call) \<Rightarrow> nat \<Rightarrow> lat_run \<Rightarrow> bool" where
  "lat_at clk step call i r \<longleftrightarrow>
    lr_clock r = 3 * i + 1 \<and> start (lr_timer r) = Some (clk 0)
    \<and> lr_vec r = map (sample clk) [0..<i] \<and> lr_calls r = map (\<lambda>j. call ((step ^^ j) 0)) [0..<i]"

lemma lat_start_at: "lat_at clk step call 0 (lat_start clk) \<and> lr_pos (lat_start clk) = 0"
  by (simp add: lat_at_def lat_start_def Timer_Start_def)

lemma timed_call_at:
  assumes "monotonic clk" "lat_at clk step call i r" "lr_pos r = (step ^^ i) 0"
  shows "\<exists>r'. timed_call clk call r = Inr r' \<and> lat_at clk step call (Suc i) r'
    \<and> lr_pos r' = (step ^^ i) 0 \<and> unat (Timer_Get (lr_timer r')) = since clk (3 * Suc i)"
proof -
  have v: "valid_time (clk k)" for k using assms(1) by (simp add: monotonic_def)
  have m: "ns (clk 0) \<le> ns (clk k)" for k using assms(1) by (simp add: monotonic_def)
  have st: "start (lr_timer r) = Some (clk 0)" "lr_clock r = 3 * i + 1" using assms(2) by (simp_all add: lat_at_def)
  have stop: "Timer_Stop (clk (3 * i + 2)) (Timer_Start (clk (3 * i + 1)) t)
      = Inr (t\<lparr>start := Some (clk (3 * i + 1)), end_time := Some (clk (3 * i + 2)), elapsed := sample clk i\<rparr>)" for t
    by (simp add: Timer_Stop_valid [OF _ v v] Timer_Start_def sample_def)
  show ?thesis
    using assms(2,3) st stop Timer_Stop_valid [OF st(1) v v, of "3 * i + 3"] unat_elapsed [OF v v m, of "3 * i + 3"]
    by (simp add: timed_call_def lat_at_def Timer_Get_def since_def numeral_2_eq_2 numeral_3_eq_3 del: of_int_diff)
qed

lemma lat_loop_returns:
  assumes "monotonic clk" "i \<le> n" "\<forall>j. i \<le> j \<and> j < n \<longrightarrow> since clk (3 * Suc j) \<le> unat run_time"
    "unat run_time < since clk (3 * Suc n)" "lat_at clk step call i r" "lr_pos r = (step ^^ i) 0"
  shows "\<exists>r'. lat_loop clk run_time step call r = retc r' \<and> lat_at clk step call (Suc n) r'"
  using assms(2-)
proof (induction "n - i" arbitrary: i r)
  case 0
  then have "i = n" by simp
  then show ?case using timed_call_at [OF assms(1) 0(5,6)] 0(4)
    by (subst lat_loop.simps) (auto simp: word_less_nat_alt)
next
  case (Suc d)
  then have i: "i < n" by simp
  obtain r1 where r1: "timed_call clk call r = Inr r1" "lat_at clk step call (Suc i) r1"
      "lr_pos r1 = (step ^^ i) 0" "unat (Timer_Get (lr_timer r1)) = since clk (3 * Suc i)"
    using timed_call_at [OF assms(1) Suc(6,7)] by blast
  define r2 where "r2 = r1\<lparr>lr_pos := step (lr_pos r1)\<rparr>"
  have "\<exists>r'. lat_loop clk run_time step call r2 = retc r' \<and> lat_at clk step call (Suc n) r'"
  proof (rule Suc(1))
    show "d = n - Suc i" "Suc i \<le> n" using Suc(2) i by simp_all
    show "\<forall>j. Suc i \<le> j \<and> j < n \<longrightarrow> since clk (3 * Suc j) \<le> unat run_time" using Suc(4) by simp
    show "unat run_time < since clk (3 * Suc n)" by (rule Suc(5))
    show "lat_at clk step call (Suc i) r2" using r1(2) by (simp add: r2_def lat_at_def)
    show "lr_pos r2 = (step ^^ Suc i) 0" using r1(3) by (simp add: r2_def)
  qed
  moreover have "\<not> run_time < Timer_Get (lr_timer r1)" using r1(4) spec [OF Suc(4), of i] i
    by (simp add: word_less_nat_alt not_less)
  ultimately show ?case using r1(1) by (subst lat_loop.simps) (simp add: r2_def)
qed

lemma least_round:
  assumes "m < since clk (3 * Suc k)"
  shows "\<exists>n \<le> k. m < since clk (3 * Suc n) \<and> (\<forall>j < n. since clk (3 * Suc j) \<le> m)"
  using assms ex_least_nat_le [of "\<lambda>n. m < since clk (3 * Suc n)" k] by (metis not_less)

lemma sum_samples:
  assumes "monotonic clk"
  shows "sum_list (map (\<lambda>i. unat (sample clk i)) [0..<n]) \<le> since clk (3 * n)"
proof (induction n)
  case (Suc n)
  have v: "valid_time (clk k)" for k using assms by (simp add: monotonic_def)
  have m: "ns (clk j) \<le> ns (clk k)" if "j \<le> k" for j k using assms that by (simp add: monotonic_def)
  have "unat (sample clk n) = nat (ns (clk (3 * n + 2)) - ns (clk (3 * n + 1)))"
    unfolding sample_def by (intro unat_elapsed v m) simp
  then show ?case using Suc m [of 0 "3 * n"] m [of "3 * n" "3 * n + 1"] m [of "3 * n + 1" "3 * n + 2"]
      m [of "3 * n + 2" "3 * Suc n"] by (simp add: since_def)
qed simp

section \<open>What a test reports\<close>

text \<open>The length of a jump and the request of a test, by its type.\<close>

definition lat_skip :: "int \<Rightarrow> u64 \<Rightarrow> u64" where
  "lat_skip ty bs = (if odd ty then RANDOM_SKIP else bs)"

definition lat_request :: "int \<Rightarrow> u64 \<Rightarrow> u64 \<Rightarrow> io_call" where
  "lat_request ty bs pos = (if ty \<ge> OPT_WRITE then Pwrite pos bs else Pread pos bs)"

definition lat_tag :: "int \<Rightarrow> string" where
  "lat_tag ty = (if ty = 3 then ''_rw_'' else if ty = 2 then ''_sw_'' else if ty = 1 then ''_rr_'' else ''_sr_'')"

lemmas opt_bits = OPT_RANDOM_def OPT_READ_def OPT_WRITE_def

lemma lat_run_benchmark_eq:
  assumes "ty \<in> {0, 1, 2, 3}" "lo_type opt = ty" "io_file_name (lo_path opt) (lo_thread_id opt) = Inr name"
    "posix_memalign h (lo_block_size opt) (lo_block_size opt) = Inr ()"
  shows "lat_run_benchmark h dir opt =
    bindc (lat_loop (clock_gettime h) (lo_time opt)
        (wrap_step (lo_file_size opt) (lat_skip ty (lo_block_size opt)))
        (lat_request ty (lo_block_size opt)) (lat_start (clock_gettime h))) (\<lambda>r.
      bindc (Some (lat_summary h dir (lat_tag ty)
        \<lparr>wo_thread_id = lo_thread_id opt, wo_file_size = lo_file_size opt,
         wo_block_size = lo_block_size opt, wo_run_time = lo_time opt\<rparr> r)) (\<lambda>rep. retc (Some rep)))"
proof -
  have assoc: "bindc (bindc m f) g = bindc m (\<lambda>x. bindc (f x) g)" for m :: "lat_run comp" and f g
    by (cases m) (auto simp: bindc_def split: sum.splits)
  have req: "lat_request 3 bs = (\<lambda>pos. Pwrite pos bs)" "lat_request 2 bs = (\<lambda>pos. Pwrite pos bs)"
      "lat_request 1 bs = (\<lambda>pos. Pread pos bs)" "lat_request 0 bs = (\<lambda>pos. Pread pos bs)" for bs
    by (simp_all add: lat_request_def fun_eq_iff opt_bits)
  show ?thesis using assms
    by (elim insertE emptyE) (simp_all add: lat_run_benchmark_def lat_do_randwrite_def lat_do_seqwrite_def
        lat_do_randread_def lat_do_seqread_def opt_bits Let_def assoc req lat_skip_def lat_tag_def)
qed

lemma lat_summary_ok:
  assumes "save_file_path dir (wo_thread_id w) tag (wo_block_size w) = Inr path"
    "lr_vec r \<noteq> []" "length (lr_vec r) \<le> INT_MAX"
  shows "\<exists>rep v99 v999. lat_summary h dir tag w r = Inr rep \<and> rp_calls rep = lr_calls r
    \<and> rp_saved rep = (if can_open h path then Some (path, lr_vec r) else None)
    \<and> quantile 99 100 (lr_vec r) v99 \<and> snd (rp_p99 rep) = v99 div 1000
    \<and> quantile 999 1000 (lr_vec r) v999 \<and> snd (rp_p999 rep) = v999 div 1000"
proof -
  have n: "length (lr_vec r) < 2 ^ 38" using assms(3) by (simp add: INT_MAX_def)
  obtain i99 v99 where p99: "percentile P99 (sort (lr_vec r)) = Inr (i99, v99)" "quantile 99 100 (lr_vec r) v99"
    using percentile_ok [OF _ assms(2) n, of P99 99 100] by auto
  obtain i999 v999 where p999: "percentile P999 (sort (lr_vec r)) = Inr (i999, v999)" "quantile 999 1000 (lr_vec r) v999"
    using percentile_ok [OF _ assms(2) n, of P999 999 1000] by auto
  have out: "result_output h path (lr_vec r) = Inr (if can_open h path then Some (path, lr_vec r) else None)"
    using assms(3) by (simp add: result_output_def)
  show ?thesis using p99(2) p999(2)
    by (intro exI [of _ "\<lparr>rp_calls = lr_calls r, rp_saved = if can_open h path then Some (path, lr_vec r) else None,
        rp_size = length (lr_vec r), rp_p99 = (i99, v99 div 1000), rp_p999 = (i999, v999 div 1000)\<rparr>"]
        exI [of _ v99] exI [of _ v999]) (simp add: lat_summary_def assms(1) out p99(1) p999(1) Let_def)
qed

text \<open>
  C11. A latency test of any of the four kinds, on a monotonic clock that shows the run time to be
  over at the latest in round \<open>k\<close>: it returns after the first round at whose end more than the run
  time has passed, with at least one sample.  Its requests step through the file by 16 KiB (random)
  or by a block (sequential) and start over past the end.  The samples are the times between the
  readings around each request, they are saved in the order they were taken, their sum is at most the
  time of the whole run, and the two percentiles printed are quantiles of them.
\<close>

theorem latency_test_reports:
  assumes "monotonic (clock_gettime h)" "lo_type opt \<in> {0, 1, 2, 3}"
    "io_file_name (lo_path opt) (lo_thread_id opt) = Inr name"
    "save_file_path dir (lo_thread_id opt) (lat_tag (lo_type opt)) (lo_block_size opt) = Inr path"
    "aligned_block (lo_block_size opt)" "can_alloc h (lo_block_size opt)"
    "unat (lo_file_size opt) + unat (lat_skip (lo_type opt) (lo_block_size opt)) < 2 ^ 64"
    "unat (lo_time opt) < since (clock_gettime h) (3 * Suc k)" "Suc k \<le> INT_MAX"
  defines "skip \<equiv> unat (lat_skip (lo_type opt) (lo_block_size opt))" and "clk \<equiv> clock_gettime h"
  shows "\<exists>n rep v99 v999. n \<le> k \<and> lat_run_benchmark h dir opt = retc (Some rep)
    \<and> unat (lo_time opt) < since clk (3 * Suc n) \<and> (\<forall>j < n. since clk (3 * Suc j) \<le> unat (lo_time opt))
    \<and> rp_calls rep = map (\<lambda>i. lat_request (lo_type opt) (lo_block_size opt)
          (of_nat ((i mod (unat (lo_file_size opt) div skip + 1)) * skip))) [0..<Suc n]
    \<and> rp_saved rep = (if can_open h path then Some (path, map (sample clk) [0..<Suc n]) else None)
    \<and> sum_list (map (\<lambda>i. unat (sample clk i)) [0..<Suc n]) \<le> since clk (3 * Suc n)
    \<and> quantile 99 100 (map (sample clk) [0..<Suc n]) v99 \<and> snd (rp_p99 rep) = v99 div 1000
    \<and> quantile 999 1000 (map (sample clk) [0..<Suc n]) v999 \<and> snd (rp_p999 rep) = v999 div 1000"
proof -
  let ?ty = "lo_type opt" and ?bs = "lo_block_size opt" and ?fs = "lo_file_size opt"
  let ?step = "wrap_step ?fs (lat_skip ?ty ?bs)" and ?call = "lat_request ?ty ?bs"
  let ?w = "\<lparr>wo_thread_id = lo_thread_id opt, wo_file_size = ?fs, wo_block_size = ?bs, wo_run_time = lo_time opt\<rparr>"
  obtain n where n: "n \<le> k" "unat (lo_time opt) < since clk (3 * Suc n)" "\<forall>j < n. since clk (3 * Suc j) \<le> unat (lo_time opt)"
    using least_round [OF assms(8)] by (auto simp: clk_def)
  obtain r where r: "lat_loop clk (lo_time opt) ?step ?call (lat_start clk) = retc r" "lat_at clk ?step ?call (Suc n) r"
    using lat_loop_returns [of clk 0 n "lo_time opt" ?step ?call "lat_start clk"] lat_start_at [of clk] assms(1) n
    by (auto simp: clk_def)
  have vec: "lr_vec r = map (sample clk) [0..<Suc n]"
    and calls: "lr_calls r = map (\<lambda>i. ?call (of_nat ((i mod (unat ?fs div skip + 1)) * skip))) [0..<Suc n]"
    using r(2) wrap_orbit_word [OF assms(7)] by (simp_all add: lat_at_def skip_def)
  obtain rep v99 v999 where rep: "lat_summary h dir (lat_tag ?ty) ?w r = Inr rep"
      "rp_calls rep = lr_calls r" "rp_saved rep = (if can_open h path then Some (path, lr_vec r) else None)"
      "quantile 99 100 (lr_vec r) v99" "snd (rp_p99 rep) = v99 div 1000"
      "quantile 999 1000 (lr_vec r) v999" "snd (rp_p999 rep) = v999 div 1000"
    using lat_summary_ok [of dir ?w "lat_tag ?ty" path r h] assms(4,9) n(1) vec by auto
  have "lat_run_benchmark h dir opt = retc (Some rep)"
    using lat_run_benchmark_eq [OF assms(2) refl assms(3) posix_memalign_ok [OF assms(5,6)]] r(1) rep(1)
    by (simp add: clk_def)
  then show ?thesis using n rep sum_samples [OF assms(1), folded clk_def, of "Suc n"]
    unfolding vec calls by blast
qed

definition sample_options :: lat_options where
  "sample_options = \<lparr>lo_type = 3, lo_thread_id = 0, lo_path = ''dir'', lo_time = 5000,
    lo_file_size = 1048576, lo_block_size = 4096\<rparr>"

theorem latency_test_reports_witness:
  "\<exists>rep. lat_run_benchmark sample_host ''out'' sample_options = retc (Some rep) \<and> rp_calls rep \<noteq> []"
proof -
  have name: "io_file_name (lo_path sample_options) (lo_thread_id sample_options) = Inr ''dir/0.io''"
    by (simp add: io_file_name_def sample_options_def sprintf_buf_def dec_int_def dec.simps)
  have path: "save_file_path ''out'' (lo_thread_id sample_options) (lat_tag (lo_type sample_options))
      (lo_block_size sample_options) = Inr ''out/0_rw_4096.lat''"
    by (simp add: save_file_path_def sample_options_def sprintf_buf_def dec_int_def dec.simps lat_tag_def)
  have "\<exists>n rep v99 v999. n \<le> 1 \<and> lat_run_benchmark sample_host ''out'' sample_options = retc (Some rep)
      \<and> rp_calls rep = map (\<lambda>i. lat_request (lo_type sample_options) (lo_block_size sample_options)
          (of_nat ((i mod (unat (lo_file_size sample_options)
            div unat (lat_skip (lo_type sample_options) (lo_block_size sample_options)) + 1))
            * unat (lat_skip (lo_type sample_options) (lo_block_size sample_options))))) [0..<Suc n]"
    using latency_test_reports [OF _ _ name path, of sample_host 1] sample_clock_monotonic
    by (simp add: sample_options_def aligned_block_def INT_MAX_def lat_skip_def RANDOM_SKIP_def since_def
        ns_def sample_clock_def del: upt_Suc) blast
  then show ?thesis by (auto simp del: upt_Suc)
qed

end
