(* ===== verification/Detail.thy ===== *)
theory Detail
  imports Percentile
begin

text \<open>
  The evaluation of saved samples in \<open>detail.cc\<close>: the average or a percentile of every window of
  samples, written to a file, and the summary of all samples.  What the stream extracts from a file
  is an argument (nothing when the file does not open).  Doubles are handled as in \<open>Percentile\<close>.
\<close>

section \<open>Windows\<close>

text \<open>
  The share of a percentile with the label that \<open>%.2f\<close> prints for it; the share 0 selects the
  average.
\<close>

datatype tail_p = P_avg | P_pct nat string

text \<open>The quotient of two doubles with integer values, rounded and then truncated.\<close>

definition div53 :: "nat \<Rightarrow> nat \<Rightarrow> nat" where
  "div53 a b = rnd53 (2 * (a * 2 ^ 60 div b) + (if a * 2 ^ 60 mod b = 0 then 0 else 1)) div 2 ^ 61"

definition window_value :: "tail_p \<Rightarrow> u64 list \<Rightarrow> u64 res" where
  "window_value p tmp =
    (let vec_tmp = sort tmp
     in case p of
          P_avg \<Rightarrow>
            let sum = foldl (\<lambda>a x. rnd53 (a + rnd53 (unat x))) 0 vec_tmp;
                avg = div53 sum (rnd53 (length vec_tmp))
            in if avg < 2 ^ 64 then Inr (of_nat avg) else Inl Float_range
        | P_pct c label \<Rightarrow> bindr (percentile c vec_tmp) (\<lambda>(idx, v). Inr v))"

fun handler_loop :: "tail_p \<Rightarrow> u64 \<Rightarrow> nat \<Rightarrow> u64 list \<Rightarrow> u64 list \<Rightarrow> u64 list res" where
  "handler_loop p interval i vec_tmp [] = Inr []"
| "handler_loop p interval i vec_tmp (x # xs) =
    (let vec_tmp = vec_tmp @ [x]
     in bindr (umod (of_nat i) interval) (\<lambda>m.
        if m = 0
        then bindr (window_value p vec_tmp) (\<lambda>v.
             bindr (handler_loop p interval (i + 1) [] xs) (\<lambda>vs. Inr (v # vs)))
        else handler_loop p interval (i + 1) vec_tmp xs))"

definition detail_output :: "host \<Rightarrow> string \<Rightarrow> u64 list \<Rightarrow> u64 \<Rightarrow> (u64 \<times> u64) list res" where
  "detail_output h name data interval =
    (if can_open h name
     then if length data \<le> INT_MAX
          then Inr (map (\<lambda>i. (interval * of_nat i, data ! i)) [0..<length data])
          else Inl Signed_overflow
     else Inr [])"

definition tail_name :: "string \<Rightarrow> tail_p \<Rightarrow> string" where
  "tail_name name p =
    take 127 (case p of P_avg \<Rightarrow> name @ ''_avg'' | P_pct c label \<Rightarrow> name @ ''_'' @ label @ ''th'')"

definition tail_latency_handler :: "host \<Rightarrow> string \<Rightarrow> u64 list \<Rightarrow> tail_p \<Rightarrow> u64 \<Rightarrow> (string \<times> (u64 \<times> u64) list) res" where
  "tail_latency_handler h name vec p interval =
    bindr (handler_loop p interval 0 [] vec) (\<lambda>vec_tail_latency.
    bindr (detail_output h (tail_name name p) vec_tail_latency interval) (\<lambda>rows.
    Inr (tail_name name p, rows)))"

section \<open>Summary\<close>

definition get_avg_latency :: "u64 list \<Rightarrow> u64 res" where
  "get_avg_latency vec = udiv (foldl (+) 0 vec) (of_nat (length vec))"

definition get_tail_latency :: "u64 list \<Rightarrow> nat \<Rightarrow> (nat \<times> u64) res" where
  "get_tail_latency vec p = percentile p vec"

definition read_from_file :: "(string \<Rightarrow> u64 list option) \<Rightarrow> string \<Rightarrow> u64 list" where
  "read_from_file fin name = (case fin name of None \<Rightarrow> [] | Some vec \<Rightarrow> vec)"

record detail_report =
  dr_files :: "(string \<times> (u64 \<times> u64) list) list"
  dr_avg :: u64
  dr_tails :: "(nat \<times> u64) list"

definition handler_shares :: "tail_p list" where
  "handler_shares = [P_avg, P_pct P99 ''99.00'', P_pct P999 ''99.90'', P_pct P9999 ''99.99'']"

definition detail_handler :: "host \<Rightarrow> (string \<Rightarrow> u64 list option) \<Rightarrow> string \<Rightarrow> int \<Rightarrow> detail_report res" where
  "detail_handler h fin name interval =
    (let vec = read_from_file fin name
     in bindr (mapr (\<lambda>p. tail_latency_handler h name vec p (word_of_int interval)) handler_shares) (\<lambda>files.
        let vec = sort vec
        in bindr (get_avg_latency vec) (\<lambda>avg.
           bindr (mapr (get_tail_latency vec) [P50, P75, P90, P99, P999, P9999]) (\<lambda>tails.
           Inr \<lparr>dr_files = files, dr_avg = avg, dr_tails = tails\<rparr>))))"

text \<open>
  \<open>main\<close> for the entries of a directory: those whose last four characters are \<open>.lat\<close> are evaluated.
  The interval is read with \<open>atol\<close> and passed on as an \<open>int\<close>.
\<close>

definition is_lat :: "string \<Rightarrow> bool res" where
  "is_lat d_name =
    (if length d_name < 4 then Inl Out_of_bounds else Inr (drop (length d_name - 4) d_name = ''.lat''))"

fun detail_entries :: "host \<Rightarrow> (string \<Rightarrow> u64 list option) \<Rightarrow> string \<Rightarrow> int \<Rightarrow> string list \<Rightarrow> detail_report list res" where
  "detail_entries h fin dir interval [] = Inr []"
| "detail_entries h fin dir interval (d # ds) =
    (if d = ''.'' \<or> d = ''..'' then detail_entries h fin dir interval ds
     else bindr (is_lat d) (\<lambda>lat.
       if lat
       then bindr (sprintf_buf 128 (dir @ ''/'' @ d)) (\<lambda>name.
            bindr (detail_handler h fin name interval) (\<lambda>rep.
            bindr (detail_entries h fin dir interval ds) (\<lambda>reps. Inr (rep # reps))))
       else detail_entries h fin dir interval ds))"

section \<open>The windows as a reference\<close>

function chunks :: "nat \<Rightarrow> 'a list \<Rightarrow> 'a list list" where
  "chunks k xs = (if k = 0 \<or> length xs < k then [] else take k xs # chunks k (drop k xs))"
  by auto
termination by (relation "measure (\<lambda>(k, xs). length xs)") auto

declare chunks.simps [simp del]

text \<open>The first window is the first sample alone; every other one has the full length.\<close>

fun windows :: "nat \<Rightarrow> 'a list \<Rightarrow> 'a list list" where
  "windows k [] = []"
| "windows k (x # xs) = [x] # chunks k xs"

lemma chunks_split: "0 < k \<Longrightarrow> length xs = k \<Longrightarrow> chunks k (xs @ ys) = xs # chunks k ys"
  by (subst chunks.simps) simp

lemma length_chunks: "0 < k \<Longrightarrow> length (chunks k xs) = length xs div k"
proof (induction k xs rule: chunks.induct)
  case (1 k xs)
  then show ?case by (subst chunks.simps) (auto simp: le_div_geq)
qed

lemma chunks_lengths: "w \<in> set (chunks k xs) \<Longrightarrow> length w = k \<and> 0 < k"
proof (induction k xs rule: chunks.induct)
  case (1 k xs)
  then show ?case by (subst (asm) (2) chunks.simps) (auto split: if_splits)
qed

lemma concat_chunks: "concat (chunks k xs) = take (length xs div k * k) xs"
proof (induction k xs rule: chunks.induct)
  case (1 k xs)
  show ?case
  proof (cases "k = 0 \<or> length xs < k")
    case True
    then show ?thesis by (subst chunks.simps) auto
  next
    case False
    then have "length xs div k * k = k + (length xs - k) div k * k" by (simp add: le_div_geq)
    then show ?thesis using 1 False by (subst chunks.simps) (simp add: take_add)
  qed
qed

lemma handler_loop_chunks:
  assumes "0 < unat interval" "length xs + i < 2 ^ 64"
  shows "i = a * unat interval + 1 + length tmp \<Longrightarrow> length tmp < unat interval \<Longrightarrow>
    handler_loop p interval i tmp xs = mapr (window_value p) (chunks (unat interval) (tmp @ xs))"
  using assms(2)
proof (induction xs arbitrary: i a tmp)
  case Nil
  then show ?case by (simp add: chunks.simps)
next
  case (Cons x xs)
  define k where "k = unat interval"
  have "interval \<noteq> 0" using assms(1) by auto
  moreover have "unat (of_nat i :: u64) = i" using Cons(4) by (intro unat_of_nat_below) simp
  ultimately have m: "umod (of_nat i) interval = Inr (of_nat i mod interval)"
      "(of_nat i mod interval = 0) = (i mod k = 0)"
    by (simp_all add: umod_def k_def unat_mod flip: unat_eq_zero)
  have tmp: "length tmp < k" "i mod k = (1 + length tmp) mod k" using Cons(2,3) by (simp_all add: k_def)
  show ?case
  proof (cases "1 + length tmp = k")
    case True
    have "handler_loop p interval (i + 1) [] xs = mapr (window_value p) (chunks k ([] @ xs))"
      using Cons(1) [of "i + 1" "a + 1" "[]"] Cons(2,4) assms(1) True by (simp add: k_def algebra_simps)
    moreover have "chunks k (tmp @ x # xs) = (tmp @ [x]) # chunks k xs"
      using chunks_split [of k "tmp @ [x]" xs] True by simp
    ultimately show ?thesis using m tmp True by (simp add: Let_def k_def [symmetric])
  next
    case False
    then have "i mod k \<noteq> 0" using tmp by simp
    moreover have "handler_loop p interval (i + 1) (tmp @ [x]) xs = mapr (window_value p) (chunks k ((tmp @ [x]) @ xs))"
      using Cons(1) [of "i + 1" a "tmp @ [x]"] Cons(2,4) tmp(1) False by (simp add: k_def)
    ultimately show ?thesis using m by (simp add: Let_def k_def [symmetric])
  qed
qed

lemma handler_loop_windows:
  assumes "0 < unat interval" "length xs < 2 ^ 64"
  shows "handler_loop p interval 0 [] xs = mapr (window_value p) (windows (unat interval) xs)"
proof (cases xs)
  case (Cons x ys)
  have "interval \<noteq> 0" using assms(1) by auto
  then show ?thesis using handler_loop_chunks [of interval ys 1 0 "[]" p] assms Cons
    by (simp add: umod_def Let_def)
qed simp

lemma windows_facts:
  assumes "0 < k"
  shows "w \<in> set (windows k xs) \<Longrightarrow> w \<noteq> [] \<and> length w \<le> length xs"
    "xs \<noteq> [] \<Longrightarrow> length (windows k xs) = (length xs - 1) div k + 1"
    "\<exists>m. concat (windows k xs) = take m xs"
proof -
  show "w \<noteq> [] \<and> length w \<le> length xs" if w: "w \<in> set (windows k xs)"
  proof (cases xs)
    case (Cons x ys)
    have "length w \<le> length ys" if "w \<in> set (chunks k ys)"
    proof -
      have "length w \<le> length (concat (chunks k ys))" using that by (auto simp: length_concat member_le_sum_list)
      then show ?thesis unfolding concat_chunks length_take by linarith
    qed
    then show ?thesis using w Cons chunks_lengths [of w k ys] by auto
  qed (use w in simp)
  show "length (windows k xs) = (length xs - 1) div k + 1" if "xs \<noteq> []"
    using that assms by (cases xs) (simp_all add: length_chunks)
  show "\<exists>m. concat (windows k xs) = take m xs"
  proof (cases xs)
    case (Cons x ys)
    then have "concat (windows k xs) = take (Suc (length ys div k * k)) xs" by (simp add: concat_chunks)
    then show ?thesis by blast
  qed simp
qed

section \<open>Correctness\<close>

lemma window_value_pct:
  assumes "near_ratio c num den" "w \<noteq> []" "length w < 2 ^ 38"
  shows "\<exists>v. window_value (P_pct c label) w = Inr v \<and> quantile num den w v"
  using percentile_ok [OF assms] by (auto simp: window_value_def Let_def)

lemma mapr_total:
  "(\<And>x. x \<in> set xs \<Longrightarrow> \<exists>y. f x = Inr y \<and> P x y) \<Longrightarrow> \<exists>ys. mapr f xs = Inr ys \<and> list_all2 P xs ys"
proof (induction xs)
  case (Cons x xs)
  obtain y where "f x = Inr y" "P x y" using Cons(2) [of x] by auto
  moreover obtain ys where "mapr f xs = Inr ys" "list_all2 P xs ys" using Cons by auto
  ultimately show ?case by (intro exI [of _ "y # ys"]) simp
qed simp

text \<open>
  C26. The file of a percentile over time, for a non-zero interval, non-empty samples and an output
  that opens: it has one row per window, row \<open>j\<close> is labelled \<open>j\<close> times the interval and holds a quantile
  of window \<open>j\<close>.  The windows are the first sample alone and then runs of \<open>interval\<close> samples; together they
  are a prefix of the samples.
\<close>

theorem tail_handler_rows:
  assumes "interval \<noteq> 0" "vec \<noteq> []" "length vec \<le> INT_MAX"
    "(c, num, den) \<in> {(P99, 99, 100), (P999, 999, 1000), (P9999, 9999, 10000)}"
    "can_open h (tail_name name (P_pct c label))"
  defines "ws \<equiv> windows (unat interval) vec"
  shows "\<exists>rows m. tail_latency_handler h name vec (P_pct c label) interval = Inr (tail_name name (P_pct c label), rows)
    \<and> length ws = (length vec - 1) div unat interval + 1 \<and> concat ws = take m vec
    \<and> list_all2 (\<lambda>w row. quantile num den w (snd row)) ws rows
    \<and> map fst rows = map (\<lambda>j. interval * of_nat j) [0..<length ws]"
proof -
  have k: "0 < unat interval" using assms(1) by (simp add: unat_gt_0)
  have near: "near_ratio c num den"
    using assms(4) by (elim insertE emptyE) (simp_all only: prod.inject near_ratios)
  have len: "length vec < 2 ^ 38" "length vec < 2 ^ 64" using assms(3) by (simp_all add: INT_MAX_def)
  note wf = windows_facts [OF k, where xs = vec, folded ws_def]
  have "\<exists>v. window_value (P_pct c label) w = Inr v \<and> quantile num den w v" if "w \<in> set ws" for w
    using wf(1) [OF that] len(1) by (intro window_value_pct [OF near]) auto
  then obtain vs where vs: "mapr (window_value (P_pct c label)) ws = Inr vs" "list_all2 (quantile num den) ws vs"
    using mapr_total [of ws "window_value (P_pct c label)" "quantile num den"] by blast
  have lvs: "length vs = length ws" using list_all2_lengthD [OF vs(2)] by simp
  have "(length vec - 1) div unat interval \<le> length vec - 1" by (rule div_le_dividend)
  then have "length vs \<le> INT_MAX" using lvs wf(2) [OF assms(2)] assms(3) length_greater_0_conv [of vec] assms(2) by linarith
  then have "tail_latency_handler h name vec (P_pct c label) interval
      = Inr (tail_name name (P_pct c label), map (\<lambda>i. (interval * of_nat i, vs ! i)) [0..<length vs])"
    using handler_loop_windows [OF k len(2)] vs(1) assms(5)
    by (simp add: tail_latency_handler_def detail_output_def ws_def)
  moreover have "list_all2 (\<lambda>w row. quantile num den w (snd row)) ws (map (\<lambda>i. (interval * of_nat i, vs ! i)) [0..<length vs])"
    using vs(2) lvs by (simp add: list_all2_conv_all_nth)
  moreover obtain m where "concat ws = take m vec" using wf(3) by blast
  moreover have "map fst (map (\<lambda>i. (interval * of_nat i, vs ! i)) [0..<length vs]) = map (\<lambda>j. interval * of_nat j) [0..<length ws]"
    using lvs by simp
  ultimately show ?thesis using wf(2) [OF assms(2)] by blast
qed

theorem tail_handler_rows_witness:
  "\<exists>rows. tail_latency_handler sample_host ''a.lat'' [30, 10, 20, 50, 40, 60] (P_pct P99 ''99.00'') 2
      = Inr (''a.lat_99.00th'', rows)
    \<and> list_all2 (\<lambda>w row. quantile 99 100 w (snd row)) [[30], [10, 20], [50, 40]] rows"
proof -
  have "windows 2 [30, 10, 20, 50, 40, 60 :: u64] = [[30], [10, 20], [50, 40]]"
    by (simp add: chunks.simps)
  then show ?thesis
    using tail_handler_rows [of 2 "[30, 10, 20, 50, 40, 60]" P99 99 100 sample_host "''a.lat''" "''99.00''"]
    by (auto simp: INT_MAX_def tail_name_def)
qed

text \<open>A file without samples, also one that does not open, ends the program with a division by zero.\<close>

lemma detail_handler_empty:
  assumes "read_from_file fin name = []"
  shows "detail_handler h fin name interval = Inl Div_by_zero"
proof -
  have "tail_latency_handler h name [] p iv = Inr (tail_name name p, [])" for p iv
    by (simp add: tail_latency_handler_def detail_output_def)
  then have "mapr (\<lambda>p. tail_latency_handler h name [] p iv) ps = Inr (map (\<lambda>p. (tail_name name p, [])) ps)" for ps iv
    by (intro mapr_Inr) simp
  then show ?thesis using assms by (simp add: detail_handler_def get_avg_latency_def udiv_def Let_def)
qed

end
