(* ===== verification/Spec2Isabelle.thy ===== *)
theory Spec2Isabelle
  imports Bitops Axmap_Props Lfsr_Props Peterson Md5 Sha1 Sha256 Sha512 Sha3 Xxhash Crc Io_U_Cover Stat_Plat Io_Queue Io_Tester Tail_Latency Detail
begin

text \<open>
  Verification library for the I/O tester repository.

  \<^bold>\<open>The program.\<close>  The repository bundles the fio 3.5 workload generator (\<open>src/fio/fio-fio-3.5\<close>, below
  written without that prefix) with testers of its own: \<open>src/io_tester\<close> measures throughput,
  \<open>src/tail_latency\<close> measures the latency of single requests, \<open>src/detail.cc\<close> evaluates the latencies
  that were saved, and \<open>src/test.cc\<close> is a small test of a two-thread lock.  In fio a job asks
  \<open>io_u.c\<close> for one I/O unit after another.  \<open>io_u.c\<close> draws an offset from the random numbers of
  \<open>lib/rand.c\<close> or from the shift register of \<open>lib/lfsr.c\<close>, marks the blocks it hands out in the map of
  \<open>lib/axmap.c\<close>, and keeps free and requeued units in the containers of \<open>io_u_queue.h\<close>.  Buffers are
  filled by \<open>lib/pattern.c\<close> and \<open>lib/rand.c\<close> and verified by the digests and checksums of \<open>crc/\<close>.  The
  latencies of finished units are counted in the histogram of \<open>stat.c\<close>.

  \<^bold>\<open>Conventions.\<close>  C functions are HOL functions with the state passed explicitly; structures are
  records and keep the names of their fields, with a prefix where two structures share one.
  Unsigned integers are words of their width on an LP64 target.  \<open>Fio_Prelude\<close> has the result types:
  \<open>'a res\<close> is a value or one of the errors \<open>c_error\<close> (access outside an object, failed assertion,
  signed overflow, division by zero and so on), and \<open>'a comp\<close> adds \<open>None\<close> for a computation that does not
  return.  A theorem that concludes \<open>Inr\<close> or \<open>retc\<close> therefore says that the code returns and does
  nothing undefined.  Products and sums of doubles are exact integers followed by \<open>rnd53\<close>, the
  rounding to 53 bits of IEEE arithmetic as compiled for SSE2.

  \<^bold>\<open>Theories and sources.\<close>
  \<^item> \<open>Fio_Prelude\<close>, \<open>Bytes\<close>: errors, machine integers, arrays, byte orders.
  \<^item> \<open>Bitops\<close>: \<open>lib/ffz.h\<close>, \<open>lib/fls.h\<close>, \<open>lib/pow2.h\<close>, \<open>lib/hweight.c\<close>.
  \<^item> \<open>Axmap\<close>, \<open>Axmap_Props\<close>: \<open>lib/axmap.c\<close>.  \<open>Coverage_Map\<close> is the contract that the offset generator
    relies on, as a locale; \<open>Axmap_Props\<close> interprets it on the map.
  \<^item> \<open>Lfsr\<close>, \<open>Lfsr_Period\<close>, \<open>Lfsr_Table\<close>, \<open>Lfsr_Props\<close>: \<open>lib/lfsr.c\<close>, the theory of the period of a shift
    register, certificates for the rows of the tap table, and the generator itself.
  \<^item> \<open>Rand\<close>, \<open>Pattern\<close>: \<open>lib/rand.c\<close>, \<open>lib/rand.h\<close>, \<open>lib/pattern.c\<close>.
  \<^item> \<open>Flist_Sort\<close>: \<open>lib/flist_sort.c\<close>.
  \<^item> \<open>Io_U\<close>, \<open>Io_U_Safety\<close>, \<open>Io_U_Cover\<close>: the choice of offsets and lengths in \<open>io_u.c\<close>, with
    \<open>fio_file_reset\<close> and \<open>get_start_offset\<close> of \<open>filesetup.c\<close>.
  \<^item> \<open>Io_Queue\<close>: \<open>io_u_queue.h\<close> and \<open>io_u_queue.c\<close>.  \<open>Stat_Plat\<close>: the buckets of \<open>stat.c\<close>.
  \<^item> \<open>Md5\<close>, \<open>Sha1\<close>, \<open>Sha256\<close>, \<open>Sha512\<close> (with \<open>Sha2\<close>), \<open>Sha3\<close>, \<open>Xxhash\<close>: the digests of \<open>crc/\<close>, all interpreting
    the contract of a block digest in \<open>Block_Hash\<close>.  \<open>Crc\<close>: the checksums of \<open>crc/\<close>.
  \<^item> \<open>Peterson\<close>: \<open>src/test.cc\<close> as a step relation on the interleavings of its threads.
  \<^item> \<open>Tester_Base\<close>: \<open>timer.h\<close>, file names, loops over a file, and the answers of the operating
    system as a record.  \<open>Io_Tester\<close>: \<open>src/io_tester\<close>.  \<open>Percentile\<close>, \<open>Tail_Latency\<close>:
    \<open>src/tail_latency/posix.cc\<close>.  \<open>Detail\<close>: \<open>src/detail.cc\<close>.

  \<^bold>\<open>What is shown.\<close>
  \<^item> Coverage: the shift register returns each block once; random I/O with a map visits each block
    of the region once before it stops; sequential I/O tiles the region.
  \<^item> The map: a well-formedness invariant tying the levels together, that every operation keeps it,
    and that the operations are insertion, deletion, membership and search in a set of blocks.
  \<^item> Safety: no I/O unit leaves its file, lengths lie in the range of the options, random numbers lie
    in their range whatever is rounded.
  \<^item> Digests: streaming in any pieces is the published function of the whole message, and where the code
    differs (SHA-256 and SHA-512) what it computes instead.  Checksums: the table-driven and the SSE 4.2
    versions are the division by their polynomials; a difference within 4 bytes is always noticed.
  \<^item> Buffers: a pattern written is a pattern that verifies; filling returns exactly under stated conditions.
  \<^item> Containers: the stack and the ring refine lists.  The sort is the stable sort.
  \<^item> Histogram: a latency and the value that stands for its bucket differ by one part in 128 at most.
  \<^item> The lock: mutual exclusion, the final array, and that both threads can always still finish.
  \<^item> Testers: the requests that are issued, that the loops return when the system answers as
    documented, that the samples are the times around the requests, and that every percentile printed is
    a quantile of the samples.
  \<^item> Deviations of the code from its intent are theorems too, e.g. the asynchronous read test that writes.

  \<^bold>\<open>Bounds.\<close>  The shift register is treated below \<open>2 ^ 24\<close> blocks, because each row of the table needs a
  certificate.  The random map is treated below \<open>2 ^ 53\<close> blocks, where the double product is exact
  enough.  Buffers are shorter than \<open>2 ^ 32\<close> bytes where the code counts in \<open>unsigned int\<close>; files
  end 4 GiB below \<open>2 ^ 64\<close>; latencies in the histogram are below \<open>2 ^ 34\<close> ns, the range of its
  buckets; rings are smaller than \<open>2 ^ 31\<close>; percentiles are taken of fewer than \<open>2 ^ 38\<close>
  samples; clock readings stay below \<open>2 ^ 32\<close> seconds.  No definition uses fuel: loops that may not end
  are partial functions, and all others have termination proofs.

  \<^bold>\<open>Parameters.\<close>  The zipf, pareto and gauss draws, the CRC32 instruction, the allocator, the clock, the
  answers of \<open>io_submit\<close>, \<open>io_getevents\<close> and of the SPDK functions are arguments of the definitions.

  \<^bold>\<open>Not modelled.\<close>
  \<^item> Job control, engines, networking and reports of fio (\<open>backend.c\<close>, \<open>ioengines.c\<close>, \<open>engines/\<close>, \<open>server.c\<close>,
    \<open>client.c\<close>, \<open>gfio.c\<close> and their kind) are system calls, foreign libraries and text output.
  \<^item> Option parsing (\<open>options.c\<close>, \<open>parse.c\<close>) is a table read through libc; the model starts after it.
  \<^item> \<open>verify.c\<close> and \<open>iolog.c\<close> drive the modelled digests on data from a device and keep red-black trees of
    heap nodes; pointer structures (\<open>lib/rbtree.c\<close>, \<open>lib/prio_tree.c\<close>, \<open>smalloc.c\<close>) would need a heap
    model of their own.
  \<^item> \<open>lib/zipf.c\<close>, \<open>lib/gauss.c\<close> and the means and deviations of \<open>stat.c\<close> depend on the last bit of
    \<open>pow\<close>, \<open>log\<close> and \<open>sqrt\<close>, which no standard fixes.
  \<^item> Threads and locks of fio (\<open>workqueue.c\<close>, \<open>mutex.c\<close>) rest on pthread and the memory model of the compiler;
    \<open>Peterson\<close> assumes sequentially consistent memory.
  \<^item> \<open>src/tail_latency/spdk.cc\<close> takes its samples in callbacks of the driver; the SPDK and PMDK examples only
    call libraries that are not in the repository.
  \<^item> In the testers: the printed rates, the creation and pinning of threads, argument parsing.
\<close>

end
